(* ===== verification/Prelude.thy ===== *)
theory Prelude
  imports Main "HOL-Library.Word"
begin

text \<open>
  Shared vocabulary of the development.

  \<^item> \<open>res\<close>: the outcome of a kernel function. C code that calls \<open>panic\<close> never returns to its
    caller (\<open>Panic\<close>, with the message); code that waits for a condition that only another
    process can make true, or that loops for ever, does not return either (\<open>Hang\<close>); an access
    outside the bounds of a C array has no defined meaning (\<open>Undef\<close>); everything else is
    \<open>Ok\<close>.  State is passed explicitly: an operation on a state \<open>s\<close> returns the new state inside
    the \<open>Ok\<close>.
  \<^item> \<open>rbind\<close> sequences two calls, \<open>foldR\<close> is a bounded loop whose body changes the state.
  \<^item> \<open>getLE\<close>, \<open>putLE\<close>: little-endian integers inside a byte array, which is how the C code
    reads and writes structures in a disk block or in physical memory (the kernel runs on
    RISC-V, which is little-endian).
\<close>

unbundle bit_operations_syntax

section \<open>Machine integers and byte arrays\<close>

type_synonym byte = "8 word"
type_synonym u16 = "16 word"
type_synonym u32 = "32 word"
type_synonym u64 = "64 word"
type_synonym bytes = "nat \<Rightarrow> byte"

text \<open>\<open>getLE k m i\<close> is the number stored in the \<open>k\<close> bytes of \<open>m\<close> that start at \<open>i\<close>.\<close>

fun getLE :: "nat \<Rightarrow> bytes \<Rightarrow> nat \<Rightarrow> nat" where
  "getLE 0 m i = 0"
| "getLE (Suc k) m i = unat (m i) + 256 * getLE k m (Suc i)"

definition putLE :: "nat \<Rightarrow> bytes \<Rightarrow> nat \<Rightarrow> nat \<Rightarrow> bytes" where
  "putLE k m i v = (\<lambda>j. if i \<le> j \<and> j < i + k then of_nat (v div 256 ^ (j - i)) else m j)"

definition get16 :: "bytes \<Rightarrow> nat \<Rightarrow> u16" where
  "get16 m i = of_nat (getLE 2 m i)"

definition get32 :: "bytes \<Rightarrow> nat \<Rightarrow> u32" where
  "get32 m i = of_nat (getLE 4 m i)"

definition get64 :: "bytes \<Rightarrow> nat \<Rightarrow> u64" where
  "get64 m i = of_nat (getLE 8 m i)"

definition put16 :: "bytes \<Rightarrow> nat \<Rightarrow> u16 \<Rightarrow> bytes" where
  "put16 m i v = putLE 2 m i (unat v)"

definition put32 :: "bytes \<Rightarrow> nat \<Rightarrow> u32 \<Rightarrow> bytes" where
  "put32 m i v = putLE 4 m i (unat v)"

definition put64 :: "bytes \<Rightarrow> nat \<Rightarrow> u64 \<Rightarrow> bytes" where
  "put64 m i v = putLE 8 m i (unat v)"

section \<open>Outcomes\<close>

datatype 'a res = Ok 'a | Panic string | Hang | Undef

definition rbind :: "'a res \<Rightarrow> ('a \<Rightarrow> 'b res) \<Rightarrow> 'b res" where
  "rbind r f = (case r of Ok x \<Rightarrow> f x | Panic m \<Rightarrow> Panic m | Hang \<Rightarrow> Hang | Undef \<Rightarrow> Undef)"

fun is_Ok :: "'a res \<Rightarrow> bool" where
  "is_Ok (Ok _) = True"
| "is_Ok _ = False"

fun foldR :: "('x \<Rightarrow> 's \<Rightarrow> 's res) \<Rightarrow> 'x list \<Rightarrow> 's \<Rightarrow> 's res" where
  "foldR f [] s = Ok s"
| "foldR f (x # xs) s = rbind (f x s) (foldR f xs)"

named_theorems frame \<open>which parts of the state an operation leaves alone\<close>
named_theorems layout \<open>reads of a byte array after a write to it\<close>

section \<open>Lemmas on outcomes\<close>

lemma rbind_simps [simp]:
  "rbind (Ok x) f = f x"
  "rbind (Panic m) f = Panic m"
  "rbind Hang f = Hang"
  "rbind Undef f = Undef"
  by (simp_all add: rbind_def)

lemma rbind_Ok_iff [simp]:
  "rbind r f = Ok y \<longleftrightarrow> (\<exists>x. r = Ok x \<and> f x = Ok y)"
  by (cases r) auto

lemma rbind_assoc: "rbind (rbind r f) g = rbind r (\<lambda>x. rbind (f x) g)"
  by (cases r) auto

lemma rbind_cong [fundef_cong]:
  "r = r' \<Longrightarrow> (\<And>x. r' = Ok x \<Longrightarrow> f x = f' x) \<Longrightarrow> rbind r f = rbind r' f'"
  by (cases r') auto

lemma is_Ok_iff: "is_Ok r \<longleftrightarrow> (\<exists>x. r = Ok x)"
  by (cases r) auto

lemma foldR_append: "foldR f (xs @ ys) s = rbind (foldR f xs s) (foldR f ys)"
  by (induction xs arbitrary: s) (auto simp: rbind_assoc intro: rbind_cong)

text \<open>The invariant rule of bounded loops.\<close>

lemma foldR_invariant:
  assumes "foldR f xs s = Ok s'" and "P s"
    and "\<And>x s s'. x \<in> set xs \<Longrightarrow> P s \<Longrightarrow> f x s = Ok s' \<Longrightarrow> P s'"
  shows "P s'"
  using assms
proof (induction xs arbitrary: s)
  case Nil
  then show ?case by simp
next
  case (Cons x xs)
  from Cons.prems(1) obtain t where t: "f x s = Ok t" "foldR f xs t = Ok s'"
    by auto
  have "P t" using Cons.prems(2,3) t(1) by auto
  then show ?case using Cons.IH[OF t(2)] Cons.prems(3) by (meson list.set_intros(2))
qed

section \<open>Lemmas on little-endian integers\<close>

lemma unat_bounds:
  "unat (b :: byte) < 256" "unat (h :: u16) < 65536" "unat (w :: u32) < 4294967296"
  "unat (x :: u64) < 18446744073709551616"
  using unsigned_less[of b, where 'a = nat] unsigned_less[of h, where 'a = nat]
    unsigned_less[of w, where 'a = nat] unsigned_less[of x, where 'a = nat]
  by simp_all

lemma getLE_bound: "getLE k m i < 256 ^ k"
proof (induction k arbitrary: i)
  case 0
  then show ?case by simp
next
  case (Suc k)
  have "unat (m i) < 256" by (rule unat_bounds)
  then show ?case using Suc[of "Suc i"] by simp
qed

lemma getLE_num:
  "getLE 2 m i = unat (m i) + 256 * unat (m (i + 1))"
  "getLE 4 m i = unat (m i) + 256 * unat (m (i + 1)) + 65536 * unat (m (i + 2))
     + 16777216 * unat (m (i + 3))"
proof -
  have n: "(2::nat) = Suc (Suc 0)" "(4::nat) = Suc (Suc (Suc (Suc 0)))" by simp_all
  show "getLE 2 m i = unat (m i) + 256 * unat (m (i + 1))"
    unfolding n(1) by simp
  show "getLE 4 m i = unat (m i) + 256 * unat (m (i + 1)) + 65536 * unat (m (i + 2))
     + 16777216 * unat (m (i + 3))"
    by (subst n(2)) (simp add: numeral_3_eq_3)
qed

lemma getLE_cong:
  "(\<And>j. i \<le> j \<Longrightarrow> j < i + k \<Longrightarrow> m j = m' j) \<Longrightarrow> getLE k m i = getLE k m' i"
proof (induction k arbitrary: i)
  case 0
  then show ?case by simp
next
  case (Suc k)
  from Suc.prems have "getLE k m (Suc i) = getLE k m' (Suc i)"
    by (intro Suc.IH) auto
  with Suc.prems show ?case by simp
qed

lemma getLE_putLE_same: "getLE k (putLE k m i v) i = v mod 256 ^ k"
proof (induction k arbitrary: i v)
  case 0
  then show ?case by simp
next
  case (Suc k)
  have "getLE k (putLE (Suc k) m i v) (Suc i) = getLE k (putLE k m (Suc i) (v div 256)) (Suc i)"
  proof (rule getLE_cong)
    fix j assume j: "Suc i \<le> j" "j < Suc i + k"
    then have "j - i = Suc (j - Suc i)" by simp
    then show "putLE (Suc k) m i v j = putLE k m (Suc i) (v div 256) j"
      using j by (simp add: putLE_def div_mult2_eq)
  qed
  also have "\<dots> = (v div 256) mod 256 ^ k" by (rule Suc.IH)
  finally have "getLE k (putLE (Suc k) m i v) (Suc i) = (v div 256) mod 256 ^ k" .
  moreover have "unat (putLE (Suc k) m i v i) = v mod 256"
    by (simp add: putLE_def unat_of_nat)
  ultimately show ?case by (simp add: mod_mult2_eq)
qed

lemma getLE_putLE_other:
  "i + k \<le> j \<or> j + l \<le> i \<Longrightarrow> getLE l (putLE k m i v) j = getLE l m j"
  by (rule getLE_cong) (auto simp: putLE_def)

lemma putLE_outside: "j < i \<or> i + k \<le> j \<Longrightarrow> putLE k m i v j = m j"
  by (auto simp: putLE_def)

lemma get_put_same [simp]:
  "get16 (put16 m i v) i = v"
  "get32 (put32 m i w) i = w"
  "get64 (put64 m i x) i = x"
  using unat_bounds(2)[of v] unat_bounds(3)[of w] unat_bounds(4)[of x]
  by (simp_all add: get16_def put16_def get32_def put32_def get64_def put64_def
      getLE_putLE_same)

lemma get_put16_other [layout]:
  "i + 2 \<le> j \<or> j + 2 \<le> i \<Longrightarrow> get16 (put16 m i v) j = get16 m j"
  "i + 2 \<le> j \<or> j + 4 \<le> i \<Longrightarrow> get32 (put16 m i v) j = get32 m j"
  by (simp_all add: get16_def put16_def get32_def getLE_putLE_other)

lemma get_put32_other [layout]:
  "i + 4 \<le> j \<or> j + 2 \<le> i \<Longrightarrow> get16 (put32 m i v) j = get16 m j"
  "i + 4 \<le> j \<or> j + 4 \<le> i \<Longrightarrow> get32 (put32 m i v) j = get32 m j"
  by (simp_all add: get16_def put32_def get32_def getLE_putLE_other)

lemma get_put64_other [layout]:
  "i + 8 \<le> j \<or> j + 8 \<le> i \<Longrightarrow> get64 (put64 m i v) j = get64 m j"
  by (simp add: put64_def get64_def getLE_putLE_other)

lemma put_outside [layout]:
  "j < i \<or> i + 2 \<le> j \<Longrightarrow> put16 m i v16 j = m j"
  "j < i \<or> i + 4 \<le> j \<Longrightarrow> put32 m i v32 j = m j"
  "j < i \<or> i + 8 \<le> j \<Longrightarrow> put64 m i v64 j = m j"
  by (auto simp: put16_def put32_def put64_def putLE_outside)

lemma get_cong:
  "(\<And>j. i \<le> j \<Longrightarrow> j < i + 2 \<Longrightarrow> m j = m' j) \<Longrightarrow> get16 m i = get16 m' i"
  "(\<And>j. i \<le> j \<Longrightarrow> j < i + 4 \<Longrightarrow> m j = m' j) \<Longrightarrow> get32 m i = get32 m' i"
  "(\<And>j. i \<le> j \<Longrightarrow> j < i + 8 \<Longrightarrow> m j = m' j) \<Longrightarrow> get64 m i = get64 m' i"
  by (simp_all add: get16_def get32_def get64_def getLE_cong[of i _ m m'])

end
