(* ===== verification/Cstring.thy ===== *)
theory Cstring
  imports Prelude
begin

text \<open>
  The string and memory routines of \<open>kernel/string.c\<close>.

  A C object is a byte array \<open>bytes\<close>; a pointer into it is an index.  \<open>memset\<close> and \<open>memmove\<close>
  work on one array, so that the overlap that \<open>memmove\<close> takes care of can be expressed; the
  string routines take their two arguments as separate arrays (the callers pass distinct
  objects).  A loop that runs until it meets a NUL byte and has no other bound is a
  \<open>partial_function\<close>: it may never end.

  The theorems: each loop computes the function that its C prototype promises; in particular
  \<open>memmove\<close> copies the original source bytes also when the two areas overlap.
\<close>

section \<open>Definitions\<close>

function memset_loop :: "bytes \<Rightarrow> nat \<Rightarrow> byte \<Rightarrow> nat \<Rightarrow> nat \<Rightarrow> bytes" where
  "memset_loop m dst c i n =
     (if i < n then memset_loop (m(dst + i := c)) dst c (Suc i) n else m)"
  by pat_completeness auto
termination
  by (relation "measure (\<lambda>(m, dst, c, i, n). n - i)") auto

definition memset :: "bytes \<Rightarrow> nat \<Rightarrow> byte \<Rightarrow> nat \<Rightarrow> bytes" where
  "memset m dst c n = memset_loop m dst c 0 n"

fun memcmp :: "bytes \<Rightarrow> nat \<Rightarrow> bytes \<Rightarrow> nat \<Rightarrow> nat \<Rightarrow> int" where
  "memcmp m1 s1 m2 s2 0 = 0"
| "memcmp m1 s1 m2 s2 (Suc n) =
     (if m1 s1 \<noteq> m2 s2 then uint (m1 s1) - uint (m2 s2)
      else memcmp m1 (Suc s1) m2 (Suc s2) n)"

text \<open>
  The two copy loops of \<open>memmove\<close>: downwards from the end (the C pointers are \<open>d + n\<close> and
  \<open>s + n\<close>, with \<open>n\<close> the bytes still to copy), and upwards.
\<close>

fun copy_down :: "bytes \<Rightarrow> nat \<Rightarrow> nat \<Rightarrow> nat \<Rightarrow> bytes" where
  "copy_down m d s 0 = m"
| "copy_down m d s (Suc n) = copy_down (m(d + n := m (s + n))) d s n"

fun copy_up :: "bytes \<Rightarrow> nat \<Rightarrow> nat \<Rightarrow> nat \<Rightarrow> bytes" where
  "copy_up m d s 0 = m"
| "copy_up m d s (Suc n) = copy_up (m(d := m s)) (Suc d) (Suc s) n"

definition memmove :: "bytes \<Rightarrow> nat \<Rightarrow> nat \<Rightarrow> nat \<Rightarrow> bytes" where
  "memmove m dst src n =
     (if n = 0 then m
      else if src < dst \<and> src + n > dst then copy_down m dst src n
      else copy_up m dst src n)"

definition memcpy :: "bytes \<Rightarrow> nat \<Rightarrow> nat \<Rightarrow> nat \<Rightarrow> bytes" where
  "memcpy m dst src n = memmove m dst src n"

fun strncmp :: "bytes \<Rightarrow> nat \<Rightarrow> bytes \<Rightarrow> nat \<Rightarrow> nat \<Rightarrow> int" where
  "strncmp mp p mq q 0 = 0"
| "strncmp mp p mq q (Suc n) =
     (if mp p \<noteq> 0 \<and> mp p = mq q then strncmp mp (Suc p) mq (Suc q) n
      else uint (mp p) - uint (mq q))"

text \<open>
  \<open>strncpy\<close>: the first loop copies up to and including the NUL, the second one fills the
  rest with zeros.  \<open>n\<close> is what is left of the C variable \<open>n\<close> when it is positive.
\<close>

fun pad0 :: "bytes \<Rightarrow> nat \<Rightarrow> nat \<Rightarrow> bytes" where
  "pad0 m s 0 = m"
| "pad0 m s (Suc n) = pad0 (m(s := 0)) (Suc s) n"

fun strncpy :: "bytes \<Rightarrow> nat \<Rightarrow> bytes \<Rightarrow> nat \<Rightarrow> nat \<Rightarrow> bytes" where
  "strncpy m s mt t 0 = m"
| "strncpy m s mt t (Suc n) =
     (if mt t \<noteq> 0 then strncpy (m(s := mt t)) (Suc s) mt (Suc t) n
      else pad0 (m(s := mt t)) (Suc s) n)"

text \<open>\<open>safestrcpy\<close> always stores a final NUL when \<open>n\<close> is positive.\<close>

fun safestrcpy :: "bytes \<Rightarrow> nat \<Rightarrow> bytes \<Rightarrow> nat \<Rightarrow> nat \<Rightarrow> bytes" where
  "safestrcpy m s mt t 0 = m"
| "safestrcpy m s mt t (Suc 0) = m(s := 0)"
| "safestrcpy m s mt t (Suc (Suc n)) =
     (if mt t \<noteq> 0 then safestrcpy (m(s := mt t)) (Suc s) mt (Suc t) (Suc n)
      else m(s := 0, Suc s := 0))"

partial_function (option) strlen_from :: "bytes \<Rightarrow> nat \<Rightarrow> nat \<Rightarrow> nat option" where
  "strlen_from m s n = (if m (s + n) = 0 then Some n else strlen_from m s (Suc n))"

definition strlen :: "bytes \<Rightarrow> nat \<Rightarrow> nat option" where
  "strlen m s = strlen_from m s 0"

text \<open>A string literal, or any list of bytes, as a NUL-terminated object.\<close>

definition cstr :: "byte list \<Rightarrow> bytes" where
  "cstr xs = (\<lambda>i. if i < length xs then xs ! i else 0)"

section \<open>Lemmas\<close>

declare memset_loop.simps [simp del]

lemma memset_loop_eq:
  "memset_loop m dst c i n = (\<lambda>j. if dst + i \<le> j \<and> j < dst + n then c else m j)"
proof (induction m dst c i n rule: memset_loop.induct)
  case (1 m dst c i n)
  show ?case
  proof (cases "i < n")
    case True
    show ?thesis
      by (rule ext, subst memset_loop.simps) (use True in \<open>auto simp: 1[OF True]\<close>)
  next
    case False
    then show ?thesis by (subst memset_loop.simps) (auto simp: fun_eq_iff)
  qed
qed

lemma memset_eq: "memset m dst c n = (\<lambda>j. if dst \<le> j \<and> j < dst + n then c else m j)"
  by (simp add: memset_def memset_loop_eq)

lemma copy_up_eq:
  "d \<le> s \<or> s + n \<le> d \<Longrightarrow>
   copy_up m d s n = (\<lambda>j. if d \<le> j \<and> j < d + n then m (s + (j - d)) else m j)"
proof (induction n arbitrary: m d s)
  case 0
  then show ?case by (auto simp: fun_eq_iff)
next
  case (Suc n)
  from Suc.prems have "Suc d \<le> Suc s \<or> Suc s + n \<le> Suc d" by auto
  note IH = Suc.IH[OF this]
  show ?case
  proof
    fix j
    consider "j < d" | "j = d" | i where "j = Suc d + i"
      by (metis less_iff_Suc_add linorder_neqE_nat add_Suc)
    then show "copy_up m d s (Suc n) j =
        (if d \<le> j \<and> j < d + Suc n then m (s + (j - d)) else m j)"
      using Suc.prems by cases (auto simp: IH Suc_diff_le)
  qed
qed

lemma copy_down_eq:
  "s < d \<Longrightarrow>
   copy_down m d s n = (\<lambda>j. if d \<le> j \<and> j < d + n then m (s + (j - d)) else m j)"
proof (induction n arbitrary: m)
  case 0
  then show ?case by (auto simp: fun_eq_iff)
next
  case (Suc n)
  note IH = Suc.IH[OF Suc.prems]
  show ?case
  proof
    fix j
    show "copy_down m d s (Suc n) j =
        (if d \<le> j \<and> j < d + Suc n then m (s + (j - d)) else m j)"
      using Suc.prems by (cases "j = d + n") (auto simp: IH)
  qed
qed

lemma memmove_eq:
  "memmove m dst src n = (\<lambda>j. if dst \<le> j \<and> j < dst + n then m (src + (j - dst)) else m j)"
proof (cases "src < dst \<and> src + n > dst")
  case True
  then show ?thesis by (auto simp: memmove_def copy_down_eq fun_eq_iff)
next
  case False
  then show ?thesis by (auto simp: memmove_def copy_up_eq fun_eq_iff)
qed

lemma pad0_eq: "pad0 m s n = (\<lambda>j. if s \<le> j \<and> j < s + n then 0 else m j)"
  by (induction n arbitrary: m s) (auto simp: fun_eq_iff)

lemma strncpy_outside: "j < s \<or> s + n \<le> j \<Longrightarrow> strncpy m s mt t n j = m j"
  by (induction n arbitrary: m s t) (auto simp: pad0_eq)

text \<open>\<open>strncpy\<close> copies the string and fills the rest of the \<open>n\<close> bytes with zeros.\<close>

lemma strncpy_eq:
  "j < n \<Longrightarrow> strncpy m s mt t n (s + j) =
     (if \<forall>k<j. mt (t + k) \<noteq> 0 then mt (t + j) else 0)"
proof (induction n arbitrary: m s t j)
  case 0
  then show ?case by simp
next
  case (Suc n)
  show ?case
  proof (cases j)
    case 0
    then show ?thesis by (auto simp: strncpy_outside pad0_eq)
  next
    case (Suc i)
    then have i: "i < n" using Suc.prems by simp
    have *: "(\<forall>k<Suc i. mt (t + k) \<noteq> 0) \<longleftrightarrow> mt t \<noteq> 0 \<and> (\<forall>k<i. mt (Suc t + k) \<noteq> 0)"
      by (auto simp: less_Suc_eq_0_disj)
    note IH = Suc.IH[OF i, of _ "Suc s" "Suc t"]
    show ?thesis
      using i by (auto simp: Suc * pad0_eq IH[simplified])
  qed
qed

text \<open>
  \<open>strncmp\<close> returns 0 exactly when the two strings agree on their first \<open>n\<close> bytes or up to
  and including a common NUL.
\<close>

lemma strncmp_zero_iff:
  "strncmp mp p mq q n = 0 \<longleftrightarrow>
     (\<forall>k<n. (\<forall>l<k. mp (p + l) \<noteq> 0) \<longrightarrow> mp (p + k) = mq (q + k))"
proof (induction n arbitrary: p q)
  case 0
  then show ?case by simp
next
  case (Suc n)
  let ?P = "\<lambda>p q n. \<forall>k<n. (\<forall>l<k. mp (p + l) \<noteq> 0) \<longrightarrow> mp (p + k) = mq (q + k)"
  have unf: "?P p q (Suc n) \<longleftrightarrow> mp p = mq q \<and> (mp p \<noteq> 0 \<longrightarrow> ?P (Suc p) (Suc q) n)"
    by (simp add: All_less_Suc2) (use not_gr0 in blast)
  have "uint (mp p) - uint (mq q) = 0 \<longleftrightarrow> mp p = mq q" by (simp add: word_uint_eq_iff)
  with Suc.IH[of "Suc p" "Suc q"] show ?case unfolding unf by auto
qed

lemma strncmp_refl: "strncmp mp p mp p n = 0"
  by (simp add: strncmp_zero_iff)

lemma memcmp_zero_iff: "memcmp m1 s1 m2 s2 n = 0 \<longleftrightarrow> (\<forall>k<n. m1 (s1 + k) = m2 (s2 + k))"
proof (induction n arbitrary: s1 s2)
  case 0
  then show ?case by simp
next
  case (Suc n)
  have "uint (m1 s1) - uint (m2 s2) = 0 \<longleftrightarrow> m1 s1 = m2 s2" by (simp add: word_uint_eq_iff)
  then show ?case by (auto simp: All_less_Suc2 Suc.IH)
qed

text \<open>\<open>safestrcpy\<close> leaves a NUL inside the \<open>n\<close> bytes it may write, and writes no others.\<close>

lemma safestrcpy_outside: "j < s \<or> s + n \<le> j \<Longrightarrow> safestrcpy m s mt t n j = m j"
  by (induction m s mt t n rule: safestrcpy.induct) auto

lemma safestrcpy_terminated: "0 < n \<Longrightarrow> \<exists>k<n. safestrcpy m s mt t n (s + k) = 0"
proof (induction m s mt t n rule: safestrcpy.induct)
  case (3 m s mt t n)
  show ?case
  proof (cases "mt t \<noteq> 0")
    case True
    from 3(1)[OF this] obtain k where
      "k < Suc n" "safestrcpy (m(s := mt t)) (Suc s) mt (Suc t) (Suc n) (Suc s + k) = 0"
      by blast
    with True show ?thesis by (intro exI[of _ "Suc k"]) simp
  next
    case False
    then show ?thesis by (intro exI[of _ 0]) simp
  qed
qed auto

text \<open>\<open>strlen\<close> returns when there is a NUL, and then the index of the first one.\<close>

lemma strlen_from_terminates:
  "m (s + (n + d)) = 0 \<Longrightarrow> (\<And>k. k < d \<Longrightarrow> m (s + (n + k)) \<noteq> 0) \<Longrightarrow>
   strlen_from m s n = Some (n + d)"
proof (induction d arbitrary: n)
  case 0
  then show ?case by (simp add: strlen_from.simps)
next
  case (Suc d)
  have "m (s + n) \<noteq> 0" using Suc.prems(2)[of 0] by simp
  moreover have "strlen_from m s (Suc n) = Some (Suc n + d)"
    using Suc.prems(1) Suc.prems(2)[of "Suc _"] by (intro Suc.IH) auto
  ultimately show ?case by (subst strlen_from.simps) simp
qed

lemma strlen_terminates:
  "m (s + d) = 0 \<Longrightarrow> (\<And>k. k < d \<Longrightarrow> m (s + k) \<noteq> 0) \<Longrightarrow> strlen m s = Some d"
  using strlen_from_terminates[of m s 0 d] by (simp add: strlen_def)

end
