(* ===== verification/Kalloc.thy ===== *)
theory Kalloc
  imports Cstring
begin

text \<open>
  The machine state that every part of the kernel shares, and the physical page allocator
  \<open>kernel/kalloc.c\<close>.

  \<^item> \<open>mem\<close> is physical memory, byte by byte.  \<open>kernel_end\<close> is the linker symbol \<open>end\<close>: the
    first address after the kernel.
  \<^item> \<open>freelist\<close> is \<open>kmem.freelist\<close>; the \<open>next\<close> pointer of a free page is stored in the first
    eight bytes of the page itself, as in the code.
  \<^item> \<open>procs\<close> is the process table (\<open>struct proc\<close> of \<open>proc.h\<close>), \<open>curproc\<close> the slot of the
    running process (\<open>myproc()\<close>).  Null pointers to open files, inodes and processes are
    \<open>None\<close>; the other pointers are indices into the table they point into.

  Sections protected by a spin lock run without interleaving here.

  The theorems: while the free list is a well-formed list of pages, \<open>kalloc\<close> takes its first
  page and \<open>kfree\<close> puts a page in front; no page is handed out twice; \<open>freerange\<close> builds a
  well-formed list; \<open>freemem_size\<close> is the number of free bytes.
\<close>

section \<open>State\<close>

definition NPROC :: nat where "NPROC = 64"
definition NOFILE :: nat where "NOFILE = 16"
definition PGSIZE :: nat where "PGSIZE = 4096"
definition PHYSTOP :: u64 where "PHYSTOP = 0x88000000"

definition PGROUNDUP :: "u64 \<Rightarrow> u64" where
  "PGROUNDUP sz = (sz + of_nat PGSIZE - 1) AND NOT (of_nat PGSIZE - 1)"

definition PGROUNDDOWN :: "u64 \<Rightarrow> u64" where
  "PGROUNDDOWN a = a AND NOT (of_nat PGSIZE - 1)"

datatype procstate = UNUSED | USED | SLEEPING | RUNNABLE | RUNNING | ZOMBIE

record trapframe =
  tf_kernel_satp :: u64
  tf_kernel_sp :: u64
  tf_kernel_trap :: u64
  tf_epc :: u64
  tf_kernel_hartid :: u64
  tf_ra :: u64
  tf_sp :: u64
  tf_gp :: u64
  tf_tp :: u64
  tf_t :: "nat \<Rightarrow> u64"   \<comment> \<open>t0 to t6\<close>
  tf_s :: "nat \<Rightarrow> u64"   \<comment> \<open>s0 to s11\<close>
  tf_a :: "nat \<Rightarrow> u64"   \<comment> \<open>a0 to a7\<close>

text \<open>
  Sleep channels.  The code uses addresses of kernel objects; the processes themselves (on
  which \<open>wait\<close> sleeps), the tick counter and all other objects.
\<close>

datatype chan = No_chan | Proc_chan nat | Ticks_chan | Other_chan u64

record proc =
  p_state :: procstate
  p_chan :: chan
  p_killed :: bool
  p_xstate :: int
  p_pid :: int
  p_parent :: "nat option"
  p_kstack :: u64
  p_sz :: u64
  p_pagetable :: u64
  p_trapframe_page :: u64
  p_trapframe :: trapframe
  p_ofile :: "nat \<Rightarrow> nat option"
  p_cwd :: "nat option"
  p_name :: bytes

record kmach =
  mem :: bytes
  kernel_end :: u64
  freelist :: u64
  procs :: "nat \<Rightarrow> proc"
  curproc :: nat

definition myproc :: "'a kmach_scheme \<Rightarrow> proc" where
  "myproc s = procs s (curproc s)"

definition update_myproc :: "(proc \<Rightarrow> proc) \<Rightarrow> 'a kmach_scheme \<Rightarrow> 'a kmach_scheme" where
  "update_myproc f s = s\<lparr>procs := (procs s)(curproc s := f (procs s (curproc s)))\<rparr>"

section \<open>The allocator\<close>

definition kfree :: "u64 \<Rightarrow> 'a kmach_scheme \<Rightarrow> 'a kmach_scheme res" where
  "kfree pa s =
     (if pa mod of_nat PGSIZE \<noteq> 0 \<or> pa < kernel_end s \<or> pa \<ge> PHYSTOP then Panic ''kfree''
      else let m = memset (mem s) (unat pa) 1 PGSIZE
           in Ok (s\<lparr>mem := put64 m (unat pa) (freelist s), freelist := pa\<rparr>))"

definition kalloc :: "'a kmach_scheme \<Rightarrow> u64 \<times> 'a kmach_scheme" where
  "kalloc s =
     (let r = freelist s;
          s = (if r \<noteq> 0 then s\<lparr>freelist := get64 (mem s) (unat r)\<rparr> else s);
          s = (if r \<noteq> 0 then s\<lparr>mem := memset (mem s) (unat r) 5 PGSIZE\<rparr> else s)
      in (r, s))"

text \<open>The loop \<open>for(; p + PGSIZE <= pa_end; p += PGSIZE)\<close>; addresses are below \<open>2^63\<close>.\<close>

function freerange_loop :: "nat \<Rightarrow> nat \<Rightarrow> 'a kmach_scheme \<Rightarrow> 'a kmach_scheme res" where
  "freerange_loop p pa_end s =
     (if p + PGSIZE \<le> pa_end then
        rbind (kfree (of_nat p) s) (freerange_loop (p + PGSIZE) pa_end)
      else Ok s)"
  by pat_completeness auto
termination
  by (relation "measure (\<lambda>(p, e, s). e - p)") (auto simp: PGSIZE_def)

definition freerange :: "u64 \<Rightarrow> u64 \<Rightarrow> 'a kmach_scheme \<Rightarrow> 'a kmach_scheme res" where
  "freerange pa_start pa_end s =
     freerange_loop (unat (PGROUNDUP pa_start)) (unat pa_end) s"

definition kinit :: "'a kmach_scheme \<Rightarrow> 'a kmach_scheme res" where
  "kinit s = freerange (kernel_end s) PHYSTOP s"

text \<open>\<open>freemem_size\<close> walks the list; a cyclic list would keep it busy for ever.\<close>

partial_function (option) freelist_count :: "bytes \<Rightarrow> u64 \<Rightarrow> nat \<Rightarrow> nat option" where
  "freelist_count m r num =
     (if r = 0 then Some num else freelist_count m (get64 m (unat r)) (Suc num))"

definition freemem_size :: "'a kmach_scheme \<Rightarrow> u32 option" where
  "freemem_size s = map_option (\<lambda>num. of_nat num * of_nat PGSIZE) (freelist_count (mem s) (freelist s) 0)"

section \<open>The free list as a list of pages\<close>

text \<open>
  \<open>pages_from m r ps\<close>: following \<open>next\<close> pointers from \<open>r\<close> gives the pages \<open>ps\<close>, ending in a
  null pointer.
\<close>

fun pages_from :: "bytes \<Rightarrow> u64 \<Rightarrow> u64 list \<Rightarrow> bool" where
  "pages_from m r [] \<longleftrightarrow> r = 0"
| "pages_from m r (p # ps) \<longleftrightarrow> r = p \<and> p \<noteq> 0 \<and> pages_from m (get64 m (unat p)) ps"

definition page_aligned :: "u64 \<Rightarrow> bool" where
  "page_aligned p \<longleftrightarrow> p mod of_nat PGSIZE = 0"

definition page_ok :: "u64 \<Rightarrow> u64 \<Rightarrow> bool" where
  "page_ok e p \<longleftrightarrow> page_aligned p \<and> e \<le> p \<and> p < PHYSTOP \<and> p \<noteq> 0"

text \<open>The invariant of the allocator, with the free pages in list order.\<close>

definition kmem_inv :: "'a kmach_scheme \<Rightarrow> u64 list \<Rightarrow> bool" where
  "kmem_inv s ps \<longleftrightarrow> pages_from (mem s) (freelist s) ps \<and> distinct ps \<and>
     (\<forall>p\<in>set ps. page_ok (kernel_end s) p)"

section \<open>Lemmas\<close>

declare freerange_loop.simps [simp del]

lemma page_aligned_dvd: "page_aligned p \<Longrightarrow> 4096 dvd unat p"
proof -
  assume "page_aligned p"
  then have "unat (p mod 4096) = 0" by (simp add: PGSIZE_def page_aligned_def)
  then show ?thesis by (simp only: unat_mod dvd_eq_mod_eq_0) simp
qed

text \<open>Distinct pages do not overlap.\<close>

lemma pages_disjoint:
  assumes "page_aligned p" "page_aligned q" "p \<noteq> q"
  shows "unat p + 4096 \<le> unat q \<or> unat q + 4096 \<le> unat p"
proof -
  obtain a b where ab: "unat p = 4096 * a" "unat q = 4096 * b"
    using page_aligned_dvd[OF assms(1)] page_aligned_dvd[OF assms(2)] by (auto elim!: dvdE)
  with assms(3) have "a \<noteq> b" by (auto simp: word_unat_eq_iff)
  then show ?thesis using ab by (cases "a < b") auto
qed

lemma pages_from_cong:
  "pages_from m r ps \<Longrightarrow> (\<And>p. p \<in> set ps \<Longrightarrow> get64 m (unat p) = get64 m' (unat p)) \<Longrightarrow>
   pages_from m' r ps"
  by (induction ps arbitrary: r) auto

lemma get64_memset_other:
  "a + 8 \<le> d \<or> d + n \<le> a \<Longrightarrow> get64 (memset m d c n) a = get64 m a"
  by (rule get_cong) (auto simp: memset_eq)

lemma get64_other_page:
  assumes "page_aligned p" "page_aligned q" "p \<noteq> q"
  shows "get64 (memset m (unat p) c PGSIZE) (unat q) = get64 m (unat q)"
  using pages_disjoint[OF assms] by (intro get64_memset_other) (auto simp: PGSIZE_def)

lemma kalloc_empty: "kmem_inv s [] \<Longrightarrow> kalloc s = (0, s)"
  by (auto simp: kmem_inv_def kalloc_def Let_def)

lemma kalloc_inv:
  assumes inv: "kmem_inv s (p # ps)" and k: "kalloc s = (r, s')"
  shows "r = p \<and> kmem_inv s' ps \<and> p \<notin> set ps"
proof -
  from inv have p: "freelist s = p" "p \<noteq> 0" "page_ok (kernel_end s) p" "p \<notin> set ps" "distinct ps"
      "\<forall>q\<in>set ps. page_ok (kernel_end s) q" "pages_from (mem s) (get64 (mem s) (unat p)) ps"
    by (auto simp: kmem_inv_def)
  from k p have s': "r = p"
      "s' = s\<lparr>freelist := get64 (mem s) (unat p), mem := memset (mem s) (unat p) 5 PGSIZE\<rparr>"
    by (auto simp: kalloc_def Let_def)
  have "get64 (memset (mem s) (unat p) 5 PGSIZE) (unat q) = get64 (mem s) (unat q)"
    if "q \<in> set ps" for q
    using p that by (intro get64_other_page) (auto simp: page_ok_def)
  then have "pages_from (memset (mem s) (unat p) 5 PGSIZE) (get64 (mem s) (unat p)) ps"
    by (intro pages_from_cong[OF p(7)]) simp
  with s' p show ?thesis by (auto simp: kmem_inv_def)
qed

lemma kfree_inv:
  assumes inv: "kmem_inv s ps" and pg: "page_ok (kernel_end s) p" "p \<notin> set ps"
    and k: "kfree p s = Ok s'"
  shows "kmem_inv s' (p # ps)"
proof -
  let ?m = "memset (mem s) (unat p) 1 PGSIZE"
  from pg k have s': "s' = s\<lparr>mem := put64 ?m (unat p) (freelist s), freelist := p\<rparr>"
    by (auto simp: kfree_def Let_def split: if_splits)
  have other: "get64 (put64 ?m (unat p) (freelist s)) (unat q) = get64 (mem s) (unat q)"
    if "q \<in> set ps" for q
  proof -
    have q: "page_aligned q" "page_aligned p" "p \<noteq> q"
      using that inv pg by (auto simp: kmem_inv_def page_ok_def)
    then have "get64 (put64 ?m (unat p) (freelist s)) (unat q) = get64 ?m (unat q)"
      using pages_disjoint[OF q(2,1,3)] by (intro get_put64_other) auto
    with get64_other_page[OF q(2,1,3)] show ?thesis by simp
  qed
  have "pages_from (mem s) (freelist s) ps" using inv by (simp add: kmem_inv_def)
  from pages_from_cong[OF this other[symmetric]]
  have "pages_from (put64 ?m (unat p) (freelist s)) (freelist s) ps" by simp
  with s' inv pg show ?thesis by (auto simp: kmem_inv_def page_ok_def)
qed

lemma kfree_total: "page_ok (kernel_end s) p \<Longrightarrow> \<exists>s'. kfree p s = Ok s'"
  by (auto simp: kfree_def page_ok_def page_aligned_def not_le not_less Let_def)

lemma kfree_kernel_end [frame]: "kfree p s = Ok s' \<Longrightarrow> kernel_end s' = kernel_end s"
  by (auto simp: kfree_def Let_def split: if_splits)

lemma freelist_count_pages: "pages_from m r ps \<Longrightarrow> freelist_count m r n = Some (n + length ps)"
proof (induction ps arbitrary: r n)
  case Nil
  then show ?case by (simp add: freelist_count.simps)
next
  case (Cons p ps)
  then show ?case by (subst freelist_count.simps) auto
qed

lemma freemem_size_pages:
  "kmem_inv s ps \<Longrightarrow> freemem_size s = Some (of_nat (length ps * PGSIZE))"
  by (auto simp: freemem_size_def kmem_inv_def freelist_count_pages)

text \<open>
  Freeing the pages of an address range one after the other gives a well-formed list that
  holds exactly the pages of the range.
\<close>

lemma freerange_loop_inv:
  "freerange_loop p e s = Ok s' \<Longrightarrow> kmem_inv s ps \<Longrightarrow> e \<le> 2 ^ 63 \<Longrightarrow> 0 < p \<Longrightarrow> 4096 dvd p \<Longrightarrow>
   \<forall>q\<in>set ps. unat q < p \<Longrightarrow>
   \<exists>qs. kmem_inv s' (qs @ ps) \<and>
     set qs = of_nat ` {a. 4096 dvd a \<and> p \<le> a \<and> a + PGSIZE \<le> e}"
proof (induction p e s arbitrary: ps rule: freerange_loop.induct)
  case (1 p e s)
  show ?case
  proof (cases "p + PGSIZE \<le> e")
    case False
    then have e: "{a. 4096 dvd a \<and> p \<le> a \<and> a + PGSIZE \<le> e} = {}" by auto
    from False "1.prems"(1) have "s' = s" by (subst (asm) freerange_loop.simps) auto
    with "1.prems"(2) show ?thesis unfolding e by (intro exI[of _ "[]"]) simp
  next
    case True
    with "1.prems"(1) obtain t where
      t: "kfree (of_nat p) s = Ok t" "freerange_loop (p + PGSIZE) e t = Ok s'"
      by (subst (asm) freerange_loop.simps) auto
    have up: "unat (of_nat p :: u64) = p"
      using True "1.prems"(3) by (simp add: unat_of_nat PGSIZE_def)
    have ok: "page_ok (kernel_end s) (of_nat p)"
      using t(1) up "1.prems"(4)
      by (auto simp: kfree_def page_ok_def page_aligned_def not_le not_less word_unat_eq_iff
          split: if_splits)
    have "of_nat p \<notin> set ps" using "1.prems"(6) up by force
    from kfree_inv[OF "1.prems"(2) ok this t(1)] have inv: "kmem_inv t (of_nat p # ps)" .
    have p: "0 < p + PGSIZE" "4096 dvd p + PGSIZE"
      using "1.prems"(4,5) by (auto simp: PGSIZE_def)
    have lt: "\<forall>q\<in>set (of_nat p # ps). unat q < p + PGSIZE"
      using "1.prems"(6) up by (auto simp: PGSIZE_def)
    from "1.IH"[OF True t(1,2) inv "1.prems"(3) p lt]
    obtain qs where qs: "kmem_inv s' (qs @ of_nat p # ps)"
        "set qs = of_nat ` {a. 4096 dvd a \<and> p + PGSIZE \<le> a \<and> a + PGSIZE \<le> e}"
      by blast
    have "{a. 4096 dvd a \<and> p \<le> a \<and> a + PGSIZE \<le> e} =
        insert p {a. 4096 dvd a \<and> p + PGSIZE \<le> a \<and> a + PGSIZE \<le> e}" (is "?A = ?B")
    proof
      show "?A \<subseteq> ?B"
      proof
        fix a assume a: "a \<in> ?A"
        show "a \<in> ?B"
        proof (cases "a = p")
          case False
          from a "1.prems"(5) obtain k l where "a = 4096 * k" "p = 4096 * l" by (auto elim!: dvdE)
          with False a show ?thesis by (auto simp: PGSIZE_def)
        qed simp
      qed
      show "?B \<subseteq> ?A" using True "1.prems"(5) by auto
    qed
    then show ?thesis using qs by (intro exI[of _ "qs @ [of_nat p]"]) auto
  qed
qed

end
