(* ===== verification/Usermem.thy ===== *)
theory Usermem
  imports Vm
begin

text \<open>
  Theorems on the copies between kernel and user memory (\<open>copyin\<close>, \<open>copyout\<close>, \<open>copyinstr\<close> of
  \<open>kernel/vm.c\<close>).  \<open>ubyte pt s va\<close> is the byte that a user program with page table \<open>pt\<close> sees at
  \<open>va\<close>, if the address is mapped for it.  The copies are loops over pages; the theorems say what
  they do byte by byte, for every alignment and across page boundaries.
\<close>

declare copyin.simps [simp del] copyout.simps [simp del] copyinstr.simps [simp del]

lemma walk_level_mem:
  "mem s = mem t \<Longrightarrow> fst (walk_level l pt va False s) = fst (walk_level l pt va False t)"
proof (induction l arbitrary: pt)
  case (Suc l)
  then show ?case by (simp add: read_pte_def Let_def)
qed simp

lemma walkaddr_mem: "mem s = mem t \<Longrightarrow> walkaddr pt va s = walkaddr pt va t"
  by (simp add: walkaddr_def walk_level_mem[of s t] read_pte_def split: option.split)

lemma copyin_mem: "mem s = mem t \<Longrightarrow> copyin pt va n s = copyin pt va n t"
proof (induction pt va n s rule: copyin.induct)
  case (1 pt va n s)
  show ?case
    unfolding copyin.simps[of pt va n]
    using 1 walkaddr_mem[OF "1.prems"] by (auto simp: Let_def read_bytes_def split: prod.split)
qed

section \<open>Pages\<close>

lemma PGROUNDDOWN_eq: "PGROUNDDOWN a = a - take_bit 12 a"
proof -
  have m: "of_nat PGSIZE - 1 = (mask 12 :: u64)" by (simp add: PGSIZE_def mask_eq_exp_minus_1)
  have "a AND NOT (mask 12) = push_bit 12 (drop_bit 12 a)"
    by (rule bit_eqI) (auto simp: bit_simps)
  then show ?thesis using bits_ident[of 12 a] by (simp add: PGROUNDDOWN_def m algebra_simps)
qed

lemma page_offset: "a - PGROUNDDOWN a = take_bit 12 a" "unat (a - PGROUNDDOWN a) = unat a mod PGSIZE"
  by (simp_all add: PGROUNDDOWN_eq unsigned_take_bit_eq take_bit_nat_def PGSIZE_def)

lemma unat_PGROUNDDOWN: "unat (PGROUNDDOWN a) = unat a div PGSIZE * PGSIZE"
proof -
  have "unat (take_bit 12 a) = unat a mod PGSIZE" by (simp add: unsigned_take_bit_eq take_bit_nat_def PGSIZE_def)
  moreover have "take_bit 12 a \<le> a" by (simp add: word_le_nat_alt unsigned_take_bit_eq)
  ultimately have "unat (PGROUNDDOWN a) = unat a - unat a mod PGSIZE" by (simp add: PGROUNDDOWN_eq unat_sub)
  then show ?thesis by (simp add: minus_mod_eq_div_mult)
qed

lemma unat_page_plus:
  assumes "k < PGSIZE - unat a mod PGSIZE"
  shows "unat (a + of_nat k :: u64) = unat a + k"
proof -
  have "unat a + k < unat a div PGSIZE * PGSIZE + PGSIZE"
    using assms div_mult_mod_eq[of "unat a" PGSIZE] by linarith
  moreover have "unat a div PGSIZE < 4503599627370496"
    using unat_bounds(4)[of a] by (simp add: PGSIZE_def div_less_iff_less_mult)
  then have "unat a div PGSIZE * PGSIZE + PGSIZE \<le> 18446744073709551616" by (simp add: PGSIZE_def)
  ultimately have "unat a + k < 18446744073709551616" by simp
  then show ?thesis by (simp add: unat_word_ariths unat_of_nat)
qed

lemma same_page:
  assumes "k < PGSIZE - unat a mod PGSIZE"
  shows "PGROUNDDOWN (a + of_nat k) = PGROUNDDOWN a"
proof -
  have "(unat a + k) div PGSIZE = unat a div PGSIZE"
  proof (rule div_nat_eqI)
    show "PGSIZE * (unat a div PGSIZE) \<le> unat a + k" using mult_div_mod_eq[of PGSIZE "unat a"] by linarith
    have "PGSIZE * Suc (unat a div PGSIZE) = unat a div PGSIZE * PGSIZE + PGSIZE" by simp
    then show "unat a + k < PGSIZE * Suc (unat a div PGSIZE)"
      using assms div_mult_mod_eq[of "unat a" PGSIZE] by linarith
  qed
  then show ?thesis by (simp add: word_unat_eq_iff unat_PGROUNDDOWN unat_page_plus[OF assms])
qed

lemma next_page: "PGROUNDDOWN a + of_nat PGSIZE = a + of_nat (PGSIZE - unat (a - PGROUNDDOWN a))"
proof -
  have "unat (a - PGROUNDDOWN a) \<le> PGSIZE" unfolding page_offset(2) by (simp add: PGSIZE_def)
  then have "(of_nat (PGSIZE - unat (a - PGROUNDDOWN a)) :: u64) = of_nat PGSIZE - (a - PGROUNDDOWN a)"
    by (simp add: of_nat_diff)
  then show ?thesis by simp
qed

section \<open>The user's memory, byte by byte\<close>

definition uphys :: "u64 \<Rightarrow> 'a kmach_scheme \<Rightarrow> u64 \<Rightarrow> nat" where
  "uphys pt s va = unat (walkaddr pt (PGROUNDDOWN va) s) + unat va mod PGSIZE"

definition ubyte :: "u64 \<Rightarrow> 'a kmach_scheme \<Rightarrow> u64 \<Rightarrow> byte option" where
  "ubyte pt s va = (if walkaddr pt (PGROUNDDOWN va) s = 0 then None else Some (mem s (uphys pt s va)))"

lemma walkaddr_aligned: "PGSIZE dvd unat (walkaddr pt va s)"
proof -
  have "unat (PTE2PA pte) = unat (drop_bit 10 pte) * 4096 mod 18446744073709551616" for pte
    by (simp add: PTE2PA_def unsigned_push_bit_eq push_bit_nat_def take_bit_nat_def)
  then have "PGSIZE dvd unat (PTE2PA pte)" for pte by (simp add: PGSIZE_def dvd_mod)
  then show ?thesis by (simp add: walkaddr_def Let_def split: option.split)
qed

lemma frame_plus:
  assumes "k < PGSIZE - unat va mod PGSIZE"
  shows "unat (walkaddr pt (PGROUNDDOWN va) s + (va - PGROUNDDOWN va)) + k = uphys pt s (va + of_nat k)"
proof -
  let ?w = "walkaddr pt (PGROUNDDOWN va) s"
  have a: "unat ?w mod PGSIZE = 0" using walkaddr_aligned by (simp add: dvd_eq_mod_eq_0[symmetric])
  have "unat (?w + of_nat (unat va mod PGSIZE)) = unat ?w + unat va mod PGSIZE"
    by (rule unat_page_plus) (unfold a, simp add: PGSIZE_def)
  moreover have "va - PGROUNDDOWN va = of_nat (unat va mod PGSIZE)" using page_offset(2)[of va] by (simp add: word_unat_eq_iff unat_of_nat PGSIZE_def)
  moreover have "(unat va + k) mod PGSIZE = unat va mod PGSIZE + k"
    using assms mod_add_left_eq[of "unat va" PGSIZE k] mod_less[of "unat va mod PGSIZE + k" PGSIZE] by linarith
  ultimately show ?thesis by (simp add: uphys_def same_page[OF assms] unat_page_plus[OF assms])
qed

lemma read_page:
  assumes "walkaddr pt (PGROUNDDOWN va) s \<noteq> 0" "n \<le> PGSIZE - unat va mod PGSIZE" "k < n"
  shows "ubyte pt s (va + of_nat k) =
    Some (read_bytes (unat (walkaddr pt (PGROUNDDOWN va) s + (va - PGROUNDDOWN va))) n s ! k)"
proof -
  have k: "k < PGSIZE - unat va mod PGSIZE" using assms by simp
  show ?thesis using assms(1,3) frame_plus[OF k, of pt s] by (simp add: ubyte_def same_page[OF k] read_bytes_def)
qed

text \<open>What \<open>copyin\<close> returns: it succeeds if and only if every byte is mapped, with these bytes.\<close>

lemma copyin_cases: "fst (copyin pt va n s) \<in> {0, -1}"
proof (induction pt va n s rule: copyin.induct)
  case (1 pt va n s)
  show ?case
    unfolding copyin.simps[of pt va n] using "1"[OF _ refl refl _ refl] by (auto simp: Let_def split: prod.split)
qed

lemma split_reads:
  assumes ys: "length ys = n" and b: "\<And>k. k < n \<Longrightarrow> u k = Some (ys ! k)" and n: "n \<le> len"
  shows "(\<exists>zs. (length zs = len - n \<and> (\<forall>k<len - n. u (n + k) = Some (zs ! k))) \<and> xs = ys @ zs) \<longleftrightarrow>
    length xs = len \<and> (\<forall>k<len. u k = Some (xs ! k))" (is "?l \<longleftrightarrow> ?r")
proof
  assume ?l
  then obtain zs where z: "length zs = len - n" "\<forall>k<len - n. u (n + k) = Some (zs ! k)" "xs = ys @ zs" by blast
  have "u k = Some (xs ! k)" if "k < len" for k
  proof (cases "k < n")
    case False
    then have "k - n < len - n" "n + (k - n) = k" using that by auto
    then have "u k = Some (zs ! (k - n))" using z(2) by metis
    then show ?thesis using False ys by (simp add: z(3) nth_append)
  qed (use b ys in \<open>simp add: z(3) nth_append\<close>)
  then show ?r using z ys n by simp
next
  assume r: ?r
  have "take n xs = ys" using r b ys n by (intro nth_equalityI) auto
  then have "xs = ys @ drop n xs" by (metis append_take_drop_id)
  moreover have "\<forall>k<len - n. u (n + k) = Some (drop n xs ! k)" using r by auto
  ultimately show ?l using r by (intro exI[of _ "drop n xs"]) simp
qed

lemma copyin_iff:
  "copyin pt va n s = (0, xs) \<longleftrightarrow> length xs = n \<and> (\<forall>k<n. ubyte pt s (va + of_nat k) = Some (xs ! k))"
proof (induction pt va n s arbitrary: xs rule: copyin.induct)
  case (1 pt va len s)
  let ?va0 = "PGROUNDDOWN va" and ?pa = "walkaddr pt (PGROUNDDOWN va) s"
  let ?n = "min (PGSIZE - unat (va - ?va0)) len"
  show ?case
  proof (cases "len > 0 \<and> ?pa \<noteq> 0")
    case False
    have "ubyte pt s va = None" if "?pa = 0" using that by (simp add: ubyte_def)
    then show ?thesis using False by (subst copyin.simps) (auto simp: Let_def)
  next
    case True
    then have n: "?n > 0" "?n \<noteq> 0" using page_offset(2)[of va] by (auto simp: PGSIZE_def)
    let ?ys = "read_bytes (unat (?pa + (va - ?va0))) ?n s"
    have ys: "length ?ys = ?n" by (simp add: read_bytes_def)
    have b: "ubyte pt s (va + of_nat k) = Some (?ys ! k)" if "k < ?n" for k
      using read_page[of pt va s ?n k] that True by (simp add: page_offset(2))
    have "?va0 + of_nat PGSIZE = va + of_nat ?n" if "?n < len"
      using next_page[of va] that by (simp add: min_def split: if_splits)
    then have IH: "copyin pt (?va0 + of_nat PGSIZE) (len - ?n) s = (0, zs) \<longleftrightarrow>
      length zs = len - ?n \<and> (\<forall>k<len - ?n. ubyte pt s (va + of_nat (?n + k)) = Some (zs ! k))" for zs
      using "1.IH"[OF _ refl refl _ refl n(2), of zs] True
      by (cases "?n < len") (auto simp: ac_simps)
    have "copyin pt va len s = (0, xs) \<longleftrightarrow> (\<exists>zs. copyin pt (?va0 + of_nat PGSIZE) (len - ?n) s = (0, zs) \<and> xs = ?ys @ zs)"
      using True n by (subst copyin.simps) (auto simp: Let_def split: prod.split)
    also have "\<dots> \<longleftrightarrow> length xs = len \<and> (\<forall>k<len. ubyte pt s (va + of_nat k) = Some (xs ! k))"
      unfolding IH by (rule split_reads[OF ys b]) simp_all
    finally show ?thesis .
  qed
qed

lemma uphys_mem: "mem s = mem t \<Longrightarrow> uphys pt s = uphys pt t"
  using walkaddr_mem[of s t] by (simp add: uphys_def fun_eq_iff)

text \<open>
  \<open>user_only\<close>: of the memory, only the \<open>n\<close> bytes at user address \<open>va\<close> changed.  \<open>user_sep\<close>: these
  bytes lie at different places of physical memory, and changing them does not change how
  they are mapped (the page table is not among them).
\<close>

abbreviation uplace :: "u64 \<Rightarrow> 'a kmach_scheme \<Rightarrow> u64 \<Rightarrow> nat \<Rightarrow> nat" where
  "uplace pt s va \<equiv> \<lambda>k. uphys pt s (va + of_nat k)"

definition user_only :: "u64 \<Rightarrow> u64 \<Rightarrow> nat \<Rightarrow> 'a kmach_scheme \<Rightarrow> 'a kmach_scheme \<Rightarrow> bool" where
  "user_only pt va n s t \<longleftrightarrow> t = s\<lparr>mem := mem t\<rparr> \<and> (\<forall>j. j \<notin> uplace pt s va ` {..<n} \<longrightarrow> mem t j = mem s j)"

definition user_sep :: "u64 \<Rightarrow> u64 \<Rightarrow> nat \<Rightarrow> 'a kmach_scheme \<Rightarrow> bool" where
  "user_sep pt va n s \<longleftrightarrow> inj_on (uplace pt s va) {..<n} \<and>
     (\<forall>t k. user_only pt va n s t \<and> k < n \<longrightarrow>
        walkaddr pt (PGROUNDDOWN (va + of_nat k)) t = walkaddr pt (PGROUNDDOWN (va + of_nat k)) s)"

lemma user_only_refl: "user_only pt va n s s"
  by (simp add: user_only_def)

lemma user_sep_walk:
  assumes "user_sep pt va n s" "user_only pt va n s t" "k < n"
  shows "walkaddr pt (PGROUNDDOWN (va + of_nat k)) t = walkaddr pt (PGROUNDDOWN (va + of_nat k)) s"
    and "uplace pt t va k = uplace pt s va k"
  using assms by (auto simp: user_sep_def uphys_def)

lemma user_sep_inj:
  "user_sep pt va n s \<Longrightarrow> i < n \<Longrightarrow> k < n \<Longrightarrow> uplace pt s va i = uplace pt s va k \<Longrightarrow> i = k"
  by (auto simp: user_sep_def dest: inj_onD)

lemma uplace_next:
  assumes "user_sep pt va n s" "user_only pt va n s t" "k < n - k0"
  shows "uplace pt t (va + of_nat k0) k = uplace pt s va (k0 + k)"
  using user_sep_walk(2)[OF assms(1,2), of "k0 + k"] assms(3) by (simp add: ac_simps)

lemma uplace_sub:
  assumes "user_sep pt va n s" "user_only pt va n s t"
  shows "uplace pt t (va + of_nat k0) ` {..<n - k0} \<subseteq> uplace pt s va ` {..<n}"
  using uplace_next[OF assms] by (auto intro!: image_eqI[of _ _ "k0 + k" for k])

lemma uplace_not_later:
  assumes "user_sep pt va n s" "user_only pt va n s t" "k < k0" "k0 \<le> n"
  shows "uplace pt s va k \<notin> uplace pt t (va + of_nat k0) ` {..<n - k0}"
proof
  assume "uplace pt s va k \<in> uplace pt t (va + of_nat k0) ` {..<n - k0}"
  then obtain i where i: "i < n - k0" "uplace pt s va k = uplace pt t (va + of_nat k0) i" by auto
  then have "k0 + i < n" by simp
  then show False using uplace_next[OF assms(1,2) i(1)] i(2) user_sep_inj[OF assms(1), of k "k0 + i"] assms(3,4) by simp
qed

lemma user_only_next:
  assumes "user_sep pt va n s" "user_only pt va n s t" "user_only pt (va + of_nat k0) (n - k0) t u"
  shows "user_only pt va n s u"
  unfolding user_only_def
proof (intro conjI allI impI)
  have "u = t\<lparr>mem := mem u\<rparr>" "t = s\<lparr>mem := mem t\<rparr>" using assms(2,3) by (simp_all add: user_only_def)
  then show "u = s\<lparr>mem := mem u\<rparr>" by (metis kmach.update_convs(1) kmach.surjective)
  show "mem u j = mem s j" if j: "j \<notin> uplace pt s va ` {..<n}" for j
    using assms(2,3) j contra_subsetD[OF uplace_sub[OF assms(1,2)] j] by (simp add: user_only_def)
qed

lemma user_sep_next:
  assumes "user_sep pt va n s" "user_only pt va n s t"
  shows "user_sep pt (va + of_nat k0) (n - k0) t"
  unfolding user_sep_def
proof (intro conjI allI impI; (elim conjE)?)
  show "inj_on (uplace pt t (va + of_nat k0)) {..<n - k0}"
  proof (rule inj_onI)
    fix x y assume a: "x \<in> {..<n - k0}" "y \<in> {..<n - k0}"
      "uplace pt t (va + of_nat k0) x = uplace pt t (va + of_nat k0) y"
    then have "uplace pt s va (k0 + x) = uplace pt s va (k0 + y)"
      using uplace_next[OF assms, of x k0] uplace_next[OF assms, of y k0] by simp
    from user_sep_inj[OF assms(1) _ _ this] a(1,2) show "x = y" by simp
  qed
  fix u k assume u: "user_only pt (va + of_nat k0) (n - k0) t u" and k: "k < n - k0"
  show "walkaddr pt (PGROUNDDOWN (va + of_nat k0 + of_nat k)) u = walkaddr pt (PGROUNDDOWN (va + of_nat k0 + of_nat k)) t"
    using user_sep_walk(1)[OF assms(1) user_only_next[OF assms u], of "k0 + k"]
      user_sep_walk(1)[OF assms, of "k0 + k"] k by (simp add: ac_simps)
qed

lemma user_sep_mem:
  assumes m: "mem s = mem s'" and sep: "user_sep pt va n s"
  shows "user_sep pt va n s'"
proof -
  have u: "uphys pt s' a = uphys pt s a" for a using walkaddr_mem[OF m] by (simp add: uphys_def)
  have "walkaddr pt (PGROUNDDOWN (va + of_nat k)) t = walkaddr pt (PGROUNDDOWN (va + of_nat k)) s'"
    if t: "user_only pt va n s' t" and k: "k < n" for t k
  proof -
    have "user_only pt va n s (s\<lparr>mem := mem t\<rparr>)" using t m by (simp add: user_only_def u)
    from user_sep_walk(1)[OF sep this k] show ?thesis
      using walkaddr_mem[of "s\<lparr>mem := mem t\<rparr>" t] walkaddr_mem[OF m] by simp
  qed
  then show ?thesis using sep by (simp add: user_sep_def u)
qed

lemma user_only_mono:
  assumes "user_only pt va m s t" "m \<le> n"
  shows "user_only pt va n s t"
proof -
  have "uplace pt s va ` {..<m} \<subseteq> uplace pt s va ` {..<n}" using assms(2) by (intro image_mono) auto
  then show ?thesis using assms(1) unfolding user_only_def by blast
qed

lemma user_sep_prefix:
  assumes sep: "user_sep pt va n s" and m: "m \<le> n"
  shows "user_sep pt va m s"
proof -
  have "user_only pt va n s t" if "user_only pt va m s t" for t using that m by (rule user_only_mono)
  then show ?thesis using sep m by (auto simp: user_sep_def intro: inj_on_subset)
qed

text \<open>One round of \<open>copyout\<close> writes the bytes up to the end of the page.\<close>

lemma copy_page_mem:
  assumes n: "n \<le> PGSIZE - unat va mod PGSIZE" "length ys = n"
    and t: "t = copy_bytes (unat (walkaddr pt (PGROUNDDOWN va) s + (va - PGROUNDDOWN va))) ys s"
  shows "k < n \<Longrightarrow> mem t (uplace pt s va k) = ys ! k" and "n \<le> m \<Longrightarrow> user_only pt va m s t"
proof -
  let ?a = "unat (walkaddr pt (PGROUNDDOWN va) s + (va - PGROUNDDOWN va))"
  have u: "uplace pt s va k = ?a + k" if "k < n" for k
    using frame_plus[of k va pt s] that n(1) by simp
  show "mem t (uplace pt s va k) = ys ! k" if "k < n"
    using u[OF that] that n(2) by (simp add: t copy_bytes_def)
  have "mem t j = mem s j" if m: "n \<le> m" and j: "j \<notin> uplace pt s va ` {..<m}" for j
  proof -
    have False if "?a \<le> j" "j < ?a + n"
    proof -
      from that have "j = uplace pt s va (j - ?a)" "j - ?a < m" using u[of "j - ?a"] m by auto
      then show False using j by (metis imageI lessThan_iff)
    qed
    then show ?thesis using n(2) by (auto simp: t copy_bytes_def)
  qed
  then show "user_only pt va m s t" if "n \<le> m" using that by (simp add: user_only_def t copy_bytes_def)
qed

lemma copyout_step:
  assumes "xs \<noteq> []" "walkaddr pt (PGROUNDDOWN va) s \<noteq> 0"
  obtains n t where "0 < n" "n \<le> length xs" "copyout pt va xs s = copyout pt (va + of_nat n) (drop n xs) t"
    "\<forall>k<n. mem t (uplace pt s va k) = xs ! k" "user_only pt va (length xs) s t"
proof -
  define n where "n = min (PGSIZE - unat (va - PGROUNDDOWN va)) (length xs)"
  define t where "t = copy_bytes (unat (walkaddr pt (PGROUNDDOWN va) s + (va - PGROUNDDOWN va))) (take n xs) s"
  have n: "n > 0" "n \<le> PGSIZE - unat va mod PGSIZE" "n \<le> length xs" "length (take n xs) = n"
    using assms(1) page_offset(2)[of va] by (auto simp: n_def PGSIZE_def)
  have step: "copyout pt va xs s = copyout pt (PGROUNDDOWN va + of_nat PGSIZE) (drop n xs) t"
    using assms n(1) by (subst copyout.simps) (simp add: Let_def t_def flip: n_def)
  have "copyout pt va xs s = copyout pt (va + of_nat n) (drop n xs) t"
  proof (cases "n < length xs")
    case True
    then show ?thesis using next_page[of va] step by (simp add: n_def min_def split: if_splits)
  next
    case False
    then have "drop n xs = []" by simp
    then show ?thesis unfolding step by (subst (1 2) copyout.simps) simp
  qed
  then show thesis using that[of n t] n(1,3) copy_page_mem[OF n(2,4) t_def] by simp
qed

lemma copyout_ok:
  assumes "user_sep pt va (length xs) s"
    and "\<forall>k<length xs. walkaddr pt (PGROUNDDOWN (va + of_nat k)) s \<noteq> 0"
  shows "\<exists>t. copyout pt va xs s = (0, t) \<and> user_only pt va (length xs) s t \<and>
    (\<forall>k<length xs. mem t (uplace pt s va k) = xs ! k)"
  using assms
proof (induction "length xs" arbitrary: va xs s rule: less_induct)
  case less
  note sep = less.prems(1) and mapped = less.prems(2)
  show ?case
  proof (cases "xs = []")
    case True
    then show ?thesis by (subst copyout.simps) (simp add: user_only_refl)
  next
    case False
    then have "walkaddr pt (PGROUNDDOWN va) s \<noteq> 0" using mapped[rule_format, of 0] by simp
    then obtain n t where n: "0 < n" "n \<le> length xs" "copyout pt va xs s = copyout pt (va + of_nat n) (drop n xs) t"
      and t: "\<forall>k<n. mem t (uplace pt s va k) = xs ! k" "user_only pt va (length xs) s t"
      by (rule copyout_step[OF False])
    have "\<forall>k<length xs - n. walkaddr pt (PGROUNDDOWN (va + of_nat n + of_nat k)) t \<noteq> 0"
      using mapped user_sep_walk(1)[OF sep t(2)] by (simp add: add.assoc flip: of_nat_add)
    then obtain u where u: "copyout pt (va + of_nat n) (drop n xs) t = (0, u)"
      "user_only pt (va + of_nat n) (length xs - n) t u"
      "\<forall>k<length xs - n. mem u (uplace pt t (va + of_nat n) k) = xs ! (n + k)"
      using less.hyps[of "drop n xs" "va + of_nat n" t] n(1) False user_sep_next[OF sep t(2), of n] by auto
    have "mem u (uplace pt s va k) = xs ! k" if k: "k < length xs" for k
    proof (cases "k < n")
      case True
      have "uplace pt s va k \<notin> uplace pt t (va + of_nat n) ` {..<length xs - n}"
        by (rule uplace_not_later[OF sep t(2) True n(2)])
      then show ?thesis using u(2) t(1) True by (simp add: user_only_def)
    next
      case False
      then show ?thesis using u(3)[rule_format, of "k - n"] uplace_next[OF sep t(2), of "k - n" n] k by simp
    qed
    then show ?thesis using n(3) u(1) user_only_next[OF sep t(2) u(2)] by simp
  qed
qed

section \<open>Delivering bytes in several pieces\<close>

text \<open>
  \<open>deliverable\<close>: \<open>copyout\<close> to this range of user addresses succeeds.  \<open>delivered\<close>: the range holds
  the bytes \<open>xs\<close>, and no other byte of memory changed.  Both look at the memory only.
\<close>

definition deliverable :: "u64 \<Rightarrow> u64 \<Rightarrow> nat \<Rightarrow> 'a kmach_scheme \<Rightarrow> bool" where
  "deliverable pt va n s \<longleftrightarrow> user_sep pt va n s \<and> (\<forall>k<n. walkaddr pt (PGROUNDDOWN (va + of_nat k)) s \<noteq> 0)"

definition delivered :: "u64 \<Rightarrow> u64 \<Rightarrow> byte list \<Rightarrow> 'a kmach_scheme \<Rightarrow> 'a kmach_scheme \<Rightarrow> bool" where
  "delivered pt va xs s t \<longleftrightarrow> user_only pt va (length xs) s (s\<lparr>mem := mem t\<rparr>) \<and>
     (\<forall>k<length xs. mem t (uplace pt s va k) = xs ! k)"

lemma deliverable_mem: "mem s = mem t \<Longrightarrow> deliverable pt va n s \<Longrightarrow> deliverable pt va n t"
  using user_sep_mem[of s t] walkaddr_mem[of s t] by (simp add: deliverable_def)

lemma delivered_mem: "mem s = mem s' \<Longrightarrow> mem t = mem t' \<Longrightarrow> delivered pt va xs s t \<Longrightarrow> delivered pt va xs s' t'"
  using uphys_mem[of s s' pt] by (simp add: delivered_def user_only_def)

lemma delivered_Nil: "mem t = mem s \<Longrightarrow> delivered pt va [] s t"
  by (simp add: delivered_def user_only_def)

lemma copyout_delivers:
  assumes "deliverable pt va n s" "length xs \<le> n"
  shows "\<exists>t. copyout pt va xs s = (0, t) \<and> t = s\<lparr>mem := mem t\<rparr> \<and> delivered pt va xs s t"
proof -
  have "user_sep pt va (length xs) s" "\<forall>k<length xs. walkaddr pt (PGROUNDDOWN (va + of_nat k)) s \<noteq> 0"
    using assms user_sep_prefix by (auto simp: deliverable_def)
  from copyout_ok[OF this] show ?thesis by (auto simp: delivered_def user_only_def)
qed

lemma deliverable_next:
  assumes d: "deliverable pt va n s" and t: "delivered pt va xs s t" and n: "length xs \<le> n"
  shows "deliverable pt (va + of_nat (length xs)) (n - length xs) t"
proof -
  let ?t = "s\<lparr>mem := mem t\<rparr>" and ?m = "length xs"
  have sep: "user_sep pt va n s" using d by (simp add: deliverable_def)
  have o': "user_only pt va n s ?t" using t n user_only_mono by (auto simp: delivered_def)
  have "walkaddr pt (PGROUNDDOWN (va + of_nat (?m + k))) s \<noteq> 0" if "k < n - ?m" for k
    using d that by (simp add: deliverable_def del: of_nat_add)
  then have "walkaddr pt (PGROUNDDOWN (va + of_nat ?m + of_nat k)) ?t \<noteq> 0" if "k < n - ?m" for k
    using user_sep_walk(1)[OF sep o', of "?m + k"] that by (simp add: ac_simps)
  then have "deliverable pt (va + of_nat ?m) (n - ?m) ?t" using user_sep_next[OF sep o', of ?m] by (simp add: deliverable_def)
  then show ?thesis by (rule deliverable_mem[rotated]) simp
qed

lemma delivered_append:
  assumes d: "deliverable pt va (length xs + length ys) s" and t: "delivered pt va xs s t"
    and u: "delivered pt (va + of_nat (length xs)) ys t u"
  shows "delivered pt va (xs @ ys) s u"
proof -
  let ?n = "length xs + length ys" and ?t = "s\<lparr>mem := mem t\<rparr>" and ?m = "length xs"
  have sep: "user_sep pt va ?n s" using d by (simp add: deliverable_def)
  have o': "user_only pt va ?n s ?t" using t user_only_mono[of pt va ?m s ?t ?n] by (simp add: delivered_def)
  have e: "uplace pt t (va + of_nat ?m) = uplace pt ?t (va + of_nat ?m)" using uphys_mem[of t ?t] by simp
  have u': "user_only pt (va + of_nat ?m) (?n - ?m) ?t (s\<lparr>mem := mem u\<rparr>)"
    using u uphys_mem[of t ?t] by (simp add: delivered_def user_only_def)
  have all: "user_only pt va ?n s (s\<lparr>mem := mem u\<rparr>)" by (rule user_only_next[OF sep o' u'])
  have "mem u (uplace pt s va k) = (xs @ ys) ! k" if k: "k < ?n" for k
  proof (cases "k < ?m")
    case True
    have "uplace pt s va k \<notin> uplace pt ?t (va + of_nat ?m) ` {..<?n - ?m}" by (rule uplace_not_later[OF sep o' True]) simp
    then have "mem u (uplace pt s va k) = mem t (uplace pt s va k)" using u' by (simp add: user_only_def)
    then show ?thesis using t True by (simp add: delivered_def nth_append)
  next
    case False
    have y: "uplace pt ?t (va + of_nat ?m) (k - ?m) = uplace pt s va (?m + (k - ?m))"
      by (rule uplace_next[OF sep o']) (use False k in simp)
    have m: "?m + (k - ?m) = k" using False by simp
    have "mem u (uplace pt t (va + of_nat ?m) (k - ?m)) = ys ! (k - ?m)"
      by (rule u[unfolded delivered_def, THEN conjunct2, rule_format]) (use False k in simp)
    then have "mem u (uplace pt s va k) = ys ! (k - ?m)" unfolding fun_cong[OF e] y m .
    then show ?thesis using False by (simp add: nth_append)
  qed
  then show ?thesis using all by (simp add: delivered_def)
qed

lemma delivered_copyin:
  assumes d: "deliverable pt va (length xs) s" and t: "delivered pt va xs s t"
  shows "copyin pt va (length xs) t = (0, xs)"
proof -
  let ?t = "s\<lparr>mem := mem t\<rparr>"
  have "ubyte pt ?t (va + of_nat k) = Some (xs ! k)" if "k < length xs" for k
    using user_sep_walk[of pt va "length xs" s ?t k] d t that by (simp add: ubyte_def deliverable_def delivered_def)
  then have "copyin pt va (length xs) ?t = (0, xs)" by (simp add: copyin_iff)
  then show ?thesis using copyin_mem[of ?t t] by simp
qed

section \<open>Strings\<close>

definition nulstr :: "byte list \<Rightarrow> bool" where
  "nulstr xs \<longleftrightarrow> (\<exists>ys. xs = ys @ [0] \<and> 0 \<notin> set ys)"

lemma nulstr_zero: "nulstr xs \<Longrightarrow> k < length xs \<Longrightarrow> xs ! k = 0 \<longleftrightarrow> Suc k = length xs"
  by (auto simp: nulstr_def nth_append split: if_splits) (metis nth_mem)

lemma nulstr_pos: "nulstr xs \<Longrightarrow> 0 < length xs"
  by (auto simp: nulstr_def)

lemma nulstr_append: "0 \<notin> set ys \<Longrightarrow> nulstr (ys @ zs) \<longleftrightarrow> nulstr zs"
proof
  assume z: "0 \<notin> set ys" and n: "nulstr (ys @ zs)"
  then obtain ws where ws: "ys @ zs = ws @ [0]" "0 \<notin> set ws" by (auto simp: nulstr_def)
  then have "zs \<noteq> []" using z by (metis append_Nil2 in_set_conv_decomp)
  then have "zs = butlast zs @ [0]" using ws(1) by (metis append_butlast_last_id last_appendR last_snoc)
  moreover have "set (butlast zs) \<subseteq> set ws" using ws(1) \<open>zs \<noteq> []\<close> by (metis butlast_append butlast_snoc set_append sup_ge2)
  ultimately show "nulstr zs" using ws(2) unfolding nulstr_def by blast
qed (auto simp: nulstr_def)

lemma nulstr_unique:
  assumes "nulstr xs" "nulstr zs" "\<And>k. k < length xs \<Longrightarrow> k < length zs \<Longrightarrow> xs ! k = zs ! k"
  shows "xs = zs"
proof -
  have "length xs = length zs"
  proof (rule ccontr)
    assume ne: "length xs \<noteq> length zs"
    let ?k = "min (length xs) (length zs) - 1"
    have k: "?k < length xs" "?k < length zs" using nulstr_pos[OF assms(1)] nulstr_pos[OF assms(2)] by linarith+
    then have "Suc ?k = length xs \<longleftrightarrow> Suc ?k = length zs"
      using nulstr_zero[OF assms(1) k(1)] nulstr_zero[OF assms(2) k(2)] assms(3)[OF k] by simp
    then show False using ne nulstr_pos[OF assms(1)] nulstr_pos[OF assms(2)] by (auto simp: min_def split: if_splits)
  qed
  then show ?thesis using assms(3) by (intro nth_equalityI) auto
qed

lemma until_nul_eq:
  "until_nul ys = (if 0 \<in> set ys then (True, takeWhile (\<lambda>c. c \<noteq> 0) ys @ [0]) else (False, ys))"
  by (induction ys) auto

lemma until_nul_prefix:
  assumes "0 \<in> set ys"
  shows "nulstr (takeWhile (\<lambda>c. c \<noteq> 0) ys @ [0])"
    and "length (takeWhile (\<lambda>c. c \<noteq> 0) ys @ [0]) \<le> length ys"
    and "k < length (takeWhile (\<lambda>c. c \<noteq> 0) ys @ [0]) \<Longrightarrow> (takeWhile (\<lambda>c. c \<noteq> 0) ys @ [0]) ! k = ys ! k"
proof -
  show "nulstr (takeWhile (\<lambda>c. c \<noteq> 0) ys @ [0])" by (auto simp: nulstr_def dest: set_takeWhileD)
  obtain zs ws where y: "ys = zs @ 0 # ws" "0 \<notin> set zs" using split_list_first[OF assms] by blast
  then have t: "takeWhile (\<lambda>c. c \<noteq> 0) ys = zs" by (simp add: takeWhile_tail) (metis takeWhile_eq_all_conv)
  show "length (takeWhile (\<lambda>c. c \<noteq> 0) ys @ [0]) \<le> length ys" unfolding t by (simp add: y(1))
  show "(takeWhile (\<lambda>c. c \<noteq> 0) ys @ [0]) ! k = ys ! k" if "k < length (takeWhile (\<lambda>c. c \<noteq> 0) ys @ [0])"
    using that unfolding t by (auto simp: y(1) nth_append less_Suc_eq)
qed

text \<open>One round of \<open>copyinstr\<close>, with \<open>ys\<close> the bytes up to the end of the page.\<close>

lemma copyinstr_step:
  assumes "0 < mx" "walkaddr pt (PGROUNDDOWN va) s \<noteq> 0"
  obtains n ys where "0 < n" "n \<le> mx" "length ys = n"
    "\<forall>k<n. ubyte pt s (va + of_nat k) = Some (ys ! k)"
    "0 \<in> set ys \<Longrightarrow> copyinstr pt va mx s = (0, takeWhile (\<lambda>c. c \<noteq> 0) ys @ [0])"
    "\<And>xs. 0 \<notin> set ys \<Longrightarrow> copyinstr pt va mx s = (0, xs) \<longleftrightarrow>
       (\<exists>ws. copyinstr pt (va + of_nat n) (mx - n) s = (0, ws) \<and> xs = ys @ ws)"
proof -
  let ?pa = "walkaddr pt (PGROUNDDOWN va) s"
  define n where "n = min (PGSIZE - unat (va - PGROUNDDOWN va)) mx"
  define ys where "ys = read_bytes (unat (?pa + (va - PGROUNDDOWN va))) n s"
  have n: "0 < n" "n \<le> mx" "n \<le> PGSIZE - unat va mod PGSIZE"
    using assms(1) page_offset(2)[of va] by (auto simp: n_def PGSIZE_def)
  have ys: "length ys = n" "\<forall>k<n. ubyte pt s (va + of_nat k) = Some (ys ! k)"
    using read_page[OF assms(2) n(3)] by (simp_all add: ys_def read_bytes_def)
  have found: "copyinstr pt va mx s = (0, takeWhile (\<lambda>c. c \<noteq> 0) ys @ [0])" if "0 \<in> set ys"
    using assms that by (subst copyinstr.simps) (simp add: Let_def until_nul_eq flip: n_def ys_def)
  have "copyinstr pt va mx s = (0, xs) \<longleftrightarrow>
    (\<exists>ws. copyinstr pt (PGROUNDDOWN va + of_nat PGSIZE) (mx - n) s = (0, ws) \<and> xs = ys @ ws)" if "0 \<notin> set ys" for xs
    using assms that n(1)
    by (subst copyinstr.simps) (auto simp: Let_def until_nul_eq simp flip: n_def ys_def split: prod.split)
  moreover have "copyinstr pt (PGROUNDDOWN va + of_nat PGSIZE) (mx - n) s = copyinstr pt (va + of_nat n) (mx - n) s"
  proof (cases "n < mx")
    case True
    then show ?thesis using next_page[of va] by (simp add: n_def min_def split: if_splits)
  next
    case False
    then show ?thesis by (subst (1 2) copyinstr.simps) simp
  qed
  ultimately have "copyinstr pt va mx s = (0, xs) \<longleftrightarrow>
    (\<exists>ws. copyinstr pt (va + of_nat n) (mx - n) s = (0, ws) \<and> xs = ys @ ws)" if "0 \<notin> set ys" for xs
    using that by simp
  then show thesis using that[OF n(1,2) ys found] by blast
qed

lemma nulstr_long:
  assumes "nulstr xs" "0 \<notin> set ys" "\<forall>k<length ys. u k = Some (ys ! k)" "\<forall>k<length xs. u k = Some (xs ! k)"
  shows "length ys \<le> length xs"
proof (rule ccontr)
  let ?k = "length xs - 1"
  assume "\<not> length ys \<le> length xs"
  then have k: "?k < length ys" "?k < length xs" using nulstr_pos[OF assms(1)] by auto
  then have "ys ! ?k = xs ! ?k" using assms(3,4) by (metis option.inject)
  moreover have "xs ! ?k = 0" using nulstr_zero[OF assms(1) k(2)] k(2) by simp
  ultimately show False using assms(2) k(1) by (metis nth_mem)
qed

lemma nulstr_first:
  assumes "0 \<in> set ys" "\<forall>k<length ys. u k = Some (ys ! k)" "length ys \<le> mx"
  shows "takeWhile (\<lambda>c. c \<noteq> 0) ys @ [0] = xs \<longleftrightarrow> nulstr xs \<and> length xs \<le> mx \<and> (\<forall>k<length xs. u k = Some (xs ! k))"
proof -
  define zs where "zs = takeWhile (\<lambda>c. c \<noteq> 0) ys @ [0]"
  note zs = until_nul_prefix[OF assms(1), folded zs_def]
  have u: "u k = Some (zs ! k)" if "k < length zs" for k using assms(2) zs(2) zs(3)[OF that] that by simp
  have "zs = xs" if "nulstr xs" "\<forall>k<length xs. u k = Some (xs ! k)"
    by (rule nulstr_unique[OF zs(1) that(1)]) (use u that(2) in auto)
  then show ?thesis using zs(1,2) u assms(3) unfolding zs_def[symmetric] by auto
qed

lemma copyinstr_iff:
  "copyinstr pt va mx s = (0, xs) \<longleftrightarrow>
     nulstr xs \<and> length xs \<le> mx \<and> (\<forall>k<length xs. ubyte pt s (va + of_nat k) = Some (xs ! k))"
proof (induction mx arbitrary: va xs rule: less_induct)
  case (less mx)
  let ?u = "\<lambda>k. ubyte pt s (va + of_nat k)"
  show ?case
  proof (cases "0 < mx \<and> walkaddr pt (PGROUNDDOWN va) s \<noteq> 0")
    case False
    then have "?u 0 = None" if "0 < mx" using that by (simp add: ubyte_def)
    moreover have "fst (copyinstr pt va mx s) = -1" using False by (subst copyinstr.simps) (auto simp: Let_def)
    ultimately show ?thesis using False nulstr_pos[of xs] by fastforce
  next
    case True
    obtain n ys where n: "0 < n" "n \<le> mx" and ys: "length ys = n" "\<forall>k<n. ?u k = Some (ys ! k)"
      and found: "0 \<in> set ys \<Longrightarrow> copyinstr pt va mx s = (0, takeWhile (\<lambda>c. c \<noteq> 0) ys @ [0])"
      and more: "\<And>xs. 0 \<notin> set ys \<Longrightarrow> copyinstr pt va mx s = (0, xs) \<longleftrightarrow>
        (\<exists>ws. copyinstr pt (va + of_nat n) (mx - n) s = (0, ws) \<and> xs = ys @ ws)"
      by (rule copyinstr_step[OF conjunct1[OF True] conjunct2[OF True]]) blast
    show ?thesis
    proof (cases "0 \<in> set ys")
      case True
      then show ?thesis using nulstr_first[of ys ?u mx xs] ys n(2) by (simp add: found)
    next
      case False
      have IH: "copyinstr pt (va + of_nat n) (mx - n) s = (0, ws) \<longleftrightarrow>
        nulstr ws \<and> length ws \<le> mx - n \<and> (\<forall>k<length ws. ?u (n + k) = Some (ws ! k))" for ws
        using less.IH[of "mx - n" "va + of_nat n" ws] n by (simp add: add.assoc)
      have "copyinstr pt va mx s = (0, xs) \<longleftrightarrow> nulstr xs \<and> length xs \<le> mx \<and> n \<le> length xs \<and>
        (\<exists>ws. (length ws = length xs - n \<and> (\<forall>k<length xs - n. ?u (n + k) = Some (ws ! k))) \<and> xs = ys @ ws)"
        (is "_ \<longleftrightarrow> ?r")
      proof
        assume "copyinstr pt va mx s = (0, xs)"
        then obtain ws where "nulstr ws" "length ws \<le> mx - n" "\<forall>k<length ws. ?u (n + k) = Some (ws ! k)" "xs = ys @ ws"
          unfolding more[OF False] IH by blast
        then show ?r using n(2) ys(1) by (simp add: nulstr_append[OF False])
      next
        assume ?r
        then obtain ws where w: "nulstr xs" "length xs \<le> mx" "\<forall>k<length xs - n. ?u (n + k) = Some (ws ! k)" "xs = ys @ ws"
          by blast
        have "nulstr ws" "length ws \<le> mx - n" "\<forall>k<length ws. ?u (n + k) = Some (ws ! k)"
          using w(1-3) nulstr_append[OF False, of ws] ys(1) by (auto simp: w(4))
        then show "copyinstr pt va mx s = (0, xs)" unfolding more[OF False] IH using w(4) by blast
      qed
      then show ?thesis
        using split_reads[OF ys(1), of ?u "length xs" xs] ys nulstr_long[of xs ys ?u, OF _ False] by blast
    qed
  qed
qed

section \<open>An example\<close>

text \<open>A process with one page at virtual address 0; its page table has three levels.\<close>

definition zero_trapframe :: trapframe where
  "zero_trapframe = \<lparr>tf_kernel_satp = 0, tf_kernel_sp = 0, tf_kernel_trap = 0, tf_epc = 0, tf_kernel_hartid = 0,
     tf_ra = 0, tf_sp = 0, tf_gp = 0, tf_tp = 0, tf_t = (\<lambda>_. 0), tf_s = (\<lambda>_. 0), tf_a = (\<lambda>_. 0)\<rparr>"

definition zero_proc :: proc where
  "zero_proc = \<lparr>p_state = UNUSED, p_chan = No_chan, p_killed = False, p_xstate = 0, p_pid = 0,
     p_parent = None, p_kstack = 0, p_sz = 0, p_pagetable = 0, p_trapframe_page = 0,
     p_trapframe = zero_trapframe, p_ofile = (\<lambda>_. None), p_cwd = None,
     p_name = (\<lambda>_. 0)\<rparr>"

definition some_user :: kmach where
  "some_user = \<lparr>mem = put64 (put64 (put64 (\<lambda>_. 0) 4096 0x801) 8192 0xC01) 12288 0x1017, kernel_end = 0,
     freelist = 0, procs = (\<lambda>_. zero_proc\<lparr>p_pagetable := 4096, p_sz := 4096\<rparr>), curproc = 0\<rparr>"

lemma some_walk:
  assumes "\<forall>j<16384. mem t j = mem some_user j"
  shows "walkaddr 4096 0 t = 16384"
proof -
  have "get64 (mem t) a = get64 (mem some_user) a" if "a + 8 \<le> 16384" for a
    using assms that by (intro get_cong(3)) auto
  then have "get64 (mem t) 4096 = 0x801" "get64 (mem t) 8192 = 0xC01" "get64 (mem t) 12288 = 0x1017"
    by (simp_all add: some_user_def get_put64_other)
  moreover have "walk_level 2 4096 0 False t = walk_level (Suc (Suc 0)) 4096 0 False t" by (simp only: numeral_2_eq_2)
  ultimately show ?thesis
    by (simp add: walkaddr_def MAXVA_def pte_addr_def PX_def read_pte_def PTE2PA_def Let_def PTE_V_def PTE_U_def)
qed

lemma some_page:
  assumes "k < 4096"
  shows "PGROUNDDOWN (of_nat k) = 0" "walkaddr 4096 (PGROUNDDOWN (of_nat k)) some_user = 16384"
    "uphys 4096 some_user (of_nat k) = 16384 + k"
proof -
  show p: "PGROUNDDOWN (of_nat k) = 0" using assms by (simp add: word_unat_eq_iff unat_PGROUNDDOWN unat_of_nat PGSIZE_def)
  show w: "walkaddr 4096 (PGROUNDDOWN (of_nat k)) some_user = 16384" using some_walk[of some_user] by (simp add: p)
  show "uphys 4096 some_user (of_nat k) = 16384 + k" using assms by (simp add: uphys_def w unat_of_nat PGSIZE_def)
qed

lemma some_user_sep:
  assumes "n \<le> 4096"
  shows "user_sep 4096 0 n some_user"
  unfolding user_sep_def
proof (intro conjI allI impI; (elim conjE)?)
  show "inj_on (uplace 4096 some_user 0) {..<n}" using assms some_page(3) by (auto intro!: inj_onI)
  fix t :: kmach and k assume t: "user_only 4096 0 n some_user t" and k: "k < n"
  have "j \<notin> uplace 4096 some_user 0 ` {..<n}" if "j < 16384" for j using that assms some_page(3) by auto
  then have "walkaddr 4096 0 t = 16384" using t by (intro some_walk) (simp add: user_only_def)
  then show "walkaddr 4096 (PGROUNDDOWN (0 + of_nat k)) t = walkaddr 4096 (PGROUNDDOWN (0 + of_nat k)) some_user"
    using k assms some_page(1,2)[of k] by simp
qed

section \<open>Properties\<close>

lemma map_Some_eq: "map u [0..<n] = map Some xs \<longleftrightarrow> length xs = n \<and> (\<forall>k<n. u k = Some (xs ! k))"
  by (auto simp: list_eq_iff_nth_eq)


text \<open>
  (C31) \<open>copyinstr\<close> succeeds if and only if there is a NUL byte among the first \<open>max\<close> bytes and all
  bytes up to it are mapped; then it delivers these bytes, with the NUL as the last one.
\<close>

theorem copyinstr_spec:
  "copyinstr pt va mx s = (0, xs) \<longleftrightarrow>
     (\<exists>ys. xs = ys @ [0] \<and> 0 \<notin> set ys) \<and> length xs \<le> mx \<and>
     map (\<lambda>k. ubyte pt s (va + of_nat k)) [0..<length xs] = map Some xs"
  using copyinstr_iff[of pt va mx s xs] by (simp add: nulstr_def map_Some_eq)

text \<open>
  (C29) What \<open>copyout\<close> wrote, \<open>copyin\<close> reads back, across any number of pages; nothing else in
  memory changed.  The pages must be mapped and distinct, and not hold the page table.
\<close>

theorem copyout_copyin:
  assumes sep: "user_sep pt va (length xs) s" and mapped: "\<forall>k<length xs. ubyte pt s (va + of_nat k) \<noteq> None"
  shows "\<exists>t. copyout pt va xs s = (0, t) \<and> copyin pt va (length xs) t = (0, xs) \<and> user_only pt va (length xs) s t"
proof -
  have m: "\<forall>k<length xs. walkaddr pt (PGROUNDDOWN (va + of_nat k)) s \<noteq> 0"
    using mapped by (auto simp: ubyte_def split: if_splits)
  obtain t where t: "copyout pt va xs s = (0, t)" "user_only pt va (length xs) s t"
    "\<forall>k<length xs. mem t (uplace pt s va k) = xs ! k" using copyout_ok[OF sep m] by blast
  have "ubyte pt t (va + of_nat k) = Some (xs ! k)" if "k < length xs" for k
    using user_sep_walk[OF sep t(2) that] t(3) m that by (simp add: ubyte_def)
  then show ?thesis using t(1,2) by (simp add: copyin_iff)
qed

theorem copyout_copyin_witness:
  "\<exists>t. copyout 4096 0 [104, 105] some_user = (0, t) \<and> copyin 4096 0 2 t = (0, [104, 105])"
proof -
  have "\<forall>k<length [104, 105 :: byte]. ubyte 4096 some_user (0 + of_nat k) \<noteq> None"
    using some_walk[of some_user] by (auto simp: ubyte_def some_page)
  from copyout_copyin[OF _ this] some_user_sep[of 2] show ?thesis by (auto simp: numeral_2_eq_2)
qed

end
