(* ===== verification/Bio.thy ===== *)
theory Bio
  imports Usermem
begin

text \<open>
  Sleep locks (\<open>kernel/sleeplock.c\<close>) and the buffer cache (\<open>kernel/bio.c\<close>, \<open>kernel/buf.h\<close>).

  \<^item> \<open>disk\<close> is the content of the device, block by block; \<open>dwrites\<close> records the writes the
    driver has issued, in order, so that a crash between two of them can be expressed.
    \<open>virtio_disk_rw\<close> is the effect of the driver's function of that name on a buffer and the
    device; the descriptor rings behind it are not part of this theory.
  \<^item> \<open>bufs\<close> is \<open>bcache.buf\<close>; index \<open>NBUF\<close> is \<open>bcache.head\<close>.  The list through \<open>prev\<close> and
    \<open>next\<close> is kept with its pointers, and the loops of \<open>bget\<close> follow them.  A walk that has
    visited more nodes than there are never ends, so the step count \<open>NBUF + 1\<close> of the
    walks loses nothing.
  \<^item> A process that acquires a sleep lock that is taken has to wait for another process
    (\<open>Hang\<close>).

  The theorems: the pointer list stays a doubly linked list of all buffers and releasing a
  buffer moves it to the front; a block is cached at most once; \<open>bread\<close> returns the current
  content of a block (\<open>lview\<close>: what is cached, else what is on disk) and eviction never loses
  a modified block.
\<close>

section \<open>Sleep locks\<close>

record sleeplock =
  sl_locked :: bool
  sl_pid :: int

definition initsleeplock :: sleeplock where
  "initsleeplock = \<lparr>sl_locked = False, sl_pid = 0\<rparr>"

definition acquiresleep :: "sleeplock \<Rightarrow> 'a kmach_scheme \<Rightarrow> sleeplock res" where
  "acquiresleep lk s =
     (if sl_locked lk then Hang else Ok (lk\<lparr>sl_locked := True, sl_pid := p_pid (myproc s)\<rparr>))"

definition releasesleep :: "sleeplock \<Rightarrow> sleeplock" where
  "releasesleep lk = lk\<lparr>sl_locked := False, sl_pid := 0\<rparr>"

definition holdingsleep :: "sleeplock \<Rightarrow> 'a kmach_scheme \<Rightarrow> bool" where
  "holdingsleep lk s \<longleftrightarrow> sl_locked lk \<and> sl_pid lk = p_pid (myproc s)"

section \<open>State\<close>

definition NBUF :: nat where "NBUF = 45"
definition BSIZE :: nat where "BSIZE = 1024"
definition ROOTDEV :: u32 where "ROOTDEV = 1"

abbreviation HEAD :: nat where "HEAD \<equiv> NBUF"

record buf =
  b_valid :: bool
  b_dev :: u32
  b_blockno :: u32
  b_lock :: sleeplock
  b_refcnt :: u32
  b_prev :: nat
  b_next :: nat
  b_data :: bytes

record bio_st = kmach +
  disk :: "u32 \<Rightarrow> bytes"
  dwrites :: "(u32 \<times> bytes) list"
  bufs :: "nat \<Rightarrow> buf"

definition set_buf :: "nat \<Rightarrow> (buf \<Rightarrow> buf) \<Rightarrow> 'a bio_st_scheme \<Rightarrow> 'a bio_st_scheme" where
  "set_buf i f s = s\<lparr>bufs := (bufs s)(i := f (bufs s i))\<rparr>"

text \<open>Reading and changing \<open>bp->data\<close> of a buffer the caller holds.\<close>

definition bdata :: "nat \<Rightarrow> 'a bio_st_scheme \<Rightarrow> bytes" where
  "bdata i s = b_data (bufs s i)"

definition set_bdata :: "nat \<Rightarrow> bytes \<Rightarrow> 'a bio_st_scheme \<Rightarrow> 'a bio_st_scheme" where
  "set_bdata i d s = set_buf i (\<lambda>b. b\<lparr>b_data := d\<rparr>) s"

section \<open>Operations\<close>

text \<open>The body of the loop of \<open>binit\<close> links one more buffer in behind the head.\<close>

definition binit_link :: "nat \<Rightarrow> 'a bio_st_scheme \<Rightarrow> 'a bio_st_scheme" where
  "binit_link b s =
     (let s = set_buf b (\<lambda>x. x\<lparr>b_next := b_next (bufs s HEAD)\<rparr>) s;
          s = set_buf b (\<lambda>x. x\<lparr>b_prev := HEAD\<rparr>) s;
          s = set_buf b (\<lambda>x. x\<lparr>b_lock := initsleeplock\<rparr>) s;
          s = set_buf (b_next (bufs s HEAD)) (\<lambda>x. x\<lparr>b_prev := b\<rparr>) s
      in set_buf HEAD (\<lambda>x. x\<lparr>b_next := b\<rparr>) s)"

definition binit :: "'a bio_st_scheme \<Rightarrow> 'a bio_st_scheme" where
  "binit s =
     (let s = set_buf HEAD (\<lambda>x. x\<lparr>b_prev := HEAD\<rparr>) s;
          s = set_buf HEAD (\<lambda>x. x\<lparr>b_next := HEAD\<rparr>) s
      in fold binit_link [0..<NBUF] s)"

fun scan_next :: "nat \<Rightarrow> (nat \<Rightarrow> buf) \<Rightarrow> (buf \<Rightarrow> bool) \<Rightarrow> nat \<Rightarrow> nat option res" where
  "scan_next 0 bs P b = Hang"
| "scan_next (Suc k) bs P b =
     (if b = HEAD then Ok None
      else if P (bs b) then Ok (Some b)
      else scan_next k bs P (b_next (bs b)))"

fun scan_prev :: "nat \<Rightarrow> (nat \<Rightarrow> buf) \<Rightarrow> (buf \<Rightarrow> bool) \<Rightarrow> nat \<Rightarrow> nat option res" where
  "scan_prev 0 bs P b = Hang"
| "scan_prev (Suc k) bs P b =
     (if b = HEAD then Ok None
      else if P (bs b) then Ok (Some b)
      else scan_prev k bs P (b_prev (bs b)))"

definition lock_buf :: "nat \<Rightarrow> 'a bio_st_scheme \<Rightarrow> 'a bio_st_scheme res" where
  "lock_buf b s =
     rbind (acquiresleep (b_lock (bufs s b)) s) (\<lambda>lk. Ok (set_buf b (\<lambda>x. x\<lparr>b_lock := lk\<rparr>) s))"

definition bget :: "u32 \<Rightarrow> u32 \<Rightarrow> 'a bio_st_scheme \<Rightarrow> (nat \<times> 'a bio_st_scheme) res" where
  "bget dev blockno s =
     rbind (scan_next (Suc NBUF) (bufs s) (\<lambda>b. b_dev b = dev \<and> b_blockno b = blockno)
              (b_next (bufs s HEAD))) (\<lambda>r.
       case r of
         Some b \<Rightarrow>
           rbind (lock_buf b (set_buf b (\<lambda>x. x\<lparr>b_refcnt := b_refcnt x + 1\<rparr>) s)) (\<lambda>s. Ok (b, s))
       | None \<Rightarrow>
           rbind (scan_prev (Suc NBUF) (bufs s) (\<lambda>b. b_refcnt b = 0) (b_prev (bufs s HEAD))) (\<lambda>r.
             case r of
               Some b \<Rightarrow>
                 rbind (lock_buf b (set_buf b (\<lambda>x. x\<lparr>b_dev := dev, b_blockno := blockno,
                                                     b_valid := False, b_refcnt := 1\<rparr>) s))
                   (\<lambda>s. Ok (b, s))
             | None \<Rightarrow> Panic ''bget: no buffers''))"

definition virtio_disk_rw :: "nat \<Rightarrow> bool \<Rightarrow> 'a bio_st_scheme \<Rightarrow> 'a bio_st_scheme" where
  "virtio_disk_rw i write s =
     (let b = bufs s i in
      if write then s\<lparr>disk := (disk s)(b_blockno b := b_data b),
                      dwrites := dwrites s @ [(b_blockno b, b_data b)]\<rparr>
      else set_bdata i (disk s (b_blockno b)) s)"

definition bread :: "u32 \<Rightarrow> u32 \<Rightarrow> 'a bio_st_scheme \<Rightarrow> (nat \<times> 'a bio_st_scheme) res" where
  "bread dev blockno s =
     rbind (bget dev blockno s) (\<lambda>(b, s).
       if \<not> b_valid (bufs s b) then
         Ok (b, set_buf b (\<lambda>x. x\<lparr>b_valid := True\<rparr>) (virtio_disk_rw b False s))
       else Ok (b, s))"

definition bwrite :: "nat \<Rightarrow> 'a bio_st_scheme \<Rightarrow> 'a bio_st_scheme res" where
  "bwrite b s =
     (if \<not> holdingsleep (b_lock (bufs s b)) s then Panic ''bwrite''
      else Ok (virtio_disk_rw b True s))"

text \<open>Taking a buffer out of the list and putting it behind the head, pointer by pointer.\<close>

definition move_to_front :: "nat \<Rightarrow> 'a bio_st_scheme \<Rightarrow> 'a bio_st_scheme" where
  "move_to_front b s =
     (let s = set_buf (b_next (bufs s b)) (\<lambda>x. x\<lparr>b_prev := b_prev (bufs s b)\<rparr>) s;
          s = set_buf (b_prev (bufs s b)) (\<lambda>x. x\<lparr>b_next := b_next (bufs s b)\<rparr>) s;
          s = set_buf b (\<lambda>x. x\<lparr>b_next := b_next (bufs s HEAD)\<rparr>) s;
          s = set_buf b (\<lambda>x. x\<lparr>b_prev := HEAD\<rparr>) s;
          s = set_buf (b_next (bufs s HEAD)) (\<lambda>x. x\<lparr>b_prev := b\<rparr>) s
      in set_buf HEAD (\<lambda>x. x\<lparr>b_next := b\<rparr>) s)"

definition brelse :: "nat \<Rightarrow> 'a bio_st_scheme \<Rightarrow> 'a bio_st_scheme res" where
  "brelse b s =
     (if \<not> holdingsleep (b_lock (bufs s b)) s then Panic ''brelse''
      else
        let s = set_buf b (\<lambda>x. x\<lparr>b_lock := releasesleep (b_lock x)\<rparr>) s;
            s = set_buf b (\<lambda>x. x\<lparr>b_refcnt := b_refcnt x - 1\<rparr>) s
        in Ok (if b_refcnt (bufs s b) = 0 then move_to_front b s else s))"

definition bpin :: "nat \<Rightarrow> 'a bio_st_scheme \<Rightarrow> 'a bio_st_scheme" where
  "bpin b s = set_buf b (\<lambda>x. x\<lparr>b_refcnt := b_refcnt x + 1\<rparr>) s"

definition bunpin :: "nat \<Rightarrow> 'a bio_st_scheme \<Rightarrow> 'a bio_st_scheme" where
  "bunpin b s = set_buf b (\<lambda>x. x\<lparr>b_refcnt := b_refcnt x - 1\<rparr>) s"

section \<open>Specification: the list and the logical content of the device\<close>

text \<open>\<open>linked n p x ys z\<close>: from \<open>x\<close>, the \<open>next\<close> pointers \<open>n\<close> lead through \<open>ys\<close> to \<open>z\<close>, and the
  \<open>prev\<close> pointers \<open>p\<close> lead back.\<close>

fun linked :: "(nat \<Rightarrow> nat) \<Rightarrow> (nat \<Rightarrow> nat) \<Rightarrow> nat \<Rightarrow> nat list \<Rightarrow> nat \<Rightarrow> bool" where
  "linked n p x [] z \<longleftrightarrow> n x = z \<and> p z = x"
| "linked n p x (y # ys) z \<longleftrightarrow> n x = y \<and> p y = x \<and> linked n p y ys z"

abbreviation nexts :: "(nat \<Rightarrow> buf) \<Rightarrow> nat \<Rightarrow> nat" where "nexts bs \<equiv> \<lambda>i. b_next (bs i)"
abbreviation prevs :: "(nat \<Rightarrow> buf) \<Rightarrow> nat \<Rightarrow> nat" where "prevs bs \<equiv> \<lambda>i. b_prev (bs i)"

text \<open>The cache list: all buffers, each once, most recently used first.\<close>

definition lru :: "(nat \<Rightarrow> buf) \<Rightarrow> nat list \<Rightarrow> bool" where
  "lru bs xs \<longleftrightarrow> linked (nexts bs) (prevs bs) HEAD xs HEAD \<and> distinct xs \<and> set xs = {..<NBUF}"

definition caches :: "(nat \<Rightarrow> buf) \<Rightarrow> u32 \<Rightarrow> nat \<Rightarrow> bool" where
  "caches bs b i \<longleftrightarrow> b_dev (bs i) = ROOTDEV \<and> b_blockno (bs i) = b"

text \<open>The slot that caches block \<open>b\<close>, if there is one.\<close>

definition slot :: "(nat \<Rightarrow> buf) \<Rightarrow> u32 \<Rightarrow> nat option" where
  "slot bs b = find (caches bs b) [0..<NBUF]"

definition lview :: "'a bio_st_scheme \<Rightarrow> u32 \<Rightarrow> bytes" where
  "lview s b = (case slot (bufs s) b of
                  Some i \<Rightarrow> if b_valid (bufs s i) then b_data (bufs s i) else disk s b
                | None \<Rightarrow> disk s b)"

definition brefs :: "'a bio_st_scheme \<Rightarrow> u32 \<Rightarrow> nat" where
  "brefs s b = (case slot (bufs s) b of Some i \<Rightarrow> unat (b_refcnt (bufs s i)) | None \<Rightarrow> 0)"

definition held :: "'a bio_st_scheme \<Rightarrow> u32 \<Rightarrow> bool" where
  "held s b = (case slot (bufs s) b of Some i \<Rightarrow> sl_locked (b_lock (bufs s i)) | None \<Rightarrow> False)"

text \<open>The invariant of one slot, and of the cache.\<close>

definition buf_ok :: "'a bio_st_scheme \<Rightarrow> nat \<Rightarrow> bool" where
  "buf_ok s i \<longleftrightarrow>
     (b_refcnt (bufs s i) = 0 \<longrightarrow> \<not> sl_locked (b_lock (bufs s i))) \<and>
     (b_refcnt (bufs s i) \<noteq> 0 \<longrightarrow> b_dev (bufs s i) = ROOTDEV \<and> b_valid (bufs s i)) \<and>
     (sl_locked (b_lock (bufs s i)) \<longrightarrow> sl_pid (b_lock (bufs s i)) = p_pid (myproc s)) \<and>
     (b_valid (bufs s i) \<and> b_dev (bufs s i) = ROOTDEV \<and> b_refcnt (bufs s i) = 0 \<longrightarrow>
        b_data (bufs s i) = disk s (b_blockno (bufs s i)))"

definition once :: "(nat \<Rightarrow> buf) \<Rightarrow> bool" where
  "once bs \<longleftrightarrow> (\<forall>i<NBUF. \<forall>j<NBUF. b_dev (bs i) = ROOTDEV \<and> b_dev (bs j) = ROOTDEV \<and>
     b_blockno (bs i) = b_blockno (bs j) \<longrightarrow> i = j)"

definition bio_inv :: "'a bio_st_scheme \<Rightarrow> bool" where
  "bio_inv s \<longleftrightarrow> (\<exists>xs. lru (bufs s) xs) \<and> once (bufs s) \<and> (\<forall>i<NBUF. buf_ok s i)"

section \<open>Lemmas on the list\<close>

lemma linked_append:
  "linked n p x (ys @ y # zs) z \<longleftrightarrow> linked n p x ys y \<and> linked n p y zs z"
  by (induction ys arbitrary: x) auto

lemma linked_cong:
  "linked n p x ys z \<Longrightarrow> (\<And>i. i \<in> set (x # ys) \<Longrightarrow> n' i = n i) \<Longrightarrow>
   (\<And>i. i \<in> set (ys @ [z]) \<Longrightarrow> p' i = p i) \<Longrightarrow> linked n' p' x ys z"
  by (induction ys arbitrary: x) auto

lemma linked_ends:
  "linked n p x ys z \<Longrightarrow> n x = hd (ys @ [z]) \<and> p z = last (x # ys)"
  by (induction ys arbitrary: x) auto

lemma linked_rev: "linked n p x ys z \<Longrightarrow> linked p n z (rev ys) x"
proof (induction ys arbitrary: x)
  case Nil
  then show ?case by simp
next
  case (Cons y ys)
  then show ?case by (auto simp: linked_append)
qed

lemma linked_remove:
  assumes l: "linked n p h (as @ b # cs) h" and d: "distinct (h # as @ b # cs)"
  shows "linked (n(p b := n b)) (p(n b := p b)) h (as @ cs) h"
proof -
  let ?n = "n(p b := n b)" and ?p = "p(n b := p b)"
  from l have l1: "linked n p h as b" and l2: "linked n p b cs h"
    by (auto simp: linked_append)
  have pb: "p b = last (h # as)" using linked_ends[OF l1] by simp
  have nb: "n b = hd (cs @ [h])" using linked_ends[OF l2] by simp
  show ?thesis
  proof (cases as rule: rev_cases)
    case Nil
    then have "p b = h" using pb by simp
    show ?thesis
    proof (cases cs)
      case Nil
      then show ?thesis using \<open>as = []\<close> nb \<open>p b = h\<close> by simp
    next
      case (Cons c ds)
      with nb have "n b = c" by simp
      have "linked ?n ?p c ds h"
        using l2 Cons d \<open>p b = h\<close> \<open>n b = c\<close> by (auto intro!: linked_cong[of n p])
      then show ?thesis using \<open>as = []\<close> Cons \<open>p b = h\<close> \<open>n b = c\<close> by simp
    qed
  next
    case (snoc as' a)
    then have "p b = a" using pb by simp
    from l1 snoc have l1': "linked n p h as' a" by (simp add: linked_append)
    have l1'': "linked ?n ?p h as' a"
      by (rule linked_cong[OF l1']) (use d snoc nb \<open>p b = a\<close> in \<open>cases cs; auto\<close>)+
    show ?thesis
    proof (cases cs)
      case Nil
      then show ?thesis using snoc l1'' nb \<open>p b = a\<close> by (simp add: linked_append)
    next
      case (Cons c ds)
      with nb have "n b = c" by simp
      have "linked ?n ?p c ds h"
        using l2 Cons d snoc \<open>p b = a\<close> \<open>n b = c\<close> by (auto intro!: linked_cong[of n p])
      then show ?thesis using snoc Cons l1'' \<open>p b = a\<close> \<open>n b = c\<close> by (simp add: linked_append)
    qed
  qed
qed

lemma linked_insert:
  assumes l: "linked n p h xs h" and d: "distinct (h # b # xs)"
  shows "linked (n(b := n h, h := b)) (p(b := h, n h := b)) h (b # xs) h"
proof (cases xs)
  case Nil
  then show ?thesis using l d by auto
next
  case (Cons x ys)
  then have "n h = x" using l by simp
  moreover have "linked (n(b := x, h := b)) (p(b := h, x := b)) x ys h"
    using l d Cons by (auto intro!: linked_cong[of n p])
  ultimately show ?thesis using Cons d by auto
qed

lemma scan_next_find:
  "linked (nexts bs) (prevs bs) x ys HEAD \<Longrightarrow> HEAD \<notin> set ys \<Longrightarrow> length ys < k \<Longrightarrow>
   scan_next k bs P (b_next (bs x)) = Ok (find (\<lambda>i. P (bs i)) ys)"
proof (induction ys arbitrary: x k)
  case Nil
  then show ?case by (cases k) auto
next
  case (Cons y ys)
  then show ?case by (cases k) auto
qed

lemma scan_prev_find:
  "linked (prevs bs) (nexts bs) x ys HEAD \<Longrightarrow> HEAD \<notin> set ys \<Longrightarrow> length ys < k \<Longrightarrow>
   scan_prev k bs P (b_prev (bs x)) = Ok (find (\<lambda>i. P (bs i)) ys)"
proof (induction ys arbitrary: x k)
  case Nil
  then show ?case by (cases k) auto
next
  case (Cons y ys)
  then show ?case by (cases k) auto
qed

declare scan_next.simps(2) [simp del] scan_prev.simps(2) [simp del]

section \<open>Lemmas on slots\<close>

lemma lru_length: "lru bs xs \<Longrightarrow> length xs = NBUF"
  by (metis lru_def distinct_card card_lessThan)

lemma lru_scan:
  assumes "lru bs xs"
  shows "scan_next (Suc NBUF) bs P (b_next (bs HEAD)) = Ok (find (\<lambda>i. P (bs i)) xs)"
    and "scan_prev (Suc NBUF) bs P (b_prev (bs HEAD)) = Ok (find (\<lambda>i. P (bs i)) (rev xs))"
proof -
  from assms have l: "linked (nexts bs) (prevs bs) HEAD xs HEAD" and h: "HEAD \<notin> set xs"
    by (auto simp: lru_def)
  show "scan_next (Suc NBUF) bs P (b_next (bs HEAD)) = Ok (find (\<lambda>i. P (bs i)) xs)"
    using l h lru_length[OF assms] by (intro scan_next_find) auto
  show "scan_prev (Suc NBUF) bs P (b_prev (bs HEAD)) = Ok (find (\<lambda>i. P (bs i)) (rev xs))"
    using linked_rev[OF l] h lru_length[OF assms] by (intro scan_prev_find) auto
qed

lemma find_rev_lru: "lru bs xs \<Longrightarrow> find P (rev xs) = Some i \<Longrightarrow> i < NBUF \<and> P i"
  by (auto simp: find_Some_iff lru_def) (metis lessThan_iff nth_mem length_rev set_rev)

lemma slot_iff: "once bs \<Longrightarrow> slot bs c = Some i \<longleftrightarrow> i < NBUF \<and> caches bs c i"
proof
  assume "slot bs c = Some i"
  then show "i < NBUF \<and> caches bs c i"
    by (auto simp: slot_def find_Some_iff)
next
  assume o: "once bs" and i: "i < NBUF \<and> caches bs c i"
  then have "slot bs c \<noteq> None" by (auto simp: slot_def find_None_iff)
  then obtain j where j: "slot bs c = Some j" by auto
  then have "j < NBUF \<and> caches bs c j" by (auto simp: slot_def find_Some_iff)
  with o i have "i = j" by (auto simp: once_def caches_def)
  with j show "slot bs c = Some i" by simp
qed

lemma slot_None_iff: "slot bs c = None \<longleftrightarrow> (\<forall>i<NBUF. \<not> caches bs c i)"
  by (auto simp: slot_def find_None_iff)

lemma find_caches: "once bs \<Longrightarrow> set xs = {..<NBUF} \<Longrightarrow> find (caches bs c) xs = slot bs c"
proof (cases "find (caches bs c) xs")
  case None
  moreover assume "set xs = {..<NBUF}"
  ultimately have "slot bs c = None" by (auto simp: find_None_iff slot_None_iff)
  with None show ?thesis by simp
next
  case (Some i)
  moreover assume o: "once bs" and "set xs = {..<NBUF}"
  ultimately have "i < NBUF \<and> caches bs c i" by (auto simp: find_Some_iff)
  then have "slot bs c = Some i" using slot_iff[OF o] by simp
  with Some show ?thesis by simp
qed

lemma slot_cong:
  "(\<And>i. i < NBUF \<Longrightarrow> b_dev (bs' i) = b_dev (bs i) \<and> b_blockno (bs' i) = b_blockno (bs i)) \<Longrightarrow>
   slot bs' = slot bs"
  by (rule ext) (auto simp: slot_def caches_def intro!: find_cong)

lemma once_cong:
  "(\<And>i. i < NBUF \<Longrightarrow> b_dev (bs' i) = b_dev (bs i) \<and> b_blockno (bs' i) = b_blockno (bs i)) \<Longrightarrow>
   once bs' = once bs"
  by (auto simp: once_def)

lemma lru_cong:
  "(\<And>i. b_next (bs' i) = b_next (bs i) \<and> b_prev (bs' i) = b_prev (bs i)) \<Longrightarrow> lru bs' = lru bs"
  by (auto simp: lru_def fun_eq_iff)

text \<open>Replacing the block that slot \<open>j\<close> caches by an uncached block.\<close>

lemma once_replace:
  assumes "once bs" "slot bs b = None" "j < NBUF" "b_dev x = ROOTDEV" "b_blockno x = b"
  shows "once (bs(j := x))"
  using assms by (auto simp: once_def slot_None_iff caches_def)

lemma slot_replace:
  assumes "once bs" "slot bs b = None" "j < NBUF" "b_dev x = ROOTDEV" "b_blockno x = b"
  shows "slot (bs(j := x)) c = (if c = b then Some j else if slot bs c = Some j then None else slot bs c)"
proof -
  note o = once_replace[OF assms]
  have "slot (bs(j := x)) b = Some j"
    using assms by (auto simp: slot_iff[OF o] caches_def)
  moreover have "slot (bs(j := x)) c = (if slot bs c = Some j then None else slot bs c)" if "c \<noteq> b"
  proof (cases "slot bs c")
    case None
    then have "slot (bs(j := x)) c = None"
      using that assms by (auto simp: slot_None_iff caches_def)
    with None show ?thesis by simp
  next
    case (Some i)
    then have i: "i < NBUF" "caches bs c i" using slot_iff[OF assms(1)] by auto
    show ?thesis
    proof (cases "i = j")
      case True
      then have "slot (bs(j := x)) c = None"
        using that assms i by (auto simp: slot_None_iff caches_def once_def)
      with Some True show ?thesis by simp
    next
      case False
      then have "slot (bs(j := x)) c = Some i"
        using i by (simp add: slot_iff[OF o] caches_def)
      with Some False show ?thesis by simp
    qed
  qed
  ultimately show ?thesis by auto
qed

section \<open>Lemmas on the operations\<close>

lemma set_buf_simps [simp]:
  "bufs (set_buf i f s) = (bufs s)(i := f (bufs s i))"
  "disk (set_buf i f s) = disk s"
  "dwrites (set_buf i f s) = dwrites s"
  "myproc (set_buf i f s) = myproc s"
  by (simp_all add: set_buf_def myproc_def)

lemma set_buf_frame [frame]: "set_buf i f s = s\<lparr>bufs := (bufs s)(i := f (bufs s i))\<rparr>"
  by (simp add: set_buf_def)

lemma myproc_bufs [simp]:
  "myproc (s\<lparr>bufs := bs\<rparr>) = myproc s" "myproc (s\<lparr>disk := d\<rparr>) = myproc s"
  "myproc (s\<lparr>dwrites := w\<rparr>) = myproc s"
  by (simp_all add: myproc_def)

lemma bio_inv_slot:
  assumes "bio_inv s" "slot (bufs s) b = Some i"
  shows "i < NBUF" "b_dev (bufs s i) = ROOTDEV" "b_blockno (bufs s i) = b" "buf_ok s i"
  using assms slot_iff[of "bufs s" b i] by (auto simp: bio_inv_def caches_def)

text \<open>
  A change of one slot that keeps the block it caches and its place in the list, and that
  leaves the slot well-formed.
\<close>

lemma bio_inv_set_buf:
  assumes inv: "bio_inv s" and i: "i < NBUF"
    and keep: "b_dev (f (bufs s i)) = b_dev (bufs s i)" "b_blockno (f (bufs s i)) = b_blockno (bufs s i)"
      "b_next (f (bufs s i)) = b_next (bufs s i)" "b_prev (f (bufs s i)) = b_prev (bufs s i)"
    and ok: "buf_ok (set_buf i f s) i"
  shows "bio_inv (set_buf i f s)" "slot ((bufs s)(i := f (bufs s i))) = slot (bufs s)"
proof -
  have "lru (bufs (set_buf i f s)) = lru (bufs s)"
    using keep by (intro lru_cong) auto
  moreover have "once (bufs (set_buf i f s)) = once (bufs s)"
    using keep by (intro once_cong) auto
  moreover have "buf_ok (set_buf i f s) j" if "j < NBUF" for j
    using inv ok that by (cases "j = i") (auto simp: bio_inv_def buf_ok_def)
  ultimately show "bio_inv (set_buf i f s)" using inv by (auto simp: bio_inv_def)
  show "slot ((bufs s)(i := f (bufs s i))) = slot (bufs s)" using keep by (intro slot_cong) auto
qed

text \<open>The effect of such a change on the logical content, the references and the locks.\<close>

lemma views_set_buf:
  assumes inv: "bio_inv s" and sl: "slot (bufs s) b = Some i"
    and keep: "b_dev (f (bufs s i)) = b_dev (bufs s i)" "b_blockno (f (bufs s i)) = b_blockno (bufs s i)"
    and val: "b_valid (f (bufs s i))"
  shows "lview (set_buf i f s) = (lview s)(b := b_data (f (bufs s i)))"
    "brefs (set_buf i f s) = (brefs s)(b := unat (b_refcnt (f (bufs s i))))"
    "held (set_buf i f s) = (held s)(b := sl_locked (b_lock (f (bufs s i))))"
proof -
  have sc: "slot ((bufs s)(i := f (bufs s i))) = slot (bufs s)"
    using keep by (intro slot_cong) auto
  have other: "slot (bufs s) c \<noteq> Some i" if "c \<noteq> b" for c
    using bio_inv_slot(3)[OF inv] sl that by metis
  have "lview (set_buf i f s) c = ((lview s)(b := b_data (f (bufs s i)))) c" for c
    using sl val other[of c] by (cases "c = b") (auto simp: lview_def sc split: option.split)
  then show "lview (set_buf i f s) = (lview s)(b := b_data (f (bufs s i)))" ..
  have "brefs (set_buf i f s) c = ((brefs s)(b := unat (b_refcnt (f (bufs s i))))) c" for c
    using sl other[of c] by (cases "c = b") (auto simp: brefs_def sc split: option.split)
  then show "brefs (set_buf i f s) = (brefs s)(b := unat (b_refcnt (f (bufs s i))))" ..
  have "held (set_buf i f s) c = ((held s)(b := sl_locked (b_lock (f (bufs s i))))) c" for c
    using sl other[of c] by (cases "c = b") (auto simp: held_def sc split: option.split)
  then show "held (set_buf i f s) = (held s)(b := sl_locked (b_lock (f (bufs s i))))" ..
qed

lemma held_refs: "bio_inv s \<Longrightarrow> held s b \<Longrightarrow> brefs s b \<noteq> 0"
  using bio_inv_slot(4)[of s b]
  by (auto simp: held_def brefs_def buf_ok_def unat_gt_0 split: option.splits)

text \<open>A block nobody refers to has the same content in the cache and on disk.\<close>

lemma clean_unreferenced: "bio_inv s \<Longrightarrow> brefs s b = 0 \<Longrightarrow> lview s b = disk s b"
  using bio_inv_slot[of s b]
  by (auto simp: lview_def brefs_def buf_ok_def unat_eq_zero split: option.splits)

text \<open>\<open>bget\<close> on a cached and on an uncached block.\<close>

lemma bget_hit:
  assumes inv: "bio_inv s" and sl: "slot (bufs s) b = Some i"
  shows "bget ROOTDEV b s =
    rbind (lock_buf i (set_buf i (\<lambda>x. x\<lparr>b_refcnt := b_refcnt x + 1\<rparr>) s)) (\<lambda>s. Ok (i, s))"
proof -
  from inv obtain xs where xs: "lru (bufs s) xs" by (auto simp: bio_inv_def)
  have "find (caches (bufs s) b) xs = Some i"
    using find_caches[of "bufs s" xs b] inv xs sl by (auto simp: bio_inv_def lru_def)
  then show ?thesis
    using lru_scan(1)[OF xs] by (simp add: bget_def caches_def[abs_def])
qed

lemma bget_miss:
  assumes inv: "bio_inv s" and sl: "slot (bufs s) b = None" and xs: "lru (bufs s) xs"
  shows "bget ROOTDEV b s =
    (case find (\<lambda>i. b_refcnt (bufs s i) = 0) (rev xs) of
       None \<Rightarrow> Panic ''bget: no buffers''
     | Some j \<Rightarrow> rbind (lock_buf j (set_buf j (\<lambda>x. x\<lparr>b_dev := ROOTDEV, b_blockno := b,
                          b_valid := False, b_refcnt := 1\<rparr>) s)) (\<lambda>s. Ok (j, s)))"
proof -
  have "find (caches (bufs s) b) xs = None"
    using find_caches[of "bufs s" xs b] inv xs sl by (auto simp: bio_inv_def lru_def)
  then show ?thesis
    using lru_scan[OF xs] by (simp add: bget_def caches_def[abs_def] split: option.split)
qed

text \<open>What \<open>bread\<close> makes of slot \<open>i\<close> that already caches the block.\<close>

lemma bread_hit:
  assumes inv: "bio_inv s" and sl: "slot (bufs s) b = Some i" and nh: "\<not> held s b"
  shows "bread ROOTDEV b s = Ok (i, set_buf i (\<lambda>x. x\<lparr>b_refcnt := b_refcnt x + 1,
      b_lock := (b_lock x)\<lparr>sl_locked := True, sl_pid := p_pid (myproc s)\<rparr>,
      b_data := lview s b, b_valid := True\<rparr>) s)"
proof -
  have nl: "\<not> sl_locked (b_lock (bufs s i))" using nh sl by (simp add: held_def)
  show ?thesis
  proof (cases "b_valid (bufs s i)")
    case True
    then have lv: "lview s b = b_data (bufs s i)" using sl by (simp add: lview_def)
    have eq: "bufs s i\<lparr>b_refcnt := r, b_lock := l, b_valid := True\<rparr> =
        bufs s i\<lparr>b_refcnt := r, b_lock := l\<rparr>" for r l
      using True by (intro buf.equality) auto
    show ?thesis
      using True nl lv
      by (simp add: bread_def bget_hit[OF inv sl] lock_buf_def acquiresleep_def set_buf_def myproc_def eq)
  next
    case False
    then have "lview s b = disk s b" using sl by (simp add: lview_def)
    with False nl bio_inv_slot(3)[OF inv sl] show ?thesis
      by (simp add: bread_def bget_hit[OF inv sl] lock_buf_def acquiresleep_def set_buf_def
          virtio_disk_rw_def set_bdata_def myproc_def)
  qed
qed

lemma bread_hit_held:
  assumes inv: "bio_inv s" and h: "held s b"
  shows "bread ROOTDEV b s = Hang"
proof -
  from h obtain i where i: "slot (bufs s) b = Some i" "sl_locked (b_lock (bufs s i))"
    by (auto simp: held_def split: option.splits)
  then show ?thesis by (simp add: bread_def bget_hit[OF inv] lock_buf_def acquiresleep_def)
qed

lemma bread_miss:
  assumes inv: "bio_inv s" and sl: "slot (bufs s) b = None" and xs: "lru (bufs s) xs"
  shows "bread ROOTDEV b s =
    (case find (\<lambda>i. b_refcnt (bufs s i) = 0) (rev xs) of
       None \<Rightarrow> Panic ''bget: no buffers''
     | Some j \<Rightarrow> Ok (j, set_buf j (\<lambda>x. x\<lparr>b_dev := ROOTDEV, b_blockno := b, b_refcnt := 1,
         b_lock := (b_lock x)\<lparr>sl_locked := True, sl_pid := p_pid (myproc s)\<rparr>,
         b_data := disk s b, b_valid := True\<rparr>) s))"
proof (cases "find (\<lambda>i. b_refcnt (bufs s i) = 0) (rev xs)")
  case None
  then show ?thesis by (simp add: bread_def bget_miss[OF assms])
next
  case (Some j)
  then have "b_refcnt (bufs s j) = 0" "j < NBUF"
    using find_rev_lru[OF xs] by auto
  then have "\<not> sl_locked (b_lock (bufs s j))" using inv by (auto simp: bio_inv_def buf_ok_def)
  with Some show ?thesis
    by (simp add: bread_def bget_miss[OF assms] lock_buf_def acquiresleep_def set_buf_def
        virtio_disk_rw_def set_bdata_def myproc_def)
qed

text \<open>
  The contract of \<open>bread\<close>: the buffer it returns is locked and holds the current content of
  the block, and the content of every block is as before.
\<close>

definition bread_post ::
  "u32 \<Rightarrow> 'a bio_st_scheme \<Rightarrow> nat \<Rightarrow> 'a bio_st_scheme \<Rightarrow> bool" where
  "bread_post b s i s' \<longleftrightarrow>
     bio_inv s' \<and> \<not> held s b \<and> slot (bufs s') b = Some i \<and> bdata i s' = lview s b \<and>
     lview s' = lview s \<and> brefs s' = (brefs s)(b := Suc (brefs s b)) \<and>
     held s' = (held s)(b := True) \<and> s' = s\<lparr>bufs := bufs s'\<rparr> \<and>
     (\<forall>c. brefs s c \<noteq> 0 \<longrightarrow> slot (bufs s') c = slot (bufs s) c)"

lemma bread_contract:
  assumes inv: "bio_inv s" and r: "bread ROOTDEV b s = Ok (i, s')" and sm: "brefs s b < 2 ^ 31"
  shows "bread_post b s i s'"
proof (cases "slot (bufs s) b")
  case (Some k)
  have nh: "\<not> held s b" using bread_hit_held[OF inv] r by auto
  let ?f = "\<lambda>x. x\<lparr>b_refcnt := b_refcnt x + 1,
      b_lock := (b_lock x)\<lparr>sl_locked := True, sl_pid := p_pid (myproc s)\<rparr>, b_data := lview s b, b_valid := True\<rparr>"
  from r bread_hit[OF inv Some nh] have s': "i = k" "s' = set_buf k ?f s" by auto
  note sl = bio_inv_slot[OF inv Some]
  have rc: "unat (b_refcnt (bufs s k) + 1) = Suc (brefs s b)"
    using sm Some by (simp add: brefs_def unat_word_ariths)
  then have "b_refcnt (bufs s k) + 1 \<noteq> 0" by force
  then have "buf_ok (set_buf k ?f s) k" using sl by (simp add: buf_ok_def)
  then have "bio_inv s'" "slot (bufs s') = slot (bufs s)"
    using bio_inv_set_buf[OF inv sl(1), of ?f] unfolding s' by simp_all
  moreover have "lview s' = lview s" "brefs s' = (brefs s)(b := Suc (brefs s b))"
      "held s' = (held s)(b := True)"
    using views_set_buf[OF inv Some, of ?f] rc unfolding s' by auto
  ultimately show ?thesis
    using nh Some s' by (simp add: bread_post_def bdata_def set_buf_def)
next
  case None
  from inv obtain xs where xs: "lru (bufs s) xs" by (auto simp: bio_inv_def)
  let ?f = "\<lambda>x. x\<lparr>b_dev := ROOTDEV, b_blockno := b, b_refcnt := 1,
         b_lock := (b_lock x)\<lparr>sl_locked := True, sl_pid := p_pid (myproc s)\<rparr>,
         b_data := disk s b, b_valid := True\<rparr>"
  from r bread_miss[OF inv None xs] have j: "find (\<lambda>i. b_refcnt (bufs s i) = 0) (rev xs) = Some i"
      and s': "s' = set_buf i ?f s"
    by (auto split: option.splits)
  have i: "i < NBUF" "b_refcnt (bufs s i) = 0"
    using find_rev_lru[OF xs j] by auto
  have o: "once (bufs s)" using inv by (simp add: bio_inv_def)
  note sr = slot_replace[OF o None i(1), of "?f (bufs s i)", simplified]
  have "buf_ok s' k" if "k < NBUF" for k
    using inv that by (auto simp: s' bio_inv_def buf_ok_def)
  moreover have "lru (bufs s') xs" using xs by (subst lru_cong[of _ "bufs s"]) (auto simp: s')
  moreover have "once (bufs s')"
    using once_replace[OF o None i(1), of "?f (bufs s i)"] by (simp add: s')
  ultimately have inv': "bio_inv s'" by (auto simp: bio_inv_def)
  have old: "lview s c = disk s c \<and> brefs s c = 0 \<and> \<not> held s c" if "slot (bufs s) c = Some i" for c
    using i bio_inv_slot(4)[OF inv that] that clean_unreferenced[OF inv, of c]
    by (auto simp: brefs_def held_def buf_ok_def)
  have nb: "lview s b = disk s b" "brefs s b = 0" "\<not> held s b"
    using None by (auto simp: lview_def brefs_def held_def)
  have "lview s' c = lview s c" for c
    using old[of c] nb i by (cases "slot (bufs s) c") (auto simp: s' lview_def sr)
  moreover have "brefs s' c = ((brefs s)(b := Suc (brefs s b))) c" for c
    using old[of c] nb i by (cases "slot (bufs s) c") (auto simp: s' brefs_def sr)
  moreover have "held s' c = ((held s)(b := True)) c" for c
    using old[of c] nb i by (cases "slot (bufs s) c") (auto simp: s' held_def sr)
  moreover have "slot (bufs s') c = slot (bufs s) c" if "brefs s c \<noteq> 0" for c
    using that old[of c] nb by (auto simp: s' sr)
  ultimately show ?thesis
    using inv' nb by (simp add: bread_post_def fun_eq_iff s' bdata_def sr frame)
qed

text \<open>\<open>bread\<close> does not fail while some buffer is unreferenced.\<close>

lemma bread_total:
  assumes inv: "bio_inv s" and nh: "\<not> held s b" and free: "\<exists>i<NBUF. b_refcnt (bufs s i) = 0"
  shows "\<exists>i s'. bread ROOTDEV b s = Ok (i, s')"
proof (cases "slot (bufs s) b")
  case (Some k)
  then show ?thesis using bread_hit[OF inv Some nh] by blast
next
  case None
  from inv obtain xs where xs: "lru (bufs s) xs" by (auto simp: bio_inv_def)
  have "find (\<lambda>i. b_refcnt (bufs s i) = 0) (rev xs) \<noteq> None"
    using free xs by (auto simp: find_None_iff lru_def)
  then show ?thesis using bread_miss[OF inv None xs] by (auto split: option.split)
qed

lemma bread_total_cached:
  assumes inv: "bio_inv s" and nh: "\<not> held s b" and r: "brefs s b \<noteq> 0"
  shows "\<exists>i s'. bread ROOTDEV b s = Ok (i, s')"
  using r bread_hit[OF inv _ nh] by (auto simp: brefs_def split: option.splits)

text \<open>Changing the content of a buffer that the caller has locked.\<close>

lemma set_bdata_contract:
  assumes inv: "bio_inv s" and sl: "slot (bufs s) b = Some i" and h: "held s b"
  shows "bio_inv (set_bdata i d s)" "slot (bufs (set_bdata i d s)) = slot (bufs s)"
    "lview (set_bdata i d s) = (lview s)(b := d)"
    "brefs (set_bdata i d s) = brefs s" "held (set_bdata i d s) = held s"
    "set_bdata i d s = s\<lparr>bufs := bufs (set_bdata i d s)\<rparr>" "bdata i (set_bdata i d s) = d"
proof -
  let ?f = "\<lambda>x. x\<lparr>b_data := d\<rparr>"
  note i = bio_inv_slot[OF inv sl]
  have "b_refcnt (bufs s i) \<noteq> 0" "b_valid (bufs s i)"
    using h sl i(4) by (auto simp: held_def buf_ok_def)
  then have "buf_ok (set_buf i ?f s) i" using i(4) by (simp add: buf_ok_def)
  from bio_inv_set_buf[OF inv i(1) _ _ _ _ this]
  show "bio_inv (set_bdata i d s)" "slot (bufs (set_bdata i d s)) = slot (bufs s)"
    by (simp_all add: set_bdata_def)
  note v = views_set_buf[OF inv sl, of ?f]
  show "lview (set_bdata i d s) = (lview s)(b := d)"
    using v \<open>b_valid (bufs s i)\<close> by (simp add: set_bdata_def)
  show "brefs (set_bdata i d s) = brefs s"
    using v \<open>b_valid (bufs s i)\<close> sl by (auto simp: set_bdata_def brefs_def fun_eq_iff)
  show "held (set_bdata i d s) = held s"
    using v \<open>b_valid (bufs s i)\<close> sl by (auto simp: set_bdata_def held_def fun_eq_iff)
  show "set_bdata i d s = s\<lparr>bufs := bufs (set_bdata i d s)\<rparr>" "bdata i (set_bdata i d s) = d"
    by (simp_all add: set_bdata_def set_buf_def bdata_def)
qed

text \<open>Changing the reference count of a buffer whose count does not become zero.\<close>

lemma set_refcnt_contract:
  assumes inv: "bio_inv s" and sl: "slot (bufs s) b = Some i" and r: "brefs s b \<noteq> 0" "c \<noteq> 0"
  shows "bio_inv (set_buf i (\<lambda>x. x\<lparr>b_refcnt := c\<rparr>) s)"
    "slot (bufs (set_buf i (\<lambda>x. x\<lparr>b_refcnt := c\<rparr>) s)) = slot (bufs s)" "lview (set_buf i (\<lambda>x. x\<lparr>b_refcnt := c\<rparr>) s) = lview s"
    "brefs (set_buf i (\<lambda>x. x\<lparr>b_refcnt := c\<rparr>) s) = (brefs s)(b := unat c)" "held (set_buf i (\<lambda>x. x\<lparr>b_refcnt := c\<rparr>) s) = held s"
    "set_buf i (\<lambda>x. x\<lparr>b_refcnt := c\<rparr>) s = s\<lparr>bufs := bufs (set_buf i (\<lambda>x. x\<lparr>b_refcnt := c\<rparr>) s)\<rparr>"
proof -
  note i = bio_inv_slot[OF inv sl]
  have rv: "b_refcnt (bufs s i) \<noteq> 0" "b_valid (bufs s i)"
    using r sl i(4) by (auto simp: brefs_def buf_ok_def)
  then have "buf_ok (set_buf i (\<lambda>x. x\<lparr>b_refcnt := c\<rparr>) s) i" using i(4) r(2) by (simp add: buf_ok_def)
  from bio_inv_set_buf[OF inv i(1) _ _ _ _ this]
  show "bio_inv (set_buf i (\<lambda>x. x\<lparr>b_refcnt := c\<rparr>) s)" "slot (bufs (set_buf i (\<lambda>x. x\<lparr>b_refcnt := c\<rparr>) s)) = slot (bufs s)" by simp_all
  note v = views_set_buf[OF inv sl, of "\<lambda>x. x\<lparr>b_refcnt := c\<rparr>"]
  show "lview (set_buf i (\<lambda>x. x\<lparr>b_refcnt := c\<rparr>) s) = lview s" using v rv sl by (auto simp: lview_def fun_eq_iff)
  show "brefs (set_buf i (\<lambda>x. x\<lparr>b_refcnt := c\<rparr>) s) = (brefs s)(b := unat c)" using v rv by simp
  show "held (set_buf i (\<lambda>x. x\<lparr>b_refcnt := c\<rparr>) s) = held s" using v rv sl by (auto simp: held_def fun_eq_iff)
  show "set_buf i (\<lambda>x. x\<lparr>b_refcnt := c\<rparr>) s = s\<lparr>bufs := bufs (set_buf i (\<lambda>x. x\<lparr>b_refcnt := c\<rparr>) s)\<rparr>" by (simp add: set_buf_def)
qed

lemma unat_inc: "unat (x :: u32) < 2 ^ 31 \<Longrightarrow> unat (x + 1) = Suc (unat x)"
  by (simp add: unat_word_ariths)

lemma unat_dec: "(x :: u32) \<noteq> 0 \<Longrightarrow> unat (x - 1) = unat x - 1"
  by (simp add: unat_minus_one)

lemma bpin_contract:
  assumes inv: "bio_inv s" and sl: "slot (bufs s) b = Some i" and r: "brefs s b \<noteq> 0" "brefs s b < 2 ^ 31"
  shows "bio_inv (bpin i s)" "slot (bufs (bpin i s)) = slot (bufs s)" "lview (bpin i s) = lview s"
    "brefs (bpin i s) = (brefs s)(b := Suc (brefs s b))" "held (bpin i s) = held s"
    "bpin i s = s\<lparr>bufs := bufs (bpin i s)\<rparr>"
proof -
  let ?c = "b_refcnt (bufs s i) + 1"
  have u: "unat ?c = Suc (brefs s b)" using r sl by (simp add: brefs_def unat_inc)
  then have "?c \<noteq> 0" by force
  note c = set_refcnt_contract[OF inv sl r(1) this]
  have e: "bpin i s = set_buf i (\<lambda>x. x\<lparr>b_refcnt := ?c\<rparr>) s" by (simp add: bpin_def set_buf_def)
  from c u show "bio_inv (bpin i s)" "slot (bufs (bpin i s)) = slot (bufs s)" "lview (bpin i s) = lview s"
    "brefs (bpin i s) = (brefs s)(b := Suc (brefs s b))" "held (bpin i s) = held s"
    "bpin i s = s\<lparr>bufs := bufs (bpin i s)\<rparr>"
    unfolding e by simp_all
qed

lemma bunpin_contract:
  assumes inv: "bio_inv s" and sl: "slot (bufs s) b = Some i" and r: "1 < brefs s b"
  shows "bio_inv (bunpin i s)" "slot (bufs (bunpin i s)) = slot (bufs s)" "lview (bunpin i s) = lview s"
    "brefs (bunpin i s) = (brefs s)(b := brefs s b - 1)" "held (bunpin i s) = held s"
    "bunpin i s = s\<lparr>bufs := bufs (bunpin i s)\<rparr>"
proof -
  let ?c = "b_refcnt (bufs s i) - 1"
  have "b_refcnt (bufs s i) \<noteq> 0" using r sl by (auto simp: brefs_def)
  then have u: "unat ?c = brefs s b - 1" using sl by (simp add: brefs_def unat_dec)
  then have "?c \<noteq> 0" using r by (metis unat_0 diff_is_0_eq not_le)
  moreover have "brefs s b \<noteq> 0" using r by simp
  ultimately have c: "bio_inv (set_buf i (\<lambda>x. x\<lparr>b_refcnt := ?c\<rparr>) s)"
    "slot (bufs (set_buf i (\<lambda>x. x\<lparr>b_refcnt := ?c\<rparr>) s)) = slot (bufs s)"
    "lview (set_buf i (\<lambda>x. x\<lparr>b_refcnt := ?c\<rparr>) s) = lview s"
    "brefs (set_buf i (\<lambda>x. x\<lparr>b_refcnt := ?c\<rparr>) s) = (brefs s)(b := unat ?c)"
    "held (set_buf i (\<lambda>x. x\<lparr>b_refcnt := ?c\<rparr>) s) = held s"
    using set_refcnt_contract[OF inv sl] by blast+
  have e: "bunpin i s = set_buf i (\<lambda>x. x\<lparr>b_refcnt := ?c\<rparr>) s" by (simp add: bunpin_def set_buf_def)
  from c u show "bio_inv (bunpin i s)" "slot (bufs (bunpin i s)) = slot (bufs s)"
    "lview (bunpin i s) = lview s" "brefs (bunpin i s) = (brefs s)(b := brefs s b - 1)"
    "held (bunpin i s) = held s"
    unfolding e by simp_all
  show "bunpin i s = s\<lparr>bufs := bufs (bunpin i s)\<rparr>" by (simp add: bunpin_def set_buf_def)
qed

text \<open>Releasing a buffer: the pointer updates move it to the front of the list.\<close>

definition unlinked :: "buf \<Rightarrow> buf" where
  "unlinked x = x\<lparr>b_prev := 0, b_next := 0\<rparr>"

lemma set_link_simps:
  "unlinked (bufs (set_buf i (\<lambda>x. x\<lparr>b_prev := v\<rparr>) s) j) = unlinked (bufs s j)"
  "unlinked (bufs (set_buf i (\<lambda>x. x\<lparr>b_next := v\<rparr>) s) j) = unlinked (bufs s j)"
  "nexts (bufs (set_buf i (\<lambda>x. x\<lparr>b_prev := v\<rparr>) s)) = nexts (bufs s)"
  "nexts (bufs (set_buf i (\<lambda>x. x\<lparr>b_next := v\<rparr>) s)) = (nexts (bufs s))(i := v)"
  "prevs (bufs (set_buf i (\<lambda>x. x\<lparr>b_prev := v\<rparr>) s)) = (prevs (bufs s))(i := v)"
  "prevs (bufs (set_buf i (\<lambda>x. x\<lparr>b_next := v\<rparr>) s)) = prevs (bufs s)"
  by (auto simp: unlinked_def set_buf_def fun_eq_iff)

lemma move_to_front_unlinked: "unlinked (bufs (move_to_front b s) i) = unlinked (bufs s i)"
  by (simp only: move_to_front_def Let_def set_link_simps)

lemma unlinked_eqD:
  assumes "unlinked x = unlinked y"
  shows "b_valid x = b_valid y" "b_dev x = b_dev y" "b_blockno x = b_blockno y"
    "b_lock x = b_lock y" "b_refcnt x = b_refcnt y" "b_data x = b_data y"
  using assms by (cases x, cases y, simp add: unlinked_def)+

lemmas move_to_front_fields [simp] = move_to_front_unlinked [THEN unlinked_eqD(1)]
  move_to_front_unlinked [THEN unlinked_eqD(2)] move_to_front_unlinked [THEN unlinked_eqD(3)]
  move_to_front_unlinked [THEN unlinked_eqD(4)] move_to_front_unlinked [THEN unlinked_eqD(5)]
  move_to_front_unlinked [THEN unlinked_eqD(6)]

lemma set_buf_bufs: "set_buf i f (s\<lparr>bufs := bs\<rparr>) = s\<lparr>bufs := bs(i := f (bs i))\<rparr>"
  by (simp add: set_buf_def)

lemma move_to_front_frame [frame]: "move_to_front b s = s\<lparr>bufs := bufs (move_to_front b s)\<rparr>"
proof -
  have "\<exists>bs. move_to_front b (s\<lparr>bufs := bufs s\<rparr>) = s\<lparr>bufs := bs\<rparr>"
    unfolding move_to_front_def Let_def set_buf_bufs by blast
  then obtain bs where "move_to_front b s = s\<lparr>bufs := bs\<rparr>" by auto
  then show ?thesis by simp
qed

lemma move_to_front_rest [simp]:
  "disk (move_to_front b s) = disk s" "dwrites (move_to_front b s) = dwrites s"
  "myproc (move_to_front b s) = myproc s"
  by (subst move_to_front_frame, simp)+

lemma move_to_front_links:
  assumes b: "b \<noteq> HEAD" "b_next (bufs s b) \<noteq> b" "b_prev (bufs s b) \<noteq> b"
  defines "n1 \<equiv> (nexts (bufs s))(b_prev (bufs s b) := b_next (bufs s b))"
    and "p1 \<equiv> (prevs (bufs s))(b_next (bufs s b) := b_prev (bufs s b))"
  shows "nexts (bufs (move_to_front b s)) = n1(b := n1 HEAD, HEAD := b)"
    "prevs (bufs (move_to_front b s)) = p1(b := HEAD, n1 HEAD := b)"
proof -
  define s1 where "s1 = set_buf (b_next (bufs s b)) (\<lambda>x. x\<lparr>b_prev := b_prev (bufs s b)\<rparr>) s"
  define s2 where "s2 = set_buf (b_prev (bufs s1 b)) (\<lambda>x. x\<lparr>b_next := b_next (bufs s1 b)\<rparr>) s1"
  define s3 where "s3 = set_buf b (\<lambda>x. x\<lparr>b_next := b_next (bufs s2 HEAD)\<rparr>) s2"
  define s4 where "s4 = set_buf b (\<lambda>x. x\<lparr>b_prev := HEAD\<rparr>) s3"
  define s5 where "s5 = set_buf (b_next (bufs s4 HEAD)) (\<lambda>x. x\<lparr>b_prev := b\<rparr>) s4"
  have m: "move_to_front b s = set_buf HEAD (\<lambda>x. x\<lparr>b_next := b\<rparr>) s5"
    unfolding move_to_front_def Let_def s5_def s4_def s3_def s2_def s1_def ..
  have 1: "nexts (bufs s1) = nexts (bufs s)" "prevs (bufs s1) = p1"
    unfolding s1_def p1_def by (simp_all only: set_link_simps)
  then have f: "b_prev (bufs s1 b) = b_prev (bufs s b)" "b_next (bufs s1 b) = b_next (bufs s b)"
    using b fun_cong[OF 1(1), of b] fun_cong[OF 1(2), of b] by (simp_all add: p1_def)
  have 2: "nexts (bufs s2) = n1" "prevs (bufs s2) = p1"
    unfolding s2_def f n1_def by (simp_all only: set_link_simps 1)
  have g: "b_next (bufs s2 HEAD) = n1 HEAD" by (rule fun_cong[OF 2(1)])
  have 3: "nexts (bufs s3) = n1(b := n1 HEAD)" "prevs (bufs s3) = p1"
    unfolding s3_def g by (simp_all only: set_link_simps 2)
  then have 4: "nexts (bufs s4) = n1(b := n1 HEAD)" "prevs (bufs s4) = p1(b := HEAD)"
    unfolding s4_def by (simp_all only: set_link_simps)
  then have h: "b_next (bufs s4 HEAD) = n1 HEAD" using b(1) fun_cong[OF 4(1), of HEAD] by simp
  have 5: "nexts (bufs s5) = n1(b := n1 HEAD)" "prevs (bufs s5) = p1(b := HEAD, n1 HEAD := b)"
    unfolding s5_def h by (simp_all only: set_link_simps 4)
  then show "nexts (bufs (move_to_front b s)) = n1(b := n1 HEAD, HEAD := b)"
    "prevs (bufs (move_to_front b s)) = p1(b := HEAD, n1 HEAD := b)"
    unfolding m by (simp_all only: set_link_simps)
qed

lemma move_to_front_lru:
  assumes xs: "lru (bufs s) xs" and b: "b < NBUF"
  shows "lru (bufs (move_to_front b s)) (b # remove1 b xs)"
proof -
  from xs b obtain as cs where ac: "xs = as @ b # cs"
    by (metis lru_def lessThan_iff split_list)
  let ?n = "nexts (bufs s)" and ?p = "prevs (bufs s)"
  have l: "linked ?n ?p HEAD (as @ b # cs) HEAD" and d: "distinct (HEAD # as @ b # cs)"
    using xs ac by (auto simp: lru_def)
  have r: "remove1 b xs = as @ cs" using d ac by (simp add: remove1_append)
  have "?n b = hd (cs @ [HEAD])" "?p b = last (HEAD # as)"
    using l linked_ends[of ?n ?p b cs HEAD] linked_ends[of ?n ?p HEAD as b]
    by (auto simp: linked_append)
  then have nb: "?n b \<noteq> b" "?p b \<noteq> b"
    using d by (cases cs; auto)+
  let ?n1 = "?n(?p b := ?n b)" and ?p1 = "?p(?n b := ?p b)"
  have "linked ?n1 ?p1 HEAD (as @ cs) HEAD" by (rule linked_remove[OF l d])
  then have "linked (?n1(b := ?n1 HEAD, HEAD := b)) (?p1(b := HEAD, ?n1 HEAD := b)) HEAD
      (b # as @ cs) HEAD"
    by (rule linked_insert) (use d in auto)
  moreover have "b \<noteq> HEAD" using b by simp
  ultimately have "linked (nexts (bufs (move_to_front b s))) (prevs (bufs (move_to_front b s))) HEAD
      (b # as @ cs) HEAD"
    unfolding move_to_front_links[OF \<open>b \<noteq> HEAD\<close> nb] by (simp add: Let_def)
  then show ?thesis using xs ac d r by (auto simp: lru_def)
qed

lemma views_same_fields:
  assumes "\<And>i. i < NBUF \<Longrightarrow> b_valid (bs' i) = b_valid (bufs s i) \<and> b_dev (bs' i) = b_dev (bufs s i) \<and>
      b_blockno (bs' i) = b_blockno (bufs s i) \<and> b_lock (bs' i) = b_lock (bufs s i) \<and>
      b_refcnt (bs' i) = b_refcnt (bufs s i) \<and> b_data (bs' i) = b_data (bufs s i)"
    and "once (bufs s)"
  shows "lview (s\<lparr>bufs := bs'\<rparr>) = lview s" "brefs (s\<lparr>bufs := bs'\<rparr>) = brefs s"
    "held (s\<lparr>bufs := bs'\<rparr>) = held s" "slot bs' = slot (bufs s)"
proof -
  show sc: "slot bs' = slot (bufs s)" using assms(1) by (intro slot_cong) simp
  have lt: "i < NBUF" if "slot (bufs s) c = Some i" for i c
    using that slot_iff[OF assms(2)] by simp
  show "lview (s\<lparr>bufs := bs'\<rparr>) = lview s" "brefs (s\<lparr>bufs := bs'\<rparr>) = brefs s"
    "held (s\<lparr>bufs := bs'\<rparr>) = held s"
    using assms(1)[OF lt] by (auto simp: lview_def brefs_def held_def sc fun_eq_iff split: option.split)
qed

lemma move_to_front_contract:
  assumes inv: "bio_inv s" and b: "b < NBUF"
  shows "bio_inv (move_to_front b s)" "lview (move_to_front b s) = lview s"
    "brefs (move_to_front b s) = brefs s" "held (move_to_front b s) = held s"
    "slot (bufs (move_to_front b s)) = slot (bufs s)"
proof -
  have o: "once (bufs s)" using inv by (simp add: bio_inv_def)
  note v = views_same_fields[of "bufs (move_to_front b s)" s, OF _ o, simplified,
      folded move_to_front_frame]
  show "lview (move_to_front b s) = lview s" "brefs (move_to_front b s) = brefs s"
    "held (move_to_front b s) = held s" "slot (bufs (move_to_front b s)) = slot (bufs s)"
    using v by auto
  have "once (bufs (move_to_front b s))" using o by (subst once_cong[of _ "bufs s"]) auto
  moreover have "\<forall>i<NBUF. buf_ok (move_to_front b s) i"
    using inv by (simp add: bio_inv_def buf_ok_def)
  moreover obtain xs where "lru (bufs s) xs" using inv by (auto simp: bio_inv_def)
  ultimately show "bio_inv (move_to_front b s)"
    using move_to_front_lru[of s xs b] b by (auto simp: bio_inv_def)
qed

lemma brelse_contract:
  assumes inv: "bio_inv s" and sl: "slot (bufs s) b = Some i" and h: "held s b"
    and clean: "brefs s b = 1 \<Longrightarrow> lview s b = disk s b"
  shows "\<exists>s'. brelse i s = Ok s' \<and> bio_inv s' \<and> slot (bufs s') = slot (bufs s) \<and> lview s' = lview s \<and>
    brefs s' = (brefs s)(b := brefs s b - 1) \<and> held s' = (held s)(b := False) \<and>
    s' = s\<lparr>bufs := bufs s'\<rparr>"
proof -
  note i = bio_inv_slot[OF inv sl]
  have rv: "b_refcnt (bufs s i) \<noteq> 0" "b_valid (bufs s i)" "holdingsleep (b_lock (bufs s i)) s"
    using h sl i(4) by (auto simp: held_def buf_ok_def holdingsleep_def)
  let ?f = "\<lambda>x. x\<lparr>b_lock := releasesleep (b_lock x), b_refcnt := b_refcnt x - 1\<rparr>"
  let ?t = "set_buf i ?f s"
  have u: "unat (b_refcnt (bufs s i) - 1) = brefs s b - 1"
    using rv(1) sl by (simp add: brefs_def unat_dec)
  have lv: "lview s b = b_data (bufs s i)" using sl rv by (simp add: lview_def)
  have "b_refcnt (bufs s i) - 1 = 0 \<Longrightarrow> b_data (bufs s i) = disk s b"
    using clean sl lv by (simp add: brefs_def)
  then have "buf_ok ?t i" using i rv by (simp add: buf_ok_def releasesleep_def)
  from bio_inv_set_buf[OF inv i(1) _ _ _ _ this]
  have t: "bio_inv ?t" "slot (bufs ?t) = slot (bufs s)" by simp_all
  have v: "lview ?t = lview s" "brefs ?t = (brefs s)(b := brefs s b - 1)" "held ?t = (held s)(b := False)"
    using views_set_buf[OF inv sl, of ?f] u lv rv by (auto simp: releasesleep_def)
  have "brelse i s = Ok (if b_refcnt (bufs ?t i) = 0 then move_to_front i ?t else ?t)"
    using rv(3) by (simp add: brelse_def Let_def set_buf_def)
  moreover have "?t = s\<lparr>bufs := bufs ?t\<rparr>" by (simp add: set_buf_def)
  moreover have "move_to_front i ?t = s\<lparr>bufs := bufs (move_to_front i ?t)\<rparr>"
    by (subst move_to_front_frame) (simp add: set_buf_def)
  ultimately show ?thesis using move_to_front_contract[OF t(1) i(1)] t v by auto
qed

lemma bwrite_contract:
  assumes inv: "bio_inv s" and sl: "slot (bufs s) b = Some i" and h: "held s b"
  shows "\<exists>s'. bwrite i s = Ok s' \<and> bio_inv s' \<and> bufs s' = bufs s \<and> lview s' = lview s \<and>
    brefs s' = brefs s \<and> held s' = held s \<and>
    s' = s\<lparr>disk := (disk s)(b := lview s b), dwrites := dwrites s @ [(b, lview s b)]\<rparr>"
proof -
  note i = bio_inv_slot[OF inv sl]
  have rv: "b_refcnt (bufs s i) \<noteq> 0" "b_valid (bufs s i)" "holdingsleep (b_lock (bufs s i)) s"
    using h sl i(4) by (auto simp: held_def buf_ok_def holdingsleep_def)
  have lv: "lview s b = b_data (bufs s i)" using sl rv by (simp add: lview_def)
  let ?t = "s\<lparr>disk := (disk s)(b := lview s b), dwrites := dwrites s @ [(b, lview s b)]\<rparr>"
  have "bwrite i s = Ok ?t" using rv(3) lv i(3) by (simp add: bwrite_def virtio_disk_rw_def Let_def)
  moreover have "b_blockno (bufs s j) \<noteq> b" if "j < NBUF" "b_dev (bufs s j) = ROOTDEV" "j \<noteq> i" for j
    using that i inv by (auto simp: bio_inv_def once_def)
  then have "buf_ok ?t j" if "j < NBUF" for j
    using inv that rv by (cases "j = i") (auto simp: bio_inv_def buf_ok_def)
  then have "bio_inv ?t" using inv by (simp add: bio_inv_def)
  moreover have "lview ?t = lview s"
  proof
    fix c show "lview ?t c = lview s c"
      using sl rv lv i bio_inv_slot(3)[OF inv, of c] by (cases "c = b") (auto simp: lview_def split: option.split)
  qed
  moreover have "brefs ?t = brefs s" "held ?t = held s" by (auto simp: brefs_def held_def fun_eq_iff split: option.split)
  ultimately show ?thesis by simp
qed

end
