(* ===== verification/Cache.thy ===== *)
theory Cache
  imports Bio
begin

text \<open>
  The contract of the buffer cache towards its clients (\<open>log.c\<close>, \<open>fs.c\<close>).

  \<open>bio_ok P H s\<close> describes a state of the cache completely, as far as a client can tell: the
  blocks in \<open>P\<close> are pinned once by the log, the blocks in \<open>H\<close> are locked by the running
  process, and every other block is unreferenced, hence clean.  Each operation of \<open>bio.c\<close> is
  characterised by what it does to \<open>P\<close>, \<open>H\<close>, the logical content and the disk, and it is
  shown to return: \<open>bread\<close> finds a buffer as long as fewer than \<open>NBUF\<close> blocks are referenced.
  \<open>binit\<close> establishes the contract with nothing pinned and nothing locked.
\<close>

definition bio_ok :: "u32 set \<Rightarrow> u32 set \<Rightarrow> 'a bio_st_scheme \<Rightarrow> bool" where
  "bio_ok P H s \<longleftrightarrow> bio_inv s \<and>
     (\<forall>b. held s b \<longleftrightarrow> b \<in> H) \<and> (\<forall>b. brefs s b = of_bool (b \<in> P) + of_bool (b \<in> H))"

lemma bio_okD:
  assumes "bio_ok P H s"
  shows "bio_inv s" "held s b \<longleftrightarrow> b \<in> H" "brefs s b = of_bool (b \<in> P) + of_bool (b \<in> H)"
  using assms by (auto simp: bio_ok_def)

lemma bio_ok_clean: "bio_ok P H s \<Longrightarrow> b \<notin> P \<Longrightarrow> b \<notin> H \<Longrightarrow> lview s b = disk s b"
  by (rule clean_unreferenced) (auto simp: bio_ok_def)

lemma bio_ok_slot:
  assumes "bio_ok P H s" and "b \<in> P \<union> H"
  obtains i where "slot (bufs s) b = Some i"
  using assms bio_okD(3)[OF assms(1), of b] by (auto simp: brefs_def split: option.splits)

text \<open>Fewer than \<open>NBUF\<close> referenced blocks leave a buffer unreferenced.\<close>

lemma free_slot:
  assumes ok: "bio_ok P H s" and fin: "finite (P \<union> H)" and few: "card (P \<union> H) < NBUF"
  shows "\<exists>i<NBUF. b_refcnt (bufs s i) = 0"
proof (rule ccontr)
  assume "\<not> ?thesis"
  then have all: "b_refcnt (bufs s i) \<noteq> 0" if "i < NBUF" for i using that by auto
  have inv: "bio_inv s" using ok by (simp add: bio_ok_def)
  have dev: "b_dev (bufs s i) = ROOTDEV" if "i < NBUF" for i
    using all[OF that] inv that by (auto simp: bio_inv_def buf_ok_def)
  have "inj_on (\<lambda>i. b_blockno (bufs s i)) {..<NBUF}"
    using inv dev by (auto simp: inj_on_def bio_inv_def once_def)
  moreover have "b_blockno (bufs s i) \<in> P \<union> H" if "i < NBUF" for i
  proof -
    have "slot (bufs s) (b_blockno (bufs s i)) = Some i"
      using that dev inv by (subst slot_iff) (auto simp: bio_inv_def caches_def)
    then have "brefs s (b_blockno (bufs s i)) \<noteq> 0"
      using all[OF that] by (simp add: brefs_def unat_eq_zero)
    then show ?thesis using bio_okD(3)[OF ok] by auto
  qed
  then have "(\<lambda>i. b_blockno (bufs s i)) ` {..<NBUF} \<subseteq> P \<union> H" by auto
  ultimately have "card {..<NBUF} \<le> card (P \<union> H)" by (meson card_inj_on_le fin)
  then show False using few by simp
qed

section \<open>The operations\<close>

lemma bread_ok:
  assumes ok: "bio_ok P H s" and b: "b \<notin> H"
    and free: "b \<in> P \<or> finite (P \<union> H) \<and> card (P \<union> H) < NBUF"
  obtains i s' where "bread ROOTDEV b s = Ok (i, s')" "bio_ok P (insert b H) s'"
    "slot (bufs s') b = Some i" "\<And>c. c \<in> P \<union> H \<Longrightarrow> slot (bufs s') c = slot (bufs s) c"
    "lview s' = lview s" "bdata i s' = lview s b" "s' = s\<lparr>bufs := bufs s'\<rparr>"
proof -
  have inv: "bio_inv s" and nh: "\<not> held s b" using ok b by (auto simp: bio_ok_def)
  have "\<exists>i s'. bread ROOTDEV b s = Ok (i, s')"
    using free free_slot[OF ok] bread_total[OF inv nh] bread_total_cached[OF inv nh]
      bio_okD(3)[OF ok, of b] by auto
  then obtain i s' where r: "bread ROOTDEV b s = Ok (i, s')" by blast
  have "brefs s b < 2 ^ 31" using bio_okD(3)[OF ok, of b] by simp
  from bread_contract[OF inv r this]
  have p: "bio_inv s'" "slot (bufs s') b = Some i" "bdata i s' = lview s b" "lview s' = lview s"
     "brefs s' = (brefs s)(b := Suc (brefs s b))" "held s' = (held s)(b := True)"
     "s' = s\<lparr>bufs := bufs s'\<rparr>" "\<And>c. brefs s c \<noteq> 0 \<Longrightarrow> slot (bufs s') c = slot (bufs s) c"
    unfolding bread_post_def by blast+
  have "bio_ok P (insert b H) s'"
    using p(1) b bio_okD(2,3)[OF ok] unfolding bio_ok_def p(5,6) by simp
  moreover have "slot (bufs s') c = slot (bufs s) c" if "c \<in> P \<union> H" for c
    using that p(8) bio_okD(3)[OF ok, of c] by auto
  ultimately show ?thesis using that r p by blast
qed

lemma set_bdata_ok:
  assumes ok: "bio_ok P H s" and b: "b \<in> H" and sl: "slot (bufs s) b = Some i"
  shows "bio_ok P H (set_bdata i d s)" "slot (bufs (set_bdata i d s)) = slot (bufs s)"
    "lview (set_bdata i d s) = (lview s)(b := d)"
    "set_bdata i d s = s\<lparr>bufs := bufs (set_bdata i d s)\<rparr>" "bdata i (set_bdata i d s) = d"
proof -
  have "bio_inv s" "held s b" using ok b by (auto simp: bio_ok_def)
  note c = set_bdata_contract[OF this(1) sl this(2), of d]
  show "bio_ok P H (set_bdata i d s)" using c(1) bio_okD(2,3)[OF ok] unfolding bio_ok_def c(4,5) by blast
  show "slot (bufs (set_bdata i d s)) = slot (bufs s)" "lview (set_bdata i d s) = (lview s)(b := d)"
    "set_bdata i d s = s\<lparr>bufs := bufs (set_bdata i d s)\<rparr>" "bdata i (set_bdata i d s) = d"
    using c(2,3,6,7) by blast+
qed

lemma bdata_lview:
  assumes ok: "bio_ok P H s" and b: "b \<in> H" and sl: "slot (bufs s) b = Some i"
  shows "bdata i s = lview s b"
  using bio_inv_slot(4)[OF bio_okD(1)[OF ok] sl] bio_okD(2)[OF ok, of b] b sl
  by (auto simp: lview_def bdata_def held_def buf_ok_def)

lemma bwrite_ok:
  assumes ok: "bio_ok P H s" and b: "b \<in> H" and sl: "slot (bufs s) b = Some i"
  obtains s' where "bwrite i s = Ok s'" "bio_ok P H s'" "bufs s' = bufs s" "lview s' = lview s"
    "s' = s\<lparr>disk := (disk s)(b := lview s b), dwrites := dwrites s @ [(b, lview s b)]\<rparr>"
proof -
  have "bio_inv s" "held s b" using ok b by (auto simp: bio_ok_def)
  from bwrite_contract[OF this(1) sl this(2)] obtain s' where p: "bwrite i s = Ok s'" "bio_inv s'"
    "bufs s' = bufs s" "lview s' = lview s" "brefs s' = brefs s" "held s' = held s"
    "s' = s\<lparr>disk := (disk s)(b := lview s b), dwrites := dwrites s @ [(b, lview s b)]\<rparr>" by blast
  have "bio_ok P H s'" using p(2) bio_okD(2,3)[OF ok] unfolding bio_ok_def p(5,6) by blast
  then show ?thesis using that p by blast
qed

lemma bpin_ok:
  assumes ok: "bio_ok P H s" and b: "b \<in> H" "b \<notin> P" and sl: "slot (bufs s) b = Some i"
  shows "bio_ok (insert b P) H (bpin i s)" "slot (bufs (bpin i s)) = slot (bufs s)"
    "lview (bpin i s) = lview s" "bpin i s = s\<lparr>bufs := bufs (bpin i s)\<rparr>"
proof -
  have inv: "bio_inv s" using ok by (simp add: bio_ok_def)
  have r: "brefs s b = 1" using bio_okD(3)[OF ok, of b] b by simp
  note c = bpin_contract[OF inv sl, unfolded r, simplified]
  show "bio_ok (insert b P) H (bpin i s)"
    using c(1) b bio_okD(2,3)[OF ok] unfolding bio_ok_def c(4,5) by auto
  show "slot (bufs (bpin i s)) = slot (bufs s)" "lview (bpin i s) = lview s"
    "bpin i s = s\<lparr>bufs := bufs (bpin i s)\<rparr>" using c(2,3,6) by blast+
qed

lemma bunpin_ok:
  assumes ok: "bio_ok P H s" and b: "b \<in> H" "b \<in> P" and sl: "slot (bufs s) b = Some i"
  shows "bio_ok (P - {b}) H (bunpin i s)" "slot (bufs (bunpin i s)) = slot (bufs s)"
    "lview (bunpin i s) = lview s" "bunpin i s = s\<lparr>bufs := bufs (bunpin i s)\<rparr>"
proof -
  have inv: "bio_inv s" using ok by (simp add: bio_ok_def)
  have r: "brefs s b = 2" using bio_okD(3)[OF ok, of b] b by simp
  note c = bunpin_contract[OF inv sl, unfolded r, simplified]
  show "bio_ok (P - {b}) H (bunpin i s)"
    using c(1) b bio_okD(2,3)[OF ok] unfolding bio_ok_def c(4,5) by auto
  show "slot (bufs (bunpin i s)) = slot (bufs s)" "lview (bunpin i s) = lview s"
    "bunpin i s = s\<lparr>bufs := bufs (bunpin i s)\<rparr>" using c(2,3,6) by blast+
qed

lemma brelse_ok:
  assumes ok: "bio_ok P H s" and b: "b \<in> H" and sl: "slot (bufs s) b = Some i"
    and clean: "b \<in> P \<or> lview s b = disk s b"
  obtains s' where "brelse i s = Ok s'" "bio_ok P (H - {b}) s'" "slot (bufs s') = slot (bufs s)"
    "lview s' = lview s" "s' = s\<lparr>bufs := bufs s'\<rparr>"
proof -
  have inv: "bio_inv s" and h: "held s b" using ok b by (auto simp: bio_ok_def)
  have "brefs s b = 1 \<Longrightarrow> lview s b = disk s b"
    using bio_okD(3)[OF ok, of b] b clean by (auto split: if_splits)
  from brelse_contract[OF inv sl h this] obtain s' where p: "brelse i s = Ok s'" "bio_inv s'"
    "slot (bufs s') = slot (bufs s)" "lview s' = lview s" "brefs s' = (brefs s)(b := brefs s b - 1)"
    "held s' = (held s)(b := False)" "s' = s\<lparr>bufs := bufs s'\<rparr>" by blast
  have "bio_ok P (H - {b}) s'"
    using p(2) b bio_okD(2,3)[OF ok] unfolding bio_ok_def p(5,6) by auto
  then show ?thesis using that p by blast
qed

section \<open>Initialisation\<close>

lemma binit_link_links:
  fixes s :: "'a bio_st_scheme"
  assumes b: "b \<noteq> HEAD"
  defines "n \<equiv> nexts (bufs s)" and "p \<equiv> prevs (bufs s)"
  shows "nexts (bufs (binit_link b s)) = n(b := n HEAD, HEAD := b)"
    "prevs (bufs (binit_link b s)) = p(b := HEAD, n HEAD := b)"
proof -
  define s1 where "s1 = set_buf b (\<lambda>x. x\<lparr>b_next := b_next (bufs s HEAD)\<rparr>) s"
  define s2 where "s2 = set_buf b (\<lambda>x. x\<lparr>b_prev := HEAD\<rparr>) s1"
  define s3 where "s3 = set_buf b (\<lambda>x. x\<lparr>b_lock := initsleeplock\<rparr>) s2"
  define s4 where "s4 = set_buf (b_next (bufs s3 HEAD)) (\<lambda>x. x\<lparr>b_prev := b\<rparr>) s3"
  have m: "binit_link b s = set_buf HEAD (\<lambda>x. x\<lparr>b_next := b\<rparr>) s4"
    unfolding binit_link_def Let_def s4_def s3_def s2_def s1_def ..
  have 2: "nexts (bufs s2) = n(b := n HEAD)" "prevs (bufs s2) = p(b := HEAD)"
    unfolding s2_def s1_def n_def p_def by (simp_all only: set_link_simps)
  have 3: "nexts (bufs s3) = n(b := n HEAD)" "prevs (bufs s3) = p(b := HEAD)"
    using 2 by (auto simp: s3_def fun_eq_iff)
  have h: "b_next (bufs s3 HEAD) = n HEAD" using fun_cong[OF 3(1), of HEAD] b by simp
  have 4: "nexts (bufs s4) = n(b := n HEAD)" "prevs (bufs s4) = p(b := HEAD, n HEAD := b)"
    unfolding s4_def h by (simp_all only: set_link_simps 3)
  show "nexts (bufs (binit_link b s)) = n(b := n HEAD, HEAD := b)"
    "prevs (bufs (binit_link b s)) = p(b := HEAD, n HEAD := b)"
    unfolding m by (simp_all only: set_link_simps 4)
qed

text \<open>Everything but the links and the lock of the buffers is left alone.\<close>

definition fresh :: "buf \<Rightarrow> bool" where
  "fresh x \<longleftrightarrow> \<not> b_valid x \<and> b_dev x = 0 \<and> b_refcnt x = 0 \<and> \<not> sl_locked (b_lock x)"

lemma fresh_set_buf:
  "\<forall>j. fresh (bufs s j) \<Longrightarrow> (\<And>x. fresh x \<Longrightarrow> fresh (f x)) \<Longrightarrow> \<forall>j. fresh (bufs (set_buf i f s) j)"
  by simp

lemma binit_link_fresh: "\<forall>j. fresh (bufs s j) \<Longrightarrow> \<forall>j. fresh (bufs (binit_link b s) j)"
  unfolding binit_link_def Let_def
  by (intro fresh_set_buf; (assumption | simp add: fresh_def initsleeplock_def))

lemma binit_link_frame: "\<exists>bs. binit_link b s = s\<lparr>bufs := bs\<rparr>"
proof -
  have "\<exists>bs. binit_link b (s\<lparr>bufs := bufs s\<rparr>) = s\<lparr>bufs := bs\<rparr>"
    unfolding binit_link_def Let_def set_buf_bufs by blast
  then show ?thesis by simp
qed

lemma binit_loop:
  assumes "linked (nexts (bufs s)) (prevs (bufs s)) HEAD [] HEAD" "\<forall>j. fresh (bufs s j)" "k \<le> NBUF"
  shows "linked (nexts (bufs (fold binit_link [0..<k] s))) (prevs (bufs (fold binit_link [0..<k] s)))
      HEAD (rev [0..<k]) HEAD \<and> (\<forall>j. fresh (bufs (fold binit_link [0..<k] s) j)) \<and>
      (\<exists>bs. fold binit_link [0..<k] s = s\<lparr>bufs := bs\<rparr>)"
  using assms(3)
proof (induction k)
  case 0
  have "s = s\<lparr>bufs := bufs s\<rparr>" by simp
  with assms(1,2) show ?case by (metis fold_simps(1) id_apply rev.simps(1) upt_0)
next
  case (Suc k)
  let ?t = "fold binit_link [0..<k] s"
  from Suc have l: "linked (nexts (bufs ?t)) (prevs (bufs ?t)) HEAD (rev [0..<k]) HEAD"
    and f: "\<forall>j. fresh (bufs ?t j)" and e: "\<exists>bs. ?t = s\<lparr>bufs := bs\<rparr>" by auto
  have k: "k \<noteq> HEAD" using Suc.prems by simp
  have "linked (nexts (bufs (binit_link k ?t))) (prevs (bufs (binit_link k ?t))) HEAD (k # rev [0..<k]) HEAD"
    unfolding binit_link_links[OF k] using Suc.prems by (intro linked_insert[OF l]) auto
  moreover have "\<exists>bs. binit_link k ?t = s\<lparr>bufs := bs\<rparr>"
    using e binit_link_frame[of k ?t] by force
  ultimately show ?case using binit_link_fresh[OF f] by simp
qed

text \<open>The cache the kernel starts with, after static initialisation to zero.\<close>

lemma binit_ok:
  assumes f: "\<forall>j. fresh (bufs s j)"
  shows "bio_ok {} {} (binit s) \<and> lview (binit s) = disk s \<and> binit s = s\<lparr>bufs := bufs (binit s)\<rparr>"
proof -
  let ?t = "set_buf HEAD (\<lambda>x. x\<lparr>b_next := HEAD\<rparr>) (set_buf HEAD (\<lambda>x. x\<lparr>b_prev := HEAD\<rparr>) s)"
  have e: "binit s = fold binit_link [0..<NBUF] ?t" by (simp add: binit_def Let_def)
  have "linked (nexts (bufs ?t)) (prevs (bufs ?t)) HEAD [] HEAD" by simp
  moreover have "\<forall>j. fresh (bufs ?t j)" by (intro fresh_set_buf f) (auto simp: fresh_def)
  ultimately have l: "linked (nexts (bufs (binit s))) (prevs (bufs (binit s))) HEAD (rev [0..<NBUF]) HEAD"
    and fr: "\<And>j. fresh (bufs (binit s) j)" and fm: "\<exists>bs. binit s = ?t\<lparr>bufs := bs\<rparr>"
    using binit_loop[of ?t NBUF] unfolding e by simp_all
  have fm': "binit s = s\<lparr>bufs := bufs (binit s)\<rparr>" using fm by (auto simp: set_buf_def)
  have nd: "b_dev (bufs (binit s) j) \<noteq> ROOTDEV" for j using fr[of j] by (simp add: fresh_def ROOTDEV_def)
  have sl: "slot (bufs (binit s)) b = None" for b using nd by (simp add: slot_None_iff caches_def)
  have "lru (bufs (binit s)) (rev [0..<NBUF])" using l by (auto simp: lru_def)
  moreover have "once (bufs (binit s))" using nd by (simp add: once_def)
  moreover have "buf_ok (binit s) j" for j using fr[of j] by (simp add: buf_ok_def fresh_def)
  ultimately have "bio_inv (binit s)" by (auto simp: bio_inv_def)
  moreover have "disk (binit s) = disk s" by (subst fm') simp
  ultimately show ?thesis
    using fm' sl by (simp add: bio_ok_def held_def brefs_def lview_def fun_eq_iff)
qed

end
