(* ===== verification/Layout.thy ===== *)
theory Layout
  imports Cache
begin

text \<open>
  The on-disk format (\<open>kernel/fs.h\<close>, \<open>kernel/param.h\<close>, \<open>kernel/stat.h\<close>): the superblock, the
  disk inode, the directory entry and the position of each of their fields in a block.

  A structure is written with C's layout for RISC-V: a field starts at a multiple of its
  size, so \<open>struct dinode\<close> has its 125 bytes of fields padded to 128 and there are 8 inodes
  in a block.  \<open>get_\<close> functions read the structure that starts at a byte of a block and
  \<open>put_\<close> functions write it there.  The lemmas say that reading gives back what was written
  and that writing one structure does not touch another one in the same block.
\<close>

section \<open>Parameters\<close>

definition ROOTINO :: u32 where "ROOTINO = 1"
definition MAXOPBLOCKS :: nat where "MAXOPBLOCKS = 15"
definition LOGSIZE :: nat where "LOGSIZE = MAXOPBLOCKS * 3"
definition NINODE :: nat where "NINODE = 50"
definition NFILE :: nat where "NFILE = 100"
definition NDEV :: nat where "NDEV = 10"
definition MAXPATH :: nat where "MAXPATH = 128"
definition FSMAGIC :: u32 where "FSMAGIC = 0x10203040"
definition NDIRECT :: nat where "NDIRECT = 12"
definition NINDIRECT :: nat where "NINDIRECT = BSIZE div 4"
definition MAXFILE :: nat where
  "MAXFILE = NDIRECT + NINDIRECT + NINDIRECT * NINDIRECT + NINDIRECT * NINDIRECT * NINDIRECT"
definition RW :: u32 where "RW = 3"
definition W_mode :: u32 where "W_mode = 1"
definition R_mode :: u32 where "R_mode = 2"
definition NONE_mode :: u32 where "NONE_mode = 0"
definition DIRSIZ :: nat where "DIRSIZ = 14"
definition HASHRANGE :: u32 where "HASHRANGE = 443"
definition MAXFSIZE :: nat where "MAXFSIZE = 119 * BSIZE"
definition FIRST_LAYER_NODE_NUM :: nat where "FIRST_LAYER_NODE_NUM = 112"
definition OVERFLOW_BLOCK :: nat where "OVERFLOW_BLOCK = FIRST_LAYER_NODE_NUM + 1"

text \<open>File types of \<open>stat.h\<close>.\<close>

definition T_DIR :: u16 where "T_DIR = 1"
definition T_FILE :: u16 where "T_FILE = 2"
definition T_DEVICE :: u16 where "T_DEVICE = 3"
definition T_SYMLINK :: u16 where "T_SYMLINK = 4"
definition T_EXTENT :: u16 where "T_EXTENT = 5"

lemmas params = ROOTINO_def MAXOPBLOCKS_def LOGSIZE_def NINODE_def NFILE_def NDEV_def MAXPATH_def
  NDIRECT_def NINDIRECT_def BSIZE_def NBUF_def DIRSIZ_def

section \<open>The superblock\<close>

record superblock =
  sb_magic :: u32
  sb_size :: u32
  sb_nblocks :: u32
  sb_ninodes :: u32
  sb_nlog :: u32
  sb_logstart :: u32
  sb_inodestart :: u32
  sb_bmapstart :: u32
  sb_ibmapstart :: u32
  sb_freeinodes :: u32
  sb_freeblocks :: u32

definition get_superblock :: "bytes \<Rightarrow> superblock" where
  "get_superblock d =
     \<lparr>sb_magic = get32 d 0, sb_size = get32 d 4, sb_nblocks = get32 d 8, sb_ninodes = get32 d 12,
      sb_nlog = get32 d 16, sb_logstart = get32 d 20, sb_inodestart = get32 d 24,
      sb_bmapstart = get32 d 28, sb_ibmapstart = get32 d 32, sb_freeinodes = get32 d 36,
      sb_freeblocks = get32 d 40\<rparr>"

definition put_superblock :: "bytes \<Rightarrow> superblock \<Rightarrow> bytes" where
  "put_superblock d x =
     put32 (put32 (put32 (put32 (put32 (put32 (put32 (put32 (put32 (put32 (put32 d
       0 (sb_magic x)) 4 (sb_size x)) 8 (sb_nblocks x)) 12 (sb_ninodes x))
       16 (sb_nlog x)) 20 (sb_logstart x)) 24 (sb_inodestart x))
       28 (sb_bmapstart x)) 32 (sb_ibmapstart x)) 36 (sb_freeinodes x)) 40 (sb_freeblocks x)"

section \<open>Disk inodes\<close>

definition DINODE_SIZE :: nat where "DINODE_SIZE = 128"
definition IPB :: nat where "IPB = BSIZE div DINODE_SIZE"
definition BPB :: nat where "BPB = BSIZE * 8"

definition IBLOCK :: "u32 \<Rightarrow> superblock \<Rightarrow> u32" where
  "IBLOCK i sb = i div of_nat IPB + sb_inodestart sb"

definition BBLOCK :: "u32 \<Rightarrow> superblock \<Rightarrow> u32" where
  "BBLOCK b sb = b div of_nat BPB + sb_bmapstart sb"

definition IBBLOCK :: "u32 \<Rightarrow> superblock \<Rightarrow> u32" where
  "IBBLOCK i sb = i div of_nat BPB + sb_ibmapstart sb"

record dinode =
  d_type :: u16
  d_major :: u16
  d_minor :: u16
  d_nlink :: u16
  d_size :: u32
  d_rwmode :: u32
  d_supermode :: u32
  d_addrs :: "nat \<Rightarrow> u32"
  d_showmode :: u32

text \<open>The array \<open>addrs\<close> has \<open>NDIRECT + 3\<close> entries; beyond them the function is 0.\<close>

definition get_words :: "nat \<Rightarrow> bytes \<Rightarrow> nat \<Rightarrow> nat \<Rightarrow> u32" where
  "get_words k d o' = (\<lambda>i. if i < k then get32 d (o' + 4 * i) else 0)"

fun put_words :: "nat \<Rightarrow> bytes \<Rightarrow> nat \<Rightarrow> (nat \<Rightarrow> u32) \<Rightarrow> bytes" where
  "put_words 0 d o' a = d"
| "put_words (Suc k) d o' a = put32 (put_words k d o' a) (o' + 4 * k) (a k)"

definition get_dinode :: "bytes \<Rightarrow> nat \<Rightarrow> dinode" where
  "get_dinode d o' =
     \<lparr>d_type = get16 d o', d_major = get16 d (o' + 2), d_minor = get16 d (o' + 4),
      d_nlink = get16 d (o' + 6), d_size = get32 d (o' + 8), d_rwmode = get32 d (o' + 12),
      d_supermode = get32 d (o' + 16), d_addrs = get_words (NDIRECT + 3) d (o' + 20),
      d_showmode = get32 d (o' + 80)\<rparr>"

definition put_dinode :: "bytes \<Rightarrow> nat \<Rightarrow> dinode \<Rightarrow> bytes" where
  "put_dinode d o' x =
     put_words (NDIRECT + 3)
       (put32 (put32 (put32 (put32 (put16 (put16 (put16 (put16 d
          o' (d_type x)) (o' + 2) (d_major x)) (o' + 4) (d_minor x)) (o' + 6) (d_nlink x))
          (o' + 8) (d_size x)) (o' + 12) (d_rwmode x)) (o' + 16) (d_supermode x)) (o' + 80) (d_showmode x))
       (o' + 20) (d_addrs x)"

section \<open>Directory entries\<close>

definition DIRENT_SIZE :: nat where "DIRENT_SIZE = 16"

record dirent =
  de_inum :: u16
  de_name :: bytes

text \<open>The name field has \<open>DIRSIZ\<close> bytes; beyond them the function is 0.\<close>

definition get_dirent :: "bytes \<Rightarrow> nat \<Rightarrow> dirent" where
  "get_dirent d o' = \<lparr>de_inum = get16 d o', de_name = (\<lambda>i. if i < DIRSIZ then d (o' + 2 + i) else 0)\<rparr>"

definition put_dirent :: "bytes \<Rightarrow> nat \<Rightarrow> dirent \<Rightarrow> bytes" where
  "put_dirent d o' x =
     (\<lambda>i. if o' + 2 \<le> i \<and> i < o' + 2 + DIRSIZ then de_name x (i - (o' + 2)) else put16 d o' (de_inum x) i)"

section \<open>Round trips\<close>

lemma put_superblock_outside: "44 \<le> j \<Longrightarrow> put_superblock d x j = d j"
  by (simp add: put_superblock_def layout)

lemma get_put_superblock [simp]: "get_superblock (put_superblock d x) = x"
  by (simp add: get_superblock_def put_superblock_def layout)

lemma put_words_outside:
  "j < o' \<or> o' + 4 * k \<le> j \<Longrightarrow> put_words k d o' a j = d j"
  by (induction k) (auto simp: layout)

lemma get_put_words_other:
  "j + 2 \<le> o' \<or> o' + 4 * k \<le> j \<Longrightarrow> get16 (put_words k d o' a) j = get16 d j"
  "j + 4 \<le> o' \<or> o' + 4 * k \<le> j \<Longrightarrow> get32 (put_words k d o' a) j = get32 d j"
  by (rule get_cong; auto intro!: put_words_outside)+

lemma get_put_words_same:
  "i < k \<Longrightarrow> get32 (put_words k d o' a) (o' + 4 * i) = a i"
proof (induction k)
  case (Suc k)
  then show ?case by (cases "i = k") (auto simp: layout)
qed simp

lemma get_words_put_words:
  "get_words k (put_words k d o' a) o' = (\<lambda>i. if i < k then a i else 0)"
  by (auto simp: get_words_def get_put_words_same)

lemma put_dinode_outside:
  "j < o' \<or> o' + DINODE_SIZE \<le> j \<Longrightarrow> put_dinode d o' x j = d j"
  by (auto simp: put_dinode_def DINODE_SIZE_def NDIRECT_def put_words_outside layout)

lemma get_put_dinode:
  "(\<And>i. NDIRECT + 3 \<le> i \<Longrightarrow> d_addrs x i = 0) \<Longrightarrow> get_dinode (put_dinode d o' x) o' = x"
  by (auto simp: get_dinode_def put_dinode_def get_put_words_other get_words_put_words layout
      NDIRECT_def fun_eq_iff intro!: dinode.equality)

lemma get_dinode_cong:
  "(\<And>j. o' \<le> j \<Longrightarrow> j < o' + DINODE_SIZE \<Longrightarrow> d j = d' j) \<Longrightarrow> get_dinode d o' = get_dinode d' o'"
  by (auto simp: get_dinode_def get_words_def DINODE_SIZE_def NDIRECT_def fun_eq_iff
      intro!: dinode.equality get_cong)

lemma get_put_dinode_other:
  "o' + DINODE_SIZE \<le> p \<or> p + DINODE_SIZE \<le> o' \<Longrightarrow> get_dinode (put_dinode d o' x) p = get_dinode d p"
  by (rule get_dinode_cong) (auto intro!: put_dinode_outside)

lemma put_dirent_outside: "j < o' \<or> o' + DIRENT_SIZE \<le> j \<Longrightarrow> put_dirent d o' x j = d j"
  by (auto simp: put_dirent_def DIRENT_SIZE_def DIRSIZ_def layout)

lemma get_put_dirent:
  assumes "\<And>i. DIRSIZ \<le> i \<Longrightarrow> de_name x i = 0"
  shows "get_dirent (put_dirent d o' x) o' = x"
proof -
  have "get16 (put_dirent d o' x) o' = get16 (put16 d o' (de_inum x)) o'"
    by (rule get_cong) (auto simp: put_dirent_def)
  then show ?thesis
    using assms by (auto simp: get_dirent_def put_dirent_def fun_eq_iff DIRSIZ_def intro!: dirent.equality)
qed

lemma get_put_dirent_other:
  assumes "o' + DIRENT_SIZE \<le> p \<or> p + DIRENT_SIZE \<le> o'"
  shows "get_dirent (put_dirent d o' x) p = get_dirent d p"
proof -
  have *: "put_dirent d o' x j = d j" if "p \<le> j" "j < p + DIRENT_SIZE" for j
    using assms that by (intro put_dirent_outside) auto
  moreover have "get16 (put_dirent d o' x) p = get16 d p"
    by (rule get_cong) (auto intro!: * simp: DIRENT_SIZE_def)
  ultimately show ?thesis by (auto simp: get_dirent_def DIRSIZ_def DIRENT_SIZE_def fun_eq_iff)
qed

end
