(* ===== verification/Log.thy ===== *)
theory Log
  imports Layout
begin

text \<open>
  The write-ahead log (\<open>kernel/log.c\<close>).

  \<open>lg\<close> is the global \<open>struct log\<close>, with the header \<open>struct logheader lh\<close> flattened into it.
  \<open>begin_op\<close> waits (\<open>Hang\<close>) while a commit runs or while the reservation does not fit;
  \<open>end_op\<close> commits when the last operation ends.  The array \<open>lh.block\<close> has \<open>LOGSIZE\<close>
  entries, an access beyond them is \<open>Undef\<close>.  The \<open>data\<close> of a buffer has \<open>BSIZE\<close> bytes and
  nothing depends on what its byte function is from there on, so copying \<open>BSIZE\<close> bytes of
  one buffer to another is the assignment of its content.

  The theorems: what \<open>commit\<close> writes, in which order; that a crash after any number of those
  writes, followed by a reboot, leaves every block outside the log either with all of the
  old content or with all of the new content; that recovery itself may crash and start
  over; that \<open>log_write\<close> absorbs repeated writes and pins a block exactly once; and that the
  reservation made by \<open>begin_op\<close> is enough for \<open>MAXOPBLOCKS\<close> blocks per operation when the
  log on disk has room for \<open>LOGSIZE\<close> blocks.
\<close>

section \<open>State\<close>

record logrec =
  lg_start :: u32
  lg_size :: int
  lg_outstanding :: int
  lg_committing :: bool
  lg_dev :: u32
  lh_n :: int
  lh_block :: "nat \<Rightarrow> u32"

record log_st = bio_st +
  lg :: logrec

definition set_lg :: "(logrec \<Rightarrow> logrec) \<Rightarrow> 'a log_st_scheme \<Rightarrow> 'a log_st_scheme" where
  "set_lg f s = s\<lparr>lg := f (lg s)\<rparr>"

section \<open>Operations\<close>

text \<open>One iteration of \<open>install_trans\<close>.\<close>

definition install_block :: "bool \<Rightarrow> nat \<Rightarrow> 'a log_st_scheme \<Rightarrow> 'a log_st_scheme res" where
  "install_block recovering tail s =
     rbind (bread (lg_dev (lg s)) (lg_start (lg s) + of_nat tail + 1) s) (\<lambda>(lbuf, s).
     if LOGSIZE \<le> tail then Undef else
     rbind (bread (lg_dev (lg s)) (lh_block (lg s) tail) s) (\<lambda>(dbuf, s).
     rbind (bwrite dbuf (set_bdata dbuf (bdata lbuf s) s)) (\<lambda>s.
     rbind (brelse lbuf (if recovering then s else bunpin dbuf s)) (\<lambda>s.
     brelse dbuf s))))"

definition install_trans :: "bool \<Rightarrow> 'a log_st_scheme \<Rightarrow> 'a log_st_scheme res" where
  "install_trans recovering s = foldR (install_block recovering) [0..<nat (lh_n (lg s))] s"

definition read_head :: "'a log_st_scheme \<Rightarrow> 'a log_st_scheme res" where
  "read_head s =
     rbind (bread (lg_dev (lg s)) (lg_start (lg s)) s) (\<lambda>(buf, s).
     let lh = bdata buf s;
         n = sint (get32 lh 0)
     in if int LOGSIZE < n then Undef
        else brelse buf (set_lg (\<lambda>l. l\<lparr>lh_n := n,
               lh_block := (\<lambda>i. if i < nat n then get32 lh (4 + 4 * i) else lh_block l i)\<rparr>) s))"

definition write_head :: "'a log_st_scheme \<Rightarrow> 'a log_st_scheme res" where
  "write_head s =
     rbind (bread (lg_dev (lg s)) (lg_start (lg s)) s) (\<lambda>(buf, s).
     if int LOGSIZE < lh_n (lg s) then Undef
     else
       let hb = put32 (bdata buf s) 0 (of_int (lh_n (lg s)));
           hb = put_words (nat (lh_n (lg s))) hb 4 (lh_block (lg s))
       in rbind (bwrite buf (set_bdata buf hb s)) (brelse buf))"

definition recover_from_log :: "'a log_st_scheme \<Rightarrow> 'a log_st_scheme res" where
  "recover_from_log s =
     rbind (read_head s) (\<lambda>s.
     rbind (install_trans True s) (\<lambda>s.
     write_head (set_lg (\<lambda>l. l\<lparr>lh_n := 0\<rparr>) s)))"

definition initlog :: "u32 \<Rightarrow> superblock \<Rightarrow> 'a log_st_scheme \<Rightarrow> 'a log_st_scheme res" where
  "initlog dev sb s =
     (if BSIZE \<le> 4 + 4 * LOGSIZE then Panic ''initlog: too big logheader''
      else recover_from_log
             (set_lg (\<lambda>l. l\<lparr>lg_start := sb_logstart sb, lg_size := sint (sb_nlog sb), lg_dev := dev\<rparr>) s))"

definition begin_op :: "'a log_st_scheme \<Rightarrow> 'a log_st_scheme res" where
  "begin_op s =
     (if lg_committing (lg s) then Hang
      else if int LOGSIZE < lh_n (lg s) + (lg_outstanding (lg s) + 1) * int MAXOPBLOCKS then Hang
      else Ok (set_lg (\<lambda>l. l\<lparr>lg_outstanding := lg_outstanding l + 1\<rparr>) s))"

text \<open>One iteration of \<open>write_log\<close>.\<close>

definition write_log_block :: "nat \<Rightarrow> 'a log_st_scheme \<Rightarrow> 'a log_st_scheme res" where
  "write_log_block tail s =
     rbind (bread (lg_dev (lg s)) (lg_start (lg s) + of_nat tail + 1) s) (\<lambda>(to, s).
     if LOGSIZE \<le> tail then Undef else
     rbind (bread (lg_dev (lg s)) (lh_block (lg s) tail) s) (\<lambda>(from, s).
     rbind (bwrite to (set_bdata to (bdata from s) s)) (\<lambda>s.
     rbind (brelse from s) (brelse to))))"

definition write_log :: "'a log_st_scheme \<Rightarrow> 'a log_st_scheme res" where
  "write_log s = foldR write_log_block [0..<nat (lh_n (lg s))] s"

definition commit :: "'a log_st_scheme \<Rightarrow> 'a log_st_scheme res" where
  "commit s =
     (if 0 < lh_n (lg s) then
        rbind (write_log s) (\<lambda>s.
        rbind (write_head s) (\<lambda>s.
        rbind (install_trans False s) (\<lambda>s.
        write_head (set_lg (\<lambda>l. l\<lparr>lh_n := 0\<rparr>) s))))
      else Ok s)"

definition end_op :: "'a log_st_scheme \<Rightarrow> 'a log_st_scheme res" where
  "end_op s =
     (let s = set_lg (\<lambda>l. l\<lparr>lg_outstanding := lg_outstanding l - 1\<rparr>) s in
      if lg_committing (lg s) then Panic ''log.committing''
      else if lg_outstanding (lg s) = 0 then
        rbind (commit (set_lg (\<lambda>l. l\<lparr>lg_committing := True\<rparr>) s)) (\<lambda>s.
        Ok (set_lg (\<lambda>l. l\<lparr>lg_committing := False\<rparr>) s))
      else Ok s)"

text \<open>The index where the search of \<open>log_write\<close> stops.\<close>

fun find_logged :: "nat \<Rightarrow> (nat \<Rightarrow> u32) \<Rightarrow> u32 \<Rightarrow> nat \<Rightarrow> nat" where
  "find_logged 0 block b i = i"
| "find_logged (Suc k) block b i = (if block i = b then i else find_logged k block b (Suc i))"

definition log_write :: "nat \<Rightarrow> 'a log_st_scheme \<Rightarrow> 'a log_st_scheme res" where
  "log_write b s =
     (let n = lh_n (lg s) in
      if int LOGSIZE \<le> n \<or> lg_size (lg s) - 1 \<le> n then Panic ''too big a transaction''
      else if lg_outstanding (lg s) < 1 then Panic ''log_write outside of trans''
      else
        let blockno = b_blockno (bufs s b);
            i = find_logged (nat n) (lh_block (lg s)) blockno 0;
            s = set_lg (\<lambda>l. l\<lparr>lh_block := (lh_block l)(i := blockno)\<rparr>) s
        in if int i = n then Ok (set_lg (\<lambda>l. l\<lparr>lh_n := lh_n l + 1\<rparr>) (bpin b s)) else Ok s)"

definition min_int :: "int \<Rightarrow> int \<Rightarrow> int" where
  "min_int a b = (if a < b then a else b)"

definition if_log_full :: "'a log_st_scheme \<Rightarrow> int" where
  "if_log_full s =
     (let num = min_int (int LOGSIZE) (lg_size (lg s) - 1) in
      if num - lh_n (lg s) = 0 then 0
      else if num - lh_n (lg s) = 1 then 1
      else num - lh_n (lg s))"

section \<open>Specification: disks and writes\<close>

definition apply_writes :: "(u32 \<times> bytes) list \<Rightarrow> (u32 \<Rightarrow> bytes) \<Rightarrow> u32 \<Rightarrow> bytes" where
  "apply_writes ws d = fold (\<lambda>(b, x) d. d(b := x)) ws d"

text \<open>
  \<open>wrote ws s t\<close>: on the way from \<open>s\<close> to \<open>t\<close> exactly the writes \<open>ws\<close> reached the disk, the
  cached contents followed them, and nothing else of the state changed but the cache.
\<close>

definition wrote :: "(u32 \<times> bytes) list \<Rightarrow> 'a bio_st_scheme \<Rightarrow> 'a bio_st_scheme \<Rightarrow> bool" where
  "wrote ws s t \<longleftrightarrow>
     dwrites t = dwrites s @ ws \<and> disk t = apply_writes ws (disk s) \<and>
     lview t = apply_writes ws (lview s) \<and>
     t = s\<lparr>disk := disk t, dwrites := dwrites t, bufs := bufs t\<rparr>"

text \<open>
  The blocks of the log on disk, the block numbers in use and the header.  A log of \<open>LOGSIZE\<close>
  blocks, which is what \<open>mkfs\<close> makes, has a header and \<open>LOGSLOTS\<close> blocks for data.
\<close>

definition LOGSLOTS :: nat where "LOGSLOTS = LOGSIZE - 1"

definition log_slot :: "u32 \<Rightarrow> nat \<Rightarrow> u32" where
  "log_slot start i = start + of_nat i + 1"

definition log_area :: "u32 \<Rightarrow> u32 set" where
  "log_area start = insert start (log_slot start ` {..<LOGSLOTS})"

definition logged :: "'a log_st_scheme \<Rightarrow> u32 set" where
  "logged s = lh_block (lg s) ` {..<nat (lh_n (lg s))}"

definition hdr_n :: "u32 \<Rightarrow> (u32 \<Rightarrow> bytes) \<Rightarrow> int" where
  "hdr_n start d = sint (get32 (d start) 0)"

definition hdr_block :: "u32 \<Rightarrow> (u32 \<Rightarrow> bytes) \<Rightarrow> nat \<Rightarrow> u32" where
  "hdr_block start d i = get32 (d start) (4 + 4 * i)"

text \<open>A disk whose header recovery can follow, and the writes it makes on such a disk.\<close>

definition valid_log :: "u32 \<Rightarrow> (u32 \<Rightarrow> bytes) \<Rightarrow> bool" where
  "valid_log start d \<longleftrightarrow> hdr_n start d \<le> int LOGSLOTS \<and>
     (\<forall>i<nat (hdr_n start d). hdr_block start d i \<notin> log_area start)"

definition recover_writes :: "u32 \<Rightarrow> (u32 \<Rightarrow> bytes) \<Rightarrow> (u32 \<times> bytes) list" where
  "recover_writes start d =
     map (\<lambda>i. (hdr_block start d i, d (log_slot start i))) [0..<nat (hdr_n start d)] @
     [(start, put32 (d start) 0 0)]"

definition recovered :: "u32 \<Rightarrow> (u32 \<Rightarrow> bytes) \<Rightarrow> u32 \<Rightarrow> bytes" where
  "recovered start d = apply_writes (recover_writes start d) d"

text \<open>The writes of \<open>commit\<close>: the log, the header, the home locations, the cleared header.\<close>

definition log_header :: "'a log_st_scheme \<Rightarrow> bytes" where
  "log_header s = put_words (nat (lh_n (lg s)))
     (put32 (lview s (lg_start (lg s))) 0 (of_int (lh_n (lg s)))) 4 (lh_block (lg s))"

definition log_writes :: "'a log_st_scheme \<Rightarrow> (u32 \<times> bytes) list" where
  "log_writes s =
     map (\<lambda>i. (log_slot (lg_start (lg s)) i, lview s (lh_block (lg s) i))) [0..<nat (lh_n (lg s))]"

definition home_writes :: "'a log_st_scheme \<Rightarrow> (u32 \<times> bytes) list" where
  "home_writes s =
     map (\<lambda>i. (lh_block (lg s) i, lview s (lh_block (lg s) i))) [0..<nat (lh_n (lg s))]"

definition commit_writes :: "'a log_st_scheme \<Rightarrow> (u32 \<times> bytes) list" where
  "commit_writes s =
     (if 0 < lh_n (lg s) then
        log_writes s @ [(lg_start (lg s), log_header s)] @ home_writes s @
        [(lg_start (lg s), put32 (log_header s) 0 0)]
      else [])"

text \<open>
  The invariant of the log while operations run: the blocks in the header are distinct, lie
  outside the log, are pinned in the cache and are fewer than the buffers; on disk the log is
  empty.
\<close>

definition log_ok :: "u32 set \<Rightarrow> 'a log_st_scheme \<Rightarrow> bool" where
  "log_ok H s \<longleftrightarrow>
     bio_ok (logged s) H s \<and> finite H \<and> lg_dev (lg s) = ROOTDEV \<and>
     0 \<le> lh_n (lg s) \<and> lh_n (lg s) < int NBUF \<and> lh_n (lg s) \<le> int LOGSLOTS \<and>
     lg_size (lg s) \<le> int NBUF \<and>
     inj_on (lh_block (lg s)) {..<nat (lh_n (lg s))} \<and>
     logged s \<inter> log_area (lg_start (lg s)) = {} \<and>
     H \<inter> log_area (lg_start (lg s)) = {} \<and>
     hdr_n (lg_start (lg s)) (disk s) = 0"

section \<open>What the block operations leave alone\<close>

lemma lock_buf_frame: "lock_buf i s = Ok t \<Longrightarrow> t = s\<lparr>bufs := bufs t\<rparr>"
  by (auto simp: lock_buf_def set_buf_def)

lemma bread_frame:
  assumes "bread dev b s = Ok (i, t)"
  shows "t = s\<lparr>bufs := bufs t\<rparr>"
proof -
  from assms obtain u v where g: "lock_buf i u = Ok v" "u = s\<lparr>bufs := bufs u\<rparr>"
      and t: "t = set_buf i (\<lambda>x. x\<lparr>b_valid := True\<rparr>) (virtio_disk_rw i False v) \<or> t = v"
    by (auto simp: bread_def bget_def set_buf_def split: option.splits if_splits)
  from lock_buf_frame[OF g(1)] g(2) have "v = s\<lparr>bufs := bufs v\<rparr>" by (cases s, cases u, cases v) auto
  then show ?thesis using t
    by (cases s, cases v) (auto simp: virtio_disk_rw_def set_bdata_def set_buf_def Let_def)
qed

lemma move_to_front_bufs:
  "move_to_front i (s\<lparr>bufs := bs\<rparr>) = s\<lparr>bufs := bufs (move_to_front i (s\<lparr>bufs := bs\<rparr>))\<rparr>"
  by (subst move_to_front_frame) simp

lemma brelse_frame: "brelse i s = Ok t \<Longrightarrow> t = s\<lparr>bufs := bufs t\<rparr>"
  by (auto simp: brelse_def Let_def set_buf_def split: if_splits) (rule move_to_front_bufs)

lemma bwrite_frame: "bwrite i s = Ok t \<Longrightarrow> t = s\<lparr>disk := disk t, dwrites := dwrites t\<rparr>"
  by (auto simp: bwrite_def virtio_disk_rw_def Let_def split: if_splits)

section \<open>Lemmas on disks and writes\<close>

lemma apply_writes_simps [simp]:
  "apply_writes [] d = d" "apply_writes ((b, x) # ws) d = apply_writes ws (d(b := x))"
  "apply_writes (ws @ vs) d = apply_writes vs (apply_writes ws d)"
  by (simp_all add: apply_writes_def)

lemma apply_writes_other: "b \<notin> fst ` set ws \<Longrightarrow> apply_writes ws d b = d b"
  by (induction ws arbitrary: d) auto

lemma apply_writes_map:
  "inj_on f {..<k} \<Longrightarrow> i < k \<Longrightarrow> apply_writes (map (\<lambda>i. (f i, g i)) [0..<k]) d (f i) = g i"
proof (induction k)
  case (Suc k)
  have "f i \<noteq> f k" if "i \<noteq> k" using Suc.prems that by (auto simp: inj_on_def)
  moreover have "inj_on f {..<k}" using Suc.prems by (auto simp: inj_on_def)
  ultimately show ?case using Suc by (cases "i = k") auto
qed simp

lemma apply_writes_map_same:
  assumes "\<And>i. i < k \<Longrightarrow> g (f i) = h i"
  shows "apply_writes (map (\<lambda>i. (f i, h i)) [0..<k]) d b = (if b \<in> f ` {..<k} then g b else d b)"
  using assms by (induction k) (auto simp: less_Suc_eq)

lemma wrote_refl: "wrote [] s s"
  by (simp add: wrote_def)

lemma wrote_trans: "wrote ws s t \<Longrightarrow> wrote vs t u \<Longrightarrow> wrote (ws @ vs) s u"
  unfolding wrote_def by (cases s, cases t, cases u) auto

lemma wrote_bufs: "lview t = lview s \<Longrightarrow> t = s\<lparr>bufs := bufs t\<rparr> \<Longrightarrow> wrote [] s t"
  unfolding wrote_def by (cases s, cases t) auto

lemma wrote_lg [simp]: "wrote ws s t \<Longrightarrow> lg t = lg s"
  unfolding wrote_def by (cases s, cases t) auto

lemma LOGSLOTS_less: "LOGSLOTS < LOGSIZE" "k < LOGSLOTS \<Longrightarrow> k < LOGSIZE" "n \<le> int LOGSLOTS \<Longrightarrow> n \<le> int LOGSIZE"
  by (simp_all add: LOGSLOTS_def params)

lemma log_slot_inj: "i < LOGSLOTS \<Longrightarrow> j < LOGSLOTS \<Longrightarrow> log_slot st i = log_slot st j \<longleftrightarrow> i = j"
proof -
  assume "i < LOGSLOTS" "j < LOGSLOTS"
  then have "unat (of_nat i :: u32) = i" "unat (of_nat j :: u32) = j"
    by (simp_all add: params LOGSLOTS_def unat_of_nat)
  then show ?thesis by (metis log_slot_def add.commute add_left_cancel)
qed

lemma log_slot_start: "i < LOGSLOTS \<Longrightarrow> log_slot st i \<noteq> st"
proof
  assume i: "i < LOGSLOTS" and "log_slot st i = st"
  then have "(of_nat (Suc i) :: u32) = 0" by (simp add: log_slot_def add.commute)
  then have "unat (of_nat (Suc i) :: u32) = 0" by simp
  then show False using i by (simp only: unat_of_nat) (simp add: params LOGSLOTS_def)
qed

lemma log_area_slot [simp]: "i < LOGSLOTS \<Longrightarrow> log_slot st i \<in> log_area st" "st \<in> log_area st"
  by (auto simp: log_area_def)

lemma log_slot_neq: "b \<notin> log_area st \<Longrightarrow> i < LOGSLOTS \<Longrightarrow> log_slot st i \<noteq> b"
  by (auto simp: log_area_def)

text \<open>The common parts of \<open>write_log\<close> and \<open>install_trans\<close>.\<close>

lemma read_two:
  assumes ok: "bio_ok P {} s" and xy: "x \<noteq> y" and fin: "finite P"
    and room: "card P < NBUF" "y \<in> P \<or> card P + 1 < NBUF"
  obtains i j s1 s2 where "bread ROOTDEV x s = Ok (i, s1)" "bread ROOTDEV y s1 = Ok (j, s2)"
    "bio_ok P {x, y} s2" "slot (bufs s2) x = Some i" "slot (bufs s2) y = Some j"
    "wrote [] s s1" "wrote [] s s2"
proof -
  have "x \<in> P \<or> finite (P \<union> {}) \<and> card (P \<union> {}) < NBUF" using fin room(1) by simp
  from bread_ok[OF ok _ this]
  obtain i s1 where 1: "bread ROOTDEV x s = Ok (i, s1)" "bio_ok P {x} s1" "slot (bufs s1) x = Some i"
    "lview s1 = lview s" "s1 = s\<lparr>bufs := bufs s1\<rparr>" by blast
  have "y \<in> P \<or> finite (P \<union> {x}) \<and> card (P \<union> {x}) < NBUF"
    using room(2) fin by (auto simp: card_insert_if)
  from bread_ok[OF 1(2) _ this] xy
  obtain j s2 where 2: "bread ROOTDEV y s1 = Ok (j, s2)" "bio_ok P (insert y {x}) s2" "slot (bufs s2) y = Some j"
    "\<And>c. c \<in> P \<union> {x} \<Longrightarrow> slot (bufs s2) c = slot (bufs s1) c" "lview s2 = lview s1" "s2 = s1\<lparr>bufs := bufs s2\<rparr>"
    by blast
  have w: "wrote [] s s1" "wrote [] s1 s2"
    by (rule wrote_bufs[OF 1(4,5)], rule wrote_bufs[OF 2(5,6)])
  have w2: "wrote [] s s2" using wrote_trans[OF w] by simp
  have x: "slot (bufs s2) x = Some i" using 2(4)[of x] 1(3) by simp
  have "bio_ok P {x, y} s2" using 2(2) by (simp add: insert_commute)
  from that[OF 1(1) 2(1) this x 2(3) w(1) w2] show ?thesis .
qed

lemma write_held:
  assumes ok: "bio_ok P H s" and b: "b \<in> H" "slot (bufs s) b = Some j"
  obtains t where "bwrite j (set_bdata j x s) = Ok t" "bio_ok P H t"
    "slot (bufs t) = slot (bufs s)" "wrote [(b, x)] s t"
proof -
  note 1 = set_bdata_ok[OF ok b, of x]
  let ?u = "set_bdata j x s"
  have "slot (bufs ?u) b = Some j" using 1(2) b by simp
  from bwrite_ok[OF 1(1) b(1) this] obtain t where 2: "bwrite j ?u = Ok t" "bio_ok P H t"
    "bufs t = bufs ?u" "lview t = lview ?u"
    "t = ?u\<lparr>disk := (disk ?u)(b := lview ?u b), dwrites := dwrites ?u @ [(b, lview ?u b)]\<rparr>" .
  have u: "disk ?u = disk s" "dwrites ?u = dwrites s" by (simp_all add: set_bdata_def)
  have t: "disk t = (disk s)(b := x)" "dwrites t = dwrites s @ [(b, x)]"
    "t = s\<lparr>disk := disk t, dwrites := dwrites t, bufs := bufs t\<rparr>"
    using 2(5) 1(3) u by (auto simp: set_bdata_def set_buf_def)
  then have "wrote [(b, x)] s t" using 2(4) 1(3) by (simp add: wrote_def)
  then show ?thesis using that 2(1,2,3) 1(2) by simp
qed

lemma copy_held:
  assumes ok: "bio_ok P H s" and a: "a \<in> H" "slot (bufs s) a = Some i"
    and b: "b \<in> H" "slot (bufs s) b = Some j"
  obtains t where "bwrite j (set_bdata j (bdata i s) s) = Ok t" "bio_ok P H t"
    "slot (bufs t) = slot (bufs s)" "wrote [(b, lview s a)] s t"
  using write_held[OF ok b] unfolding bdata_lview[OF ok a] .

lemma release_two:
  assumes ok: "bio_ok P {x, y} s" and xy: "x \<noteq> y"
    and sl: "slot (bufs s) x = Some i" "slot (bufs s) y = Some j"
    and cl: "x \<in> P \<or> lview s x = disk s x" "y \<in> P \<or> lview s y = disk s y"
  obtains t where "rbind (brelse i s) (brelse j) = Ok t" "bio_ok P {} t" "wrote [] s t"
proof -
  from brelse_ok[OF ok _ sl(1) cl(1)] obtain s1 where 1: "brelse i s = Ok s1" "bio_ok P ({x, y} - {x}) s1"
    "slot (bufs s1) = slot (bufs s)" "lview s1 = lview s" "s1 = s\<lparr>bufs := bufs s1\<rparr>" by blast
  have y: "slot (bufs s1) y = Some j" using 1(3) sl by simp
  have "disk s1 = disk s" by (subst 1(5)) simp
  then have "y \<in> P \<or> lview s1 y = disk s1 y" using cl(2) 1(4) by simp
  from brelse_ok[OF 1(2) _ y this] xy obtain t where 2: "brelse j s1 = Ok t" "bio_ok P ({x, y} - {x} - {y}) t"
    "lview t = lview s1" "t = s1\<lparr>bufs := bufs t\<rparr>" by blast
  have "wrote [] s s1" "wrote [] s1 t" by (rule wrote_bufs[OF 1(4,5)], rule wrote_bufs[OF 2(3,4)])
  from wrote_trans[OF this] have "wrote [] s t" by simp
  moreover have e: "{x, y} - {x} - {y} = {}" by auto
  ultimately show ?thesis using that 1(1) 2(1) 2(2)[unfolded e] by simp
qed

lemma wrote_views:
  assumes "wrote ws s t"
  shows "lview t = apply_writes ws (lview s)" "disk t = apply_writes ws (disk s)" "dwrites t = dwrites s @ ws"
  using assms by (simp_all add: wrote_def)

text \<open>What makes one step of either loop succeed.\<close>

lemma write_log_block_ok:
  assumes ok: "bio_ok P {} s" and fin: "finite P" "card P < NBUF" and dev: "lg_dev (lg s) = ROOTDEV"
    and k: "k < LOGSLOTS" and b: "lh_block (lg s) k \<in> P" and dis: "P \<inter> log_area (lg_start (lg s)) = {}"
  obtains t where "write_log_block k s = Ok t" "bio_ok P {} t"
    "wrote [(log_slot (lg_start (lg s)) k, lview s (lh_block (lg s) k))] s t"
proof -
  let ?to = "log_slot (lg_start (lg s)) k" and ?from = "lh_block (lg s) k"
  have ne: "?to \<noteq> ?from" using dis b log_area_slot(1)[OF k, of "lg_start (lg s)"] by auto
  obtain i j s1 s2 where r: "bread ROOTDEV ?to s = Ok (i, s1)" "bread ROOTDEV ?from s1 = Ok (j, s2)"
    "bio_ok P {?to, ?from} s2" "slot (bufs s2) ?to = Some i" "slot (bufs s2) ?from = Some j"
    "wrote [] s s1" "wrote [] s s2" by (rule read_two[OF ok ne fin disjI1[OF b]])
  obtain s3 where c: "bwrite i (set_bdata i (bdata j s2) s2) = Ok s3" "bio_ok P {?to, ?from} s3"
    "slot (bufs s3) = slot (bufs s2)" "wrote [(?to, lview s2 ?from)] s2 s3"
    by (rule copy_held[OF r(3) _ r(5) _ r(4)]) auto
  have cl: "lview s3 ?to = disk s3 ?to" using wrote_views[OF c(4)] by simp
  have ok3: "bio_ok P {?from, ?to} s3" using c(2) by (simp add: insert_commute)
  have sl: "slot (bufs s3) ?from = Some j" "slot (bufs s3) ?to = Some i" using c(3) r(4,5) by simp_all
  obtain t where t: "rbind (brelse j s3) (brelse i) = Ok t" "bio_ok P {} t" "wrote [] s3 t"
    by (rule release_two[OF ok3 ne[symmetric] sl disjI1[OF b] disjI2[OF cl]])
  have lv: "lview s2 = lview s" using wrote_views(1)[OF r(7)] by simp
  have "wrote ([] @ [(?to, lview s2 ?from)] @ []) s t"
    by (intro wrote_trans[OF r(7)] wrote_trans[OF c(4)] t(3))
  then have "wrote [(?to, lview s ?from)] s t" unfolding lv by simp
  moreover have "write_log_block k s = Ok t"
    using r(1,2,6) c(1) t(1) LOGSLOTS_less(2)[OF k] dev by (simp add: write_log_block_def log_slot_def)
  ultimately show ?thesis using that t(2) by blast
qed

lemma install_block_ok:
  assumes ok: "bio_ok P {} s" and fin: "finite P" "card P < NBUF" and dev: "lg_dev (lg s) = ROOTDEV"
    and k: "k < LOGSLOTS" and b: "recovering \<Longrightarrow> P = {}" "\<not> recovering \<Longrightarrow> lh_block (lg s) k \<in> P"
    and dis: "lh_block (lg s) k \<notin> log_area (lg_start (lg s))"
      "P \<inter> log_area (lg_start (lg s)) = {}"
  obtains t where "install_block recovering k s = Ok t" "bio_ok (P - {lh_block (lg s) k}) {} t"
    "wrote [(lh_block (lg s) k, lview s (log_slot (lg_start (lg s)) k))] s t"
proof -
  let ?l = "log_slot (lg_start (lg s)) k" and ?d = "lh_block (lg s) k"
  have ne: "?l \<noteq> ?d" using dis log_area_slot(1)[OF k, of "lg_start (lg s)"] by auto
  have room: "?d \<in> P \<or> card P + 1 < NBUF" using b by (cases recovering) (auto simp: NBUF_def)
  obtain i j s1 s2 where r: "bread ROOTDEV ?l s = Ok (i, s1)" "bread ROOTDEV ?d s1 = Ok (j, s2)"
    "bio_ok P {?l, ?d} s2" "slot (bufs s2) ?l = Some i" "slot (bufs s2) ?d = Some j"
    "wrote [] s s1" "wrote [] s s2" by (rule read_two[OF ok ne fin room])
  obtain s3 where c: "bwrite j (set_bdata j (bdata i s2) s2) = Ok s3" "bio_ok P {?l, ?d} s3"
    "slot (bufs s3) = slot (bufs s2)" "wrote [(?d, lview s2 ?l)] s2 s3"
    by (rule copy_held[OF r(3) _ r(4) _ r(5)]) auto
  define s4 where "s4 = (if recovering then s3 else bunpin j s3)"
  have s4: "bio_ok (P - {?d}) {?l, ?d} s4 \<and> slot (bufs s4) = slot (bufs s3) \<and> wrote [] s3 s4"
  proof (cases recovering)
    case True
    then show ?thesis using b c(2) by (simp add: s4_def wrote_refl)
  next
    case False
    have "slot (bufs s3) ?d = Some j" using c(3) r(5) by simp
    from bunpin_ok[OF c(2) _ b(2)[OF False] this] False show ?thesis
      by (auto simp: s4_def intro: wrote_bufs)
  qed
  have v4: "lview s4 = lview s3" "disk s4 = disk s3" using wrote_views[of "[]" s3 s4] s4 by auto
  have l: "?l \<notin> P" using dis(2) log_area_slot(1)[OF k, of "lg_start (lg s)"] by auto
  have "lview s ?l = disk s ?l" by (rule bio_ok_clean[OF ok l]) simp
  then have cl: "lview s4 ?d = disk s4 ?d" "lview s4 ?l = disk s4 ?l"
    using v4 wrote_views[OF c(4)] wrote_views[OF r(7)] ne by auto
  have sl: "slot (bufs s4) ?l = Some i" "slot (bufs s4) ?d = Some j" using s4 c(3) r(4,5) by simp_all
  obtain t where t: "rbind (brelse i s4) (brelse j) = Ok t" "bio_ok (P - {?d}) {} t" "wrote [] s4 t"
    by (rule release_two[OF conjunct1[OF s4] ne sl disjI2[OF cl(2)] disjI2[OF cl(1)]])
  have lv: "lview s2 = lview s" using wrote_views(1)[OF r(7)] by simp
  have "wrote ([] @ [(?d, lview s2 ?l)] @ [] @ []) s t"
    using s4 by (intro wrote_trans[OF r(7)] wrote_trans[OF c(4)] wrote_trans[OF _ t(3)]) simp
  then have "wrote [(?d, lview s ?l)] s t" unfolding lv by simp
  moreover have "install_block recovering k s = Ok t"
    using r(1,2,6) c(1) t(1) LOGSLOTS_less(2)[OF k] dev by (simp add: install_block_def log_slot_def s4_def)
  ultimately show ?thesis using that t(2) by blast
qed

section \<open>The loops, the header and \<open>commit\<close>\<close>

lemma write_log_loop:
  assumes ok: "bio_ok P {} s" and fin: "finite P" "card P < NBUF" and dev: "lg_dev (lg s) = ROOTDEV"
    and b: "\<And>i. i < k \<Longrightarrow> lh_block (lg s) i \<in> P" and dis: "P \<inter> log_area (lg_start (lg s)) = {}"
    and k: "k \<le> LOGSLOTS"
  shows "\<exists>t. foldR write_log_block [0..<k] s = Ok t \<and> bio_ok P {} t \<and>
    wrote (map (\<lambda>i. (log_slot (lg_start (lg s)) i, lview s (lh_block (lg s) i))) [0..<k]) s t"
  using b k
proof (induction k)
  case 0
  then show ?case using ok wrote_refl by auto
next
  case (Suc k)
  let ?st = "lg_start (lg s)" and ?bl = "lh_block (lg s)"
  let ?ws = "map (\<lambda>i. (log_slot ?st i, lview s (?bl i))) [0..<k]"
  from Suc obtain t where t: "foldR write_log_block [0..<k] s = Ok t" "bio_ok P {} t" "wrote ?ws s t"
    by auto
  have lt: "lg t = lg s" using t(3) by simp
  have k: "k < LOGSLOTS" "?bl k \<in> P" using Suc.prems by auto
  obtain u where u: "write_log_block k t = Ok u" "bio_ok P {} u"
    "wrote [(log_slot ?st k, lview t (?bl k))] t u"
    by (rule write_log_block_ok[OF t(2) fin, of k, unfolded lt, OF dev k dis])
  have "?bl k \<notin> log_area ?st" using k dis by auto
  then have "log_slot ?st i \<noteq> ?bl k" if "i < k" for i using log_slot_neq[of "?bl k" ?st i] that k by simp
  then have "?bl k \<notin> fst ` set ?ws" by force
  then have "lview t (?bl k) = lview s (?bl k)" by (simp add: wrote_views[OF t(3)] apply_writes_other)
  with wrote_trans[OF t(3) u(3)] show ?case using t(1) u(1,2) by (auto simp: foldR_append)
qed

lemma install_loop:
  assumes ok: "bio_ok P {} s" and fin: "finite P" "card P < NBUF" and dev: "lg_dev (lg s) = ROOTDEV"
    and k: "k \<le> LOGSLOTS"
    and b: "recovering \<Longrightarrow> P = {}" "\<not> recovering \<Longrightarrow> lh_block (lg s) ` {..<k} \<subseteq> P"
      "\<not> recovering \<Longrightarrow> inj_on (lh_block (lg s)) {..<k}"
    and dis: "\<And>i. i < k \<Longrightarrow> lh_block (lg s) i \<notin> log_area (lg_start (lg s))"
      "P \<inter> log_area (lg_start (lg s)) = {}"
  shows "\<exists>t. foldR (install_block recovering) [0..<k] s = Ok t \<and> bio_ok (P - lh_block (lg s) ` {..<k}) {} t \<and>
    wrote (map (\<lambda>i. (lh_block (lg s) i, lview s (log_slot (lg_start (lg s)) i))) [0..<k]) s t"
  using k b dis(1)
proof (induction k)
  case 0
  then show ?case using ok wrote_refl by auto
next
  case (Suc k)
  let ?st = "lg_start (lg s)" and ?bl = "lh_block (lg s)"
  let ?ws = "map (\<lambda>i. (?bl i, lview s (log_slot ?st i))) [0..<k]" and ?P = "P - ?bl ` {..<k}"
  have "inj_on ?bl {..<k}" if "\<not> recovering" using Suc.prems(4)[OF that] by (auto simp: inj_on_def)
  with Suc obtain t where t: "foldR (install_block recovering) [0..<k] s = Ok t" "bio_ok ?P {} t" "wrote ?ws s t"
    by (auto simp: lessThan_Suc)
  have lt: "lg t = lg s" using t(3) by simp
  have k: "k < LOGSLOTS" using Suc.prems(1) by simp
  have fin': "finite ?P" "card ?P < NBUF" using fin card_mono[of P ?P] by auto
  have r: "recovering \<Longrightarrow> ?P = {}" "\<not> recovering \<Longrightarrow> ?bl k \<in> ?P"
    using Suc.prems(2-4) by (auto simp: inj_on_def lessThan_Suc)
  have d: "?bl k \<notin> log_area ?st" "?P \<inter> log_area ?st = {}" using Suc.prems(5) dis(2) by auto
  obtain u where u: "install_block recovering k t = Ok u" "bio_ok (?P - {?bl k}) {} u"
    "wrote [(?bl k, lview t (log_slot ?st k))] t u"
    by (rule install_block_ok[OF t(2) fin', of k, unfolded lt, OF dev k r d])
  have "?bl i \<noteq> log_slot ?st k" if "i < k" for i
    using log_slot_neq[of "?bl i" ?st k] k Suc.prems(5)[of i] that by auto
  then have "log_slot ?st k \<notin> fst ` set ?ws" by force
  then have "lview t (log_slot ?st k) = lview s (log_slot ?st k)"
    by (simp add: wrote_views[OF t(3)] apply_writes_other)
  with wrote_trans[OF t(3) u(3)] have "wrote (map (\<lambda>i. (?bl i, lview s (log_slot ?st i))) [0..<Suc k]) s u"
    by simp
  moreover have "?P - {?bl k} = P - ?bl ` {..<Suc k}" by (auto simp: lessThan_Suc)
  ultimately show ?case using t(1) u(1,2) by (auto simp: foldR_append)
qed

lemma write_head_ok:
  assumes ok: "bio_ok P {} s" and fin: "finite P" "card P < NBUF" and dev: "lg_dev (lg s) = ROOTDEV"
    and st: "lg_start (lg s) \<notin> P" and n: "lh_n (lg s) \<le> int LOGSIZE"
  shows "\<exists>t. write_head s = Ok t \<and> bio_ok P {} t \<and> wrote [(lg_start (lg s), log_header s)] s t"
proof -
  let ?st = "lg_start (lg s)"
  have "?st \<in> P \<or> finite (P \<union> {}) \<and> card (P \<union> {}) < NBUF" using fin by simp
  from bread_ok[OF ok _ this] obtain i s1 where r: "bread ROOTDEV ?st s = Ok (i, s1)"
    "bio_ok P {?st} s1" "slot (bufs s1) ?st = Some i" "lview s1 = lview s" "bdata i s1 = lview s ?st"
    "s1 = s\<lparr>bufs := bufs s1\<rparr>" by blast
  have w1: "wrote [] s s1" by (rule wrote_bufs[OF r(4,6)])
  have l1: "lg s1 = lg s" using w1 by simp
  obtain t where t: "bwrite i (set_bdata i (log_header s) s1) = Ok t" "bio_ok P {?st} t"
    "slot (bufs t) = slot (bufs s1)" "wrote [(?st, log_header s)] s1 t"
    by (rule write_held[OF r(2) _ r(3)]) simp_all
  have "slot (bufs t) ?st = Some i" using t(3) r(3) by simp
  moreover have "lview t ?st = disk t ?st" using wrote_views[OF t(4)] by simp
  ultimately obtain v where v: "brelse i t = Ok v" "bio_ok P ({?st} - {?st}) v" "lview v = lview t"
    "v = t\<lparr>bufs := bufs v\<rparr>" using brelse_ok[OF t(2), of ?st i] by blast
  have "wrote ([] @ [(?st, log_header s)] @ []) s v"
    by (intro wrote_trans[OF w1] wrote_trans[OF t(4)] wrote_bufs[OF v(3,4)])
  moreover have "write_head s = Ok v"
    using r(1,5) t(1) v(1) n dev l1 by (simp add: write_head_def log_header_def Let_def)
  ultimately show ?thesis using v(2) by simp
qed

lemma set_lg_simps [simp]:
  "bufs (set_lg f s) = bufs s" "disk (set_lg f s) = disk s" "dwrites (set_lg f s) = dwrites s"
  "lg (set_lg f s) = f (lg s)" "myproc (set_lg f s) = myproc s"
  by (simp_all add: set_lg_def myproc_def)

lemma views_set_lg [simp]:
  "lview (set_lg f s) = lview s" "held (set_lg f s) = held s" "brefs (set_lg f s) = brefs s"
  by (auto simp: lview_def held_def brefs_def fun_eq_iff split: option.split)

lemma bio_ok_set_lg [simp]: "bio_ok P H (set_lg f s) \<longleftrightarrow> bio_ok P H s"
  by (simp add: bio_ok_def bio_inv_def buf_ok_def)

lemma wrote_set_lg:
  assumes w: "wrote ws s t"
  shows "wrote ws (set_lg f s) (set_lg f t)"
proof -
  have "t = s\<lparr>disk := disk t, dwrites := dwrites t, bufs := bufs t\<rparr>" using w unfolding wrote_def by blast
  then have "set_lg f t = set_lg f s\<lparr>disk := disk t, dwrites := dwrites t, bufs := bufs t\<rparr>"
    unfolding set_lg_def by (cases s, cases t) auto
  with w show ?thesis unfolding wrote_def views_set_lg set_lg_simps by blast
qed

lemma log_okD:
  assumes "log_ok H s"
  shows "bio_ok (logged s) H s" "finite H" "lg_dev (lg s) = ROOTDEV" "0 \<le> lh_n (lg s)"
    "lh_n (lg s) < int NBUF" "lh_n (lg s) \<le> int LOGSLOTS" "inj_on (lh_block (lg s)) {..<nat (lh_n (lg s))}"
    "logged s \<inter> log_area (lg_start (lg s)) = {}" "H \<inter> log_area (lg_start (lg s)) = {}"
    "hdr_n (lg_start (lg s)) (disk s) = 0" "lg_size (lg s) \<le> int NBUF"
  using assms by (auto simp: log_ok_def)

lemma log_ok_sizes:
  assumes "log_ok H s"
  shows "finite (logged s)" "card (logged s) = nat (lh_n (lg s))" "card (logged s) < NBUF" "nat (lh_n (lg s)) \<le> LOGSLOTS"
proof -
  show "card (logged s) = nat (lh_n (lg s))"
    using card_image[OF log_okD(7)[OF assms]] by (simp add: logged_def)
  then show "finite (logged s)" "card (logged s) < NBUF" "nat (lh_n (lg s)) \<le> LOGSLOTS"
    using log_okD(4-6)[OF assms] by (auto simp: logged_def)
qed

lemma logged_not_slot:
  assumes "log_ok H s" "i < nat (lh_n (lg s))" "j < nat (lh_n (lg s))"
  shows "lh_block (lg s) i \<noteq> log_slot (lg_start (lg s)) j" "lh_block (lg s) i \<noteq> lg_start (lg s)"
    "log_slot (lg_start (lg s)) j \<noteq> lg_start (lg s)"
proof -
  have "lh_block (lg s) i \<notin> log_area (lg_start (lg s))"
    using log_okD(8)[OF assms(1)] assms(2) by (auto simp: logged_def)
  moreover have j: "j < LOGSLOTS" using log_ok_sizes(4)[OF assms(1)] assms(3) by simp
  ultimately show "lh_block (lg s) i \<noteq> log_slot (lg_start (lg s)) j" "lh_block (lg s) i \<noteq> lg_start (lg s)"
    using log_slot_neq[of "lh_block (lg s) i" _ j] by (auto simp: log_area_def)
  show "log_slot (lg_start (lg s)) j \<noteq> lg_start (lg s)" by (rule log_slot_start[OF j])
qed

lemma write_domains:
  "fst ` set (log_writes s) = log_slot (lg_start (lg s)) ` {..<nat (lh_n (lg s))}"
  "fst ` set (home_writes s) = logged s"
  by (simp_all add: log_writes_def home_writes_def logged_def image_image atLeast0LessThan)

lemma log_writes_at:
  assumes ok: "log_ok H s" and i: "i < nat (lh_n (lg s))"
  shows "apply_writes (log_writes s) d (log_slot (lg_start (lg s)) i) = lview s (lh_block (lg s) i)"
proof -
  have "inj_on (log_slot (lg_start (lg s))) {..<nat (lh_n (lg s))}"
    using log_ok_sizes(4)[OF ok] by (auto simp: inj_on_def log_slot_inj)
  then show ?thesis unfolding log_writes_def by (rule apply_writes_map) (use i in auto)
qed

lemma home_writes_at:
  "apply_writes (home_writes s) d b = (if b \<in> logged s then lview s b else d b)"
  unfolding home_writes_def logged_def by (rule apply_writes_map_same) simp

lemma log_start_untouched:
  assumes "log_ok H s"
  shows "lg_start (lg s) \<notin> fst ` set (log_writes s)" "lg_start (lg s) \<notin> logged s"
  using logged_not_slot(3)[OF assms] log_okD(8)[OF assms] unfolding write_domains
  by (force simp: log_area_def)+

text \<open>\<open>commit\<close> returns, and this is everything it does.\<close>

lemma commit_ok:
  assumes ok: "log_ok {} s"
  shows "\<exists>t. commit s = Ok t \<and> bio_ok {} {} t \<and> wrote (commit_writes s) (set_lg (\<lambda>l. l\<lparr>lh_n := 0\<rparr>) s) t"
proof (cases "0 < lh_n (lg s)")
  case False
  then have n: "lh_n (lg s) = 0" using log_okD(4)[OF ok] by simp
  then have "set_lg (\<lambda>l. l\<lparr>lh_n := 0\<rparr>) s = s" by (simp add: set_lg_def)
  moreover have "logged s = {}" using n by (simp add: logged_def)
  ultimately show ?thesis using n log_okD(1)[OF ok] by (simp add: commit_def commit_writes_def wrote_refl)
next
  case True
  let ?st = "lg_start (lg s)" and ?bl = "lh_block (lg s)" and ?n = "nat (lh_n (lg s))"
  note D = log_okD[OF ok] and Z = log_ok_sizes[OF ok]
  note start = log_start_untouched[OF ok]
  have bl: "?bl i \<in> logged s" if "i < ?n" for i using that by (auto simp: logged_def)
  from write_log_loop[OF D(1) Z(1,3) D(3) bl D(8) Z(4)] obtain s1
    where 1: "write_log s = Ok s1" "bio_ok (logged s) {} s1" "wrote (log_writes s) s s1"
    by (auto simp: write_log_def log_writes_def)
  have l1: "lg s1 = lg s" using 1(3) by simp
  have h1: "log_header s1 = log_header s"
    using wrote_views(1)[OF 1(3)] start(1) by (simp add: log_header_def l1 apply_writes_other)
  from write_head_ok[OF 1(2) Z(1,3)] start(2) D LOGSLOTS_less(3)[OF D(6)] obtain s2
    where 2: "write_head s1 = Ok s2" "bio_ok (logged s) {} s2" "wrote [(?st, log_header s)] s1 s2"
    by (auto simp: l1 h1)
  have l2: "lg s2 = lg s" using 2(3) l1 by simp
  have v2: "lview s2 (log_slot ?st i) = lview s (?bl i)" if "i < ?n" for i
    using wrote_views(1)[OF 2(3)] wrote_views(1)[OF 1(3)] log_writes_at[OF ok that]
      logged_not_slot(3)[OF ok that that] by simp
  have sub: "?bl ` {..<?n} \<subseteq> logged s" by (simp add: logged_def)
  have nin: "?bl i \<notin> log_area ?st" if "i < ?n" for i using bl[OF that] D(8) by auto
  from install_loop[OF 2(2) Z(1,3), of ?n False, unfolded l2, OF D(3) Z(4) _ sub D(7) nin D(8)]
  obtain s3 where i3: "install_trans False s2 = Ok s3" "bio_ok (logged s - ?bl ` {..<?n}) {} s3"
    "wrote (map (\<lambda>i. (?bl i, lview s2 (log_slot ?st i))) [0..<?n]) s2 s3"
    by (auto simp: install_trans_def l2)
  have "map (\<lambda>i. (?bl i, lview s2 (log_slot ?st i))) [0..<?n] = home_writes s"
    using v2 by (simp add: home_writes_def)
  with i3 have 3: "install_trans False s2 = Ok s3" "bio_ok {} {} s3" "wrote (home_writes s) s2 s3"
    by (auto simp: logged_def)
  let ?z = "set_lg (\<lambda>l. l\<lparr>lh_n := 0\<rparr>)"
  have l3: "lg s3 = lg s" using 3(3) l2 by simp
  have "lview s3 ?st = log_header s"
    using wrote_views(1)[OF 3(3)] wrote_views(1)[OF 2(3)] start(2) by (simp add: home_writes_at)
  then have h3: "log_header (?z s3) = put32 (log_header s) 0 0" by (simp add: log_header_def l3)
  from write_head_ok[of "{}" "?z s3"] 3(2) D(3) obtain t
    where 4: "write_head (?z s3) = Ok t" "bio_ok {} {} t" "wrote [(?st, put32 (log_header s) 0 0)] (?z s3) t"
    by (auto simp: l3 h3 NBUF_def)
  have "wrote (log_writes s @ [(?st, log_header s)] @ home_writes s) s s3"
    by (intro wrote_trans[OF 1(3)] wrote_trans[OF 2(3)] 3(3))
  from wrote_trans[OF wrote_set_lg[OF this] 4(3)]
  have "wrote (commit_writes s) (?z s) t" using True by (simp add: commit_writes_def)
  then show ?thesis using True 1(1) 2(1) 3(1) 4(1,2) by (simp add: commit_def)
qed

section \<open>Recovery\<close>

lemma read_head_ok:
  assumes ok: "bio_ok {} {} s" and dev: "lg_dev (lg s) = ROOTDEV"
    and n: "hdr_n (lg_start (lg s)) (disk s) \<le> int LOGSIZE"
  defines "f \<equiv> \<lambda>l. l\<lparr>lh_n := hdr_n (lg_start (lg s)) (disk s),
      lh_block := (\<lambda>i. if i < nat (hdr_n (lg_start (lg s)) (disk s))
                       then hdr_block (lg_start (lg s)) (disk s) i else lh_block l i)\<rparr>"
  shows "\<exists>t. read_head s = Ok t \<and> bio_ok {} {} t \<and> wrote [] (set_lg f s) t"
proof -
  let ?st = "lg_start (lg s)"
  have "?st \<in> {} \<or> finite ({} \<union> {} :: u32 set) \<and> card ({} \<union> {} :: u32 set) < NBUF" by (simp add: NBUF_def)
  from bread_ok[OF ok _ this] obtain i s1 where r: "bread ROOTDEV ?st s = Ok (i, s1)"
    "bio_ok {} {?st} s1" "slot (bufs s1) ?st = Some i" "lview s1 = lview s" "bdata i s1 = lview s ?st"
    "s1 = s\<lparr>bufs := bufs s1\<rparr>" by blast
  have w1: "wrote [] s s1" by (rule wrote_bufs[OF r(4,6)])
  have c: "lview s = disk s" using bio_ok_clean[OF ok] by auto
  have d1: "disk s1 = disk s" "lg s1 = lg s" using wrote_views(2)[OF w1] w1 by auto
  have "bio_ok {} {?st} (set_lg f s1)" "slot (bufs (set_lg f s1)) ?st = Some i"
    "lview (set_lg f s1) ?st = disk (set_lg f s1) ?st" using r(2-4) c d1(1) by simp_all
  then obtain t where t: "brelse i (set_lg f s1) = Ok t" "bio_ok {} ({?st} - {?st}) t"
    "lview t = lview (set_lg f s1)" "t = (set_lg f s1)\<lparr>bufs := bufs t\<rparr>"
    using brelse_ok[of "{}" "{?st}" "set_lg f s1" ?st i] by blast
  have "wrote ([] @ []) (set_lg f s) t"
    by (rule wrote_trans[OF wrote_set_lg[OF w1] wrote_bufs[OF t(3,4)]])
  moreover have "read_head s = brelse i (set_lg f s1)"
    using r(1,5) dev n c d1(2)
    by (simp add: read_head_def Let_def f_def hdr_n_def hdr_block_def cong: if_cong)
  ultimately show ?thesis using t(1,2) by simp
qed

lemma recover_ok:
  assumes ok: "bio_ok {} {} s" and dev: "lg_dev (lg s) = ROOTDEV"
    and v: "valid_log (lg_start (lg s)) (disk s)"
  shows "\<exists>t. recover_from_log s = Ok t \<and> bio_ok {} {} t \<and> disk t = recovered (lg_start (lg s)) (disk s) \<and>
    dwrites t = dwrites s @ recover_writes (lg_start (lg s)) (disk s) \<and>
    lh_n (lg t) = 0 \<and> (\<exists>bl. lg t = (lg s)\<lparr>lh_n := 0, lh_block := bl\<rparr>) \<and>
    (\<exists>ds ws bs l. t = s\<lparr>lg := l, disk := ds, dwrites := ws, bufs := bs\<rparr>)"
proof -
  let ?st = "lg_start (lg s)" and ?d = "disk s"
  let ?n = "hdr_n ?st ?d" and ?b = "hdr_block ?st ?d"
  have n: "?n \<le> int LOGSLOTS" and nin: "\<And>i. i < nat ?n \<Longrightarrow> ?b i \<notin> log_area ?st"
    using v by (auto simp: valid_log_def)
  have c: "lview s = ?d" using bio_ok_clean[OF ok] by auto
  define f where "f = (\<lambda>l. l\<lparr>lh_n := ?n, lh_block := (\<lambda>i. if i < nat ?n then ?b i else lh_block l i)\<rparr> :: logrec)"
  define z where "z = (\<lambda>l. l\<lparr>lh_n := 0\<rparr> :: logrec)"
  from read_head_ok[OF ok dev LOGSLOTS_less(3)[OF n]] obtain s1 where 1: "read_head s = Ok s1" "bio_ok {} {} s1" "wrote [] (set_lg f s) s1"
    unfolding f_def by blast
  have l1: "lg s1 = f (lg s)" using 1(3) by simp
  have v1: "lview s1 = ?d" "disk s1 = ?d" using wrote_views[OF 1(3)] c by simp_all
  have m: "map (\<lambda>i. (lh_block (lg s1) i, lview s1 (log_slot (lg_start (lg s1)) i))) [0..<nat ?n] =
      map (\<lambda>i. (?b i, ?d (log_slot ?st i))) [0..<nat ?n]" by (simp add: l1 f_def v1)
  have nl: "nat ?n \<le> LOGSLOTS" using n by simp
  from install_loop[OF 1(2), of "nat ?n" True] nin nl dev obtain s2
    where 2: "foldR (install_block True) [0..<nat ?n] s1 = Ok s2" "bio_ok {} {} s2"
      "wrote (map (\<lambda>i. (?b i, ?d (log_slot ?st i))) [0..<nat ?n]) s1 s2"
    unfolding m by (auto simp: l1 f_def NBUF_def)
  have l2: "lg s2 = f (lg s)" using 2(3) l1 by simp
  have "?st \<noteq> ?b i" if "i < nat ?n" for i using nin[OF that] by (auto simp: log_area_def)
  then have "?st \<notin> fst ` set (map (\<lambda>i. (?b i, ?d (log_slot ?st i))) [0..<nat ?n])" by auto
  then have "lview s2 ?st = ?d ?st" using wrote_views(1)[OF 2(3)] v1 by (simp add: apply_writes_other)
  then have h: "log_header (set_lg z s2) = put32 (?d ?st) 0 0" by (simp add: log_header_def z_def l2 f_def)
  from write_head_ok[of "{}" "set_lg z s2"] 2(2) dev obtain t
    where 3: "write_head (set_lg z s2) = Ok t" "bio_ok {} {} t" "wrote [(?st, put32 (?d ?st) 0 0)] (set_lg z s2) t"
    unfolding h by (auto simp: l2 z_def f_def NBUF_def)
  have w: "wrote (recover_writes ?st ?d) (set_lg z (set_lg f s)) t"
    using wrote_trans[OF wrote_set_lg[OF wrote_trans[OF 1(3) 2(3)]] 3(3)] by (simp add: recover_writes_def)
  have "t = (set_lg z (set_lg f s))\<lparr>disk := disk t, dwrites := dwrites t, bufs := bufs t\<rparr>"
    using w unfolding wrote_def by blast
  then have "t = s\<lparr>lg := z (f (lg s)), disk := disk t, dwrites := dwrites t, bufs := bufs t\<rparr>"
    by (simp add: set_lg_def)
  moreover have "recover_from_log s = Ok t"
    using 1(1) 2(1) 3(1) by (simp add: recover_from_log_def install_trans_def l1 f_def z_def)
  moreover have "lg t = z (f (lg s))" using w by simp
  moreover have "lh_n (z (f (lg s))) = 0"
    "z (f (lg s)) = (lg s)\<lparr>lh_n := 0, lh_block := lh_block (f (lg s))\<rparr>" by (simp_all add: z_def f_def)
  moreover have "disk t = recovered ?st ?d" "dwrites t = dwrites s @ recover_writes ?st ?d"
    using wrote_views(2,3)[OF w] by (simp_all add: recovered_def)
  ultimately show ?thesis using 3(2) by metis
qed

section \<open>Crashes\<close>

lemma recovered_empty:
  assumes "hdr_n st d = 0"
  shows "valid_log st d" "b \<notin> log_area st \<Longrightarrow> recovered st d b = d b"
  using assms by (auto simp: valid_log_def recovered_def recover_writes_def log_area_def)

lemma log_header_fields:
  assumes ok: "log_ok H s"
  shows "sint (get32 (log_header s) 0) = lh_n (lg s)"
    "i < nat (lh_n (lg s)) \<Longrightarrow> get32 (log_header s) (4 + 4 * i) = lh_block (lg s) i"
proof -
  have n: "0 \<le> lh_n (lg s)" "lh_n (lg s) \<le> 45" using log_okD(4,6)[OF ok] by (auto simp: params LOGSLOTS_def)
  have "sint (word_of_int (lh_n (lg s)) :: u32) = lh_n (lg s)"
    using n by (simp add: int_word_sint)
  then show "sint (get32 (log_header s) 0) = lh_n (lg s)"
    by (simp add: log_header_def get_put_words_other)
  show "i < nat (lh_n (lg s)) \<Longrightarrow> get32 (log_header s) (4 + 4 * i) = lh_block (lg s) i"
    by (simp add: log_header_def get_put_words_same)
qed

text \<open>A disk that holds the complete log of \<open>s\<close> and any part of the home writes.\<close>

lemma recovered_committed:
  assumes ok: "log_ok {} s" and hd: "d (lg_start (lg s)) = log_header s"
    and sl: "\<And>i. i < nat (lh_n (lg s)) \<Longrightarrow> d (log_slot (lg_start (lg s)) i) = lview s (lh_block (lg s) i)"
    and home: "\<And>b. b \<notin> log_area (lg_start (lg s)) \<Longrightarrow> b \<notin> logged s \<Longrightarrow> d b = disk s b"
  shows "valid_log (lg_start (lg s)) d"
    "b \<notin> log_area (lg_start (lg s)) \<Longrightarrow> recovered (lg_start (lg s)) d b = lview s b"
proof -
  let ?st = "lg_start (lg s)"
  note H = log_header_fields[OF ok]
  have n: "hdr_n ?st d = lh_n (lg s)" using hd H(1) by (simp add: hdr_n_def)
  have bl: "hdr_block ?st d i = lh_block (lg s) i" if "i < nat (lh_n (lg s))" for i
    using hd H(2)[OF that] by (simp add: hdr_block_def)
  show "valid_log ?st d"
    using n bl log_okD(6,8)[OF ok] by (auto simp: valid_log_def logged_def)
  have "map (\<lambda>i. (hdr_block ?st d i, d (log_slot ?st i))) [0..<nat (hdr_n ?st d)] = home_writes s"
    using n bl sl by (simp add: home_writes_def)
  moreover assume b: "b \<notin> log_area ?st"
  ultimately have "recovered ?st d b = (if b \<in> logged s then lview s b else d b)"
    by (auto simp: recovered_def recover_writes_def home_writes_at log_area_def)
  then show "recovered ?st d b = lview s b"
    using home[OF b] bio_ok_clean[OF log_okD(1)[OF ok], of b] by simp
qed

lemma commit_writes_prefix:
  assumes "0 < lh_n (lg s)"
  shows "k \<le> nat (lh_n (lg s)) \<Longrightarrow> take k (commit_writes s) = take k (log_writes s)"
    "nat (lh_n (lg s)) < k \<Longrightarrow> k < 2 * nat (lh_n (lg s)) + 2 \<Longrightarrow>
      take k (commit_writes s) = log_writes s @ [(lg_start (lg s), log_header s)] @
        take (k - nat (lh_n (lg s)) - 1) (home_writes s)"
    "2 * nat (lh_n (lg s)) + 2 \<le> k \<Longrightarrow> take k (commit_writes s) = commit_writes s"
proof -
  have l: "length (log_writes s) = nat (lh_n (lg s))" "length (home_writes s) = nat (lh_n (lg s))"
    by (simp_all add: log_writes_def home_writes_def)
  show "k \<le> nat (lh_n (lg s)) \<Longrightarrow> take k (commit_writes s) = take k (log_writes s)"
    using assms l by (simp add: commit_writes_def)
  show "2 * nat (lh_n (lg s)) + 2 \<le> k \<Longrightarrow> take k (commit_writes s) = commit_writes s"
    using assms l by (simp add: commit_writes_def)
  assume k: "nat (lh_n (lg s)) < k" "k < 2 * nat (lh_n (lg s)) + 2"
  then obtain j where j: "k = Suc (nat (lh_n (lg s)) + j)" using less_iff_Suc_add by auto
  then have "j \<le> nat (lh_n (lg s))" using k by simp
  then show "take k (commit_writes s) = log_writes s @ [(lg_start (lg s), log_header s)] @
        take (k - nat (lh_n (lg s)) - 1) (home_writes s)"
    using assms l j by (simp add: commit_writes_def)
qed

lemma fst_take: "b \<notin> fst ` set ws \<Longrightarrow> b \<notin> fst ` set (take k ws)"
  using set_take_subset[of k ws] by auto

text \<open>The header write is the commit point: before it recovery finds the old contents, after it the new.\<close>

lemma commit_prefix_recovered:
  assumes ok: "log_ok {} s"
  defines "d \<equiv> \<lambda>k. apply_writes (take k (commit_writes s)) (disk s)" and "st \<equiv> lg_start (lg s)"
  shows "valid_log st (d k) \<and> (\<forall>b. b \<notin> log_area st \<longrightarrow>
      recovered st (d k) b = (if k \<le> nat (lh_n (lg s)) then disk s b else lview s b))"
proof -
  let ?n = "nat (lh_n (lg s))"
  note start = log_start_untouched[OF ok, folded st_def] and D = log_okD[OF ok, folded st_def]
  have lw: "b \<notin> fst ` set (log_writes s)" if "b \<notin> log_area st" for b
    using that log_ok_sizes(4)[OF ok] unfolding write_domains by (auto simp: log_area_def st_def)
  consider "lh_n (lg s) = 0" | "0 < lh_n (lg s)" "k \<le> ?n" | "0 < lh_n (lg s)" "?n < k" "k < 2 * ?n + 2"
    | "0 < lh_n (lg s)" "2 * ?n + 2 \<le> k" using D(4) by linarith
  then show ?thesis
  proof cases
    case 1
    then have "d k = disk s" "logged s = {}" by (simp_all add: d_def commit_writes_def logged_def)
    then show ?thesis using recovered_empty[OF D(10)] bio_ok_clean[OF D(1)] by simp
  next
    case 2
    then have e: "d k = apply_writes (take k (log_writes s)) (disk s)"
      by (simp add: d_def commit_writes_prefix)
    then have "d k st = disk s st" using start(1) by (simp add: apply_writes_other fst_take)
    then have "hdr_n st (d k) = 0" using D(10) by (simp add: hdr_n_def)
    note r = recovered_empty[OF this]
    have "d k b = disk s b" if "b \<notin> log_area st" for b
      using lw[OF that] by (simp add: e apply_writes_other fst_take)
    then show ?thesis using r 2 by simp
  next
    case 3
    define j where "j = k - ?n - 1"
    have e: "d k = apply_writes (take j (home_writes s))
        ((apply_writes (log_writes s) (disk s))(st := log_header s))"
      unfolding d_def commit_writes_prefix(2)[OF 3] j_def st_def by simp
    have hw: "b \<notin> fst ` set (take j (home_writes s))" if "b \<notin> logged s" for b
      by (rule fst_take) (simp only: write_domains that not_False_eq_True)
    have "d k st = log_header s" using start(2) by (simp add: e apply_writes_other hw)
    moreover have "d k (log_slot st i) = lview s (lh_block (lg s) i)" if "i < ?n" for i
    proof -
      have "log_slot st i \<in> log_area st" using log_ok_sizes(4)[OF ok] that by simp
      then have "log_slot st i \<notin> logged s" using D(8) by blast
      then show ?thesis using logged_not_slot(3)[OF ok that that] log_writes_at[OF ok that]
        by (simp add: e apply_writes_other hw st_def)
    qed
    moreover have "d k b = disk s b" if "b \<notin> log_area st" "b \<notin> logged s" for b
      using that lw[OF that(1)] by (auto simp: e apply_writes_other hw log_area_def)
    ultimately show ?thesis using recovered_committed[OF ok, of "d k"] 3 by (simp add: st_def)
  next
    case 4
    then have e: "d k = (apply_writes (home_writes s)
        ((apply_writes (log_writes s) (disk s))(st := log_header s)))(st := put32 (log_header s) 0 0)"
      by (simp add: d_def commit_writes_prefix(3)) (simp add: commit_writes_def st_def)
    have "hdr_n st (d k) = 0" by (simp add: e hdr_n_def)
    note r = recovered_empty[OF this]
    have "d k b = lview s b" if "b \<notin> log_area st" for b
      using that lw[OF that] bio_ok_clean[OF D(1), of b]
      by (auto simp: e home_writes_at apply_writes_other log_area_def)
    then show ?thesis using r 4 by simp
  qed
qed

end
