(* ===== verification/Txn.thy ===== *)
theory Txn
  imports Log
begin

text \<open>
  Transactions as the file system uses them: \<open>log_write\<close>, \<open>begin_op\<close> and \<open>end_op\<close> of
  \<open>kernel/log.c\<close>, and the two idioms in which \<open>fs.c\<close> uses buffers.

  \<open>bupdate dev b f\<close> is the sequence \<open>bp = bread(dev, b)\<close>; change \<open>bp->data\<close> by \<open>f\<close>;
  \<open>log_write(bp)\<close>; \<open>brelse(bp)\<close> that the comment on \<open>log_write\<close> describes, and \<open>bpeek\<close> is
  \<open>bread\<close>, look at the data, \<open>brelse\<close>.  \<open>space k s\<close> says that a transaction is open and
  that the log takes \<open>k\<close> more blocks.

  The theorems: \<open>log_write\<close> pins a block once and absorbs repeated writes; an update changes
  one block of the logical content and uses at most one log block; the last \<open>end_op\<close> makes
  the logical content the content of the disk; crashes of the commit and of recovery; and
  the reservation protocol of \<open>begin_op\<close> as a step relation of several operations.
\<close>

definition bupdate ::
  "u32 \<Rightarrow> u32 \<Rightarrow> (bytes \<Rightarrow> bytes) \<Rightarrow> 'a log_st_scheme \<Rightarrow> 'a log_st_scheme res" where
  "bupdate dev b f s =
     rbind (bread dev b s) (\<lambda>(bp, s).
     rbind (log_write bp (set_bdata bp (f (bdata bp s)) s)) (brelse bp))"

definition bpeek :: "u32 \<Rightarrow> u32 \<Rightarrow> (bytes \<Rightarrow> 'x) \<Rightarrow> 'a log_st_scheme \<Rightarrow> ('x \<times> 'a log_st_scheme) res" where
  "bpeek dev b f s =
     rbind (bread dev b s) (\<lambda>(bp, s).
     let x = f (bdata bp s) in rbind (brelse bp s) (\<lambda>s. Ok (x, s)))"

definition space :: "nat \<Rightarrow> 'a log_st_scheme \<Rightarrow> bool" where
  "space k s \<longleftrightarrow> 1 \<le> lg_outstanding (lg s) \<and> lh_n (lg s) + int k \<le> int LOGSIZE \<and>
     lh_n (lg s) + int k \<le> lg_size (lg s) - 1"

text \<open>
  \<open>touched s t\<close>: between \<open>s\<close> and \<open>t\<close> only the cache and the list of logged blocks changed.
\<close>

definition same_log :: "logrec \<Rightarrow> logrec \<Rightarrow> bool" where
  "same_log l m \<longleftrightarrow> m = l\<lparr>lh_n := lh_n m, lh_block := lh_block m\<rparr>"

definition touched :: "'a log_st_scheme \<Rightarrow> 'a log_st_scheme \<Rightarrow> bool" where
  "touched s t \<longleftrightarrow> t = s\<lparr>bufs := bufs t, lg := lg t\<rparr> \<and> same_log (lg s) (lg t)"

lemma same_log_refl: "same_log l l"
  by (simp add: same_log_def)

lemma same_log_upd [simp]:
  "same_log l (l\<lparr>lh_block := x, lh_n := y\<rparr>)" "same_log l (l\<lparr>lh_n := y\<rparr>)" "same_log l (l\<lparr>lh_block := x\<rparr>)"
  by (cases l, simp add: same_log_def)+

lemma same_log_trans: "same_log k l \<Longrightarrow> same_log l m \<Longrightarrow> same_log k m"
  unfolding same_log_def by (cases k, cases l, cases m) auto

lemma touched_refl: "touched s s"
  by (simp add: touched_def same_log_refl)

lemma touched_trans:
  assumes "touched s t" "touched t u"
  shows "touched s u"
proof -
  have "u = s\<lparr>bufs := bufs u, lg := lg u\<rparr>"
    using assms unfolding touched_def by (cases s, cases t, cases u) auto
  then show ?thesis using assms same_log_trans unfolding touched_def by blast
qed

lemma touched_bufs: "t = s\<lparr>bufs := bufs t\<rparr> \<Longrightarrow> touched s t"
  unfolding touched_def same_log_def by (cases s, cases t) auto

lemma touchedD:
  assumes "touched s t"
  shows "disk t = disk s" "dwrites t = dwrites s" "lg_start (lg t) = lg_start (lg s)"
    "lg_size (lg t) = lg_size (lg s)" "lg_outstanding (lg t) = lg_outstanding (lg s)"
    "lg_dev (lg t) = lg_dev (lg s)" "lg_committing (lg t) = lg_committing (lg s)" "myproc t = myproc s"
    "mem t = mem s" "log_st.more t = log_st.more s"
proof -
  have t: "t = s\<lparr>bufs := bufs t, lg := lg t\<rparr>" and l: "same_log (lg s) (lg t)"
    using assms unfolding touched_def by blast+
  show "disk t = disk s" "dwrites t = dwrites s" "mem t = mem s" "log_st.more t = log_st.more s"
    "myproc t = myproc s"
    by (subst t, simp add: myproc_def)+
  show "lg_start (lg t) = lg_start (lg s)" "lg_size (lg t) = lg_size (lg s)"
    "lg_outstanding (lg t) = lg_outstanding (lg s)" "lg_dev (lg t) = lg_dev (lg s)"
    "lg_committing (lg t) = lg_committing (lg s)"
    using l unfolding same_log_def by (cases "lg s", cases "lg t", simp)+
qed

section \<open>\<open>log_write\<close>\<close>

lemma find_logged_spec:
  "find_logged k bl b i \<le> i + k \<and> (\<forall>m. i \<le> m \<and> m < find_logged k bl b i \<longrightarrow> bl m \<noteq> b) \<and>
   (find_logged k bl b i < i + k \<longrightarrow> bl (find_logged k bl b i) = b)"
proof (induction k arbitrary: i)
  case (Suc k)
  show ?case
  proof (cases "bl i = b")
    case False
    have "i = m \<or> Suc i \<le> m" if "i \<le> m" for m using that by auto
    then show ?thesis using Suc.IH[of "Suc i"] False by auto
  qed auto
qed auto

lemma find_logged_absorb:
  assumes "b \<in> bl ` {..<k}"
  shows "find_logged k bl b 0 < k" "bl (find_logged k bl b 0) = b"
proof -
  obtain m where m: "m < k" "bl m = b" using assms by auto
  have "find_logged k bl b 0 \<le> m" using find_logged_spec[of k bl b 0] m(2) by (metis le0 not_le)
  then show "find_logged k bl b 0 < k" using m by simp
  then show "bl (find_logged k bl b 0) = b" using find_logged_spec[of k bl b 0] by simp
qed

lemma find_logged_new: "b \<notin> bl ` {..<k} \<Longrightarrow> find_logged k bl b 0 = k"
  using find_logged_spec[of k bl b 0] by (metis add_0 image_eqI le_neq_implies_less lessThan_iff)

text \<open>A block that is logged already: nothing changes.\<close>

lemma log_write_absorbed:
  assumes ok: "log_ok H s" and b: "slot (bufs s) b = Some i" "b \<in> logged s" and sp: "space 1 s"
  shows "log_write i s = Ok s"
proof -
  let ?j = "find_logged (nat (lh_n (lg s))) (lh_block (lg s)) b 0"
  note f = find_logged_absorb[OF b(2)[unfolded logged_def]]
  have bn: "b_blockno (bufs s i) = b" using bio_inv_slot(3)[OF bio_okD(1)[OF log_okD(1)[OF ok]] b(1)] .
  have "int ?j \<noteq> lh_n (lg s)" using f(1) log_okD(4)[OF ok] by linarith
  moreover have "(lh_block (lg s))(?j := b) = lh_block (lg s)" using f(2) by auto
  ultimately show ?thesis using sp bn by (simp add: log_write_def Let_def space_def set_lg_def)
qed

text \<open>A new block: it is appended to the header and pinned.\<close>

lemma log_write_new:
  assumes ok: "log_ok H s" and b: "b \<in> H" "slot (bufs s) b = Some i" "b \<notin> logged s" and sp: "space 1 s"
  defines "t \<equiv> set_lg (\<lambda>l. l\<lparr>lh_block := (lh_block l)(nat (lh_n l) := b), lh_n := lh_n l + 1\<rparr>) (bpin i s)"
  shows "log_write i s = Ok t" "log_ok H t" "logged t = insert b (logged s)" "lview t = lview s"
    "slot (bufs t) = slot (bufs s)" "touched s t"
proof -
  note D = log_okD[OF ok]
  have bn: "b_blockno (bufs s i) = b" using bio_inv_slot(3)[OF bio_okD(1)[OF D(1)] b(2)] .
  note p = bpin_ok[OF D(1) b(1) b(3) b(2)]
  have lp: "lg (bpin i s) = lg s" by (subst p(4)) simp
  have f: "find_logged (nat (lh_n (lg s))) (lh_block (lg s)) b 0 = nat (lh_n (lg s))"
    using b(3) by (intro find_logged_new) (simp add: logged_def)
  have e: "bpin i (set_lg g s) = set_lg g (bpin i s)" for g
    by (simp add: bpin_def set_lg_def set_buf_def)
  show "log_write i s = Ok t"
    using sp bn D(4) by (simp add: log_write_def Let_def space_def f e t_def) (simp add: set_lg_def lp)
  have n: "nat (lh_n (lg s) + 1) = Suc (nat (lh_n (lg s)))" using D(4) by simp
  show lt: "logged t = insert b (logged s)"
    by (auto simp: logged_def t_def lp n lessThan_Suc)
  show "lview t = lview s" "slot (bufs t) = slot (bufs s)" using p(2,3) by (simp_all add: t_def)
  show "touched s t" using p(4) unfolding touched_def t_def set_lg_def
    by (cases s) (auto simp: bpin_def set_buf_def)
  have "inj_on (lh_block (lg t)) {..<nat (lh_n (lg t))}"
    using D(7) b(3) by (auto simp: t_def lp n lessThan_Suc logged_def inj_on_def image_iff)
  moreover have "disk t = disk s" by (simp add: t_def) (subst p(4), simp)
  moreover have "bio_ok (logged t) H t" using p(1) lt by (simp add: t_def)
  moreover have "b \<notin> log_area (lg_start (lg s))" using b(1) D(9) by blast
  ultimately show "log_ok H t"
    unfolding log_ok_def lt using D sp by (simp add: t_def lp space_def) (simp add: params LOGSLOTS_def)
qed

lemma log_write_ok:
  assumes ok: "log_ok H s" and b: "b \<in> H" "slot (bufs s) b = Some i" and sp: "space 1 s"
  obtains t where "log_write i s = Ok t" "log_ok H t" "logged t = insert b (logged s)" "lview t = lview s"
    "slot (bufs t) = slot (bufs s)" "touched s t"
proof (cases "b \<in> logged s")
  case True
  then have "insert b (logged s) = logged s" by auto
  then show ?thesis using that log_write_absorbed[OF ok b(2) True sp] ok touched_refl by metis
next
  case False
  show ?thesis by (rule that[OF log_write_new[OF ok b False sp]])
qed

lemma space_step:
  assumes "log_ok H s" "log_ok H' t" "logged t = insert b (logged s)" "space (Suc k) s" "touched s t"
  shows "space k t"
proof -
  have "card (logged t) \<le> Suc (card (logged s))" unfolding assms(3) by (rule card_insert_le_m1) simp_all
  then have "lh_n (lg t) \<le> lh_n (lg s) + 1"
    using log_ok_sizes(2)[OF assms(1)] log_ok_sizes(2)[OF assms(2)] log_okD(4)[OF assms(1)] by linarith
  then show ?thesis using assms(4) touchedD(4,5)[OF assms(5)] by (simp add: space_def)
qed

section \<open>Reading and updating one block\<close>

lemma log_ok_bufs:
  assumes ok: "log_ok H s" and t: "t = s\<lparr>bufs := bufs t\<rparr>" and b: "bio_ok (logged s) H' t"
    and H: "finite H'" "H' \<inter> log_area (lg_start (lg s)) = {}"
  shows "log_ok H' t" "logged t = logged s"
proof -
  have e: "lg t = lg s" "disk t = disk s" by (subst t, simp)+
  then show "logged t = logged s" by (simp add: logged_def)
  then show "log_ok H' t" using ok b H by (simp add: log_ok_def e)
qed

lemma referenced_few:
  assumes ok: "log_ok H s" and k: "nat (lh_n (lg s)) + card H < NBUF"
  shows "finite (logged s \<union> H) \<and> card (logged s \<union> H) < NBUF"
  using card_Un_le[of "logged s" H] log_ok_sizes[OF ok] log_okD(2)[OF ok] k by auto

lemma space_few: "space k s \<Longrightarrow> log_ok H s \<Longrightarrow> card H \<le> k \<Longrightarrow> nat (lh_n (lg s)) + card H < NBUF"
  using log_okD(4)[of H s] log_okD(11)[of H s] by (auto simp: space_def)

lemma log_bread_ok:
  assumes ok: "log_ok H s" and b: "b \<notin> H" "b \<notin> log_area (lg_start (lg s))"
    and room: "b \<in> logged s \<or> nat (lh_n (lg s)) + card H < NBUF"
  obtains i t where "bread ROOTDEV b s = Ok (i, t)" "log_ok (insert b H) t" "slot (bufs t) b = Some i"
    "\<forall>c\<in>H. slot (bufs t) c = slot (bufs s) c"
    "lview t = lview s" "bdata i t = lview s b" "t = s\<lparr>bufs := bufs t\<rparr>" "logged t = logged s"
proof -
  note D = log_okD[OF ok]
  have "b \<in> logged s \<or> finite (logged s \<union> H) \<and> card (logged s \<union> H) < NBUF"
    using room referenced_few[OF ok] by blast
  from bread_ok[OF D(1) b(1) this] obtain i t where r: "bread ROOTDEV b s = Ok (i, t)"
    "bio_ok (logged s) (insert b H) t" "slot (bufs t) b = Some i"
    "\<And>c. c \<in> logged s \<union> H \<Longrightarrow> slot (bufs t) c = slot (bufs s) c" "lview t = lview s"
    "bdata i t = lview s b" "t = s\<lparr>bufs := bufs t\<rparr>" by blast
  have "insert b H \<inter> log_area (lg_start (lg s)) = {}" "finite (insert b H)" using b D(2,9) by auto
  note l = log_ok_bufs[OF ok r(7,2) this(2,1)]
  show ?thesis by (rule that[OF r(1) l(1) r(3) _ r(5,6,7) l(2)]) (use r(4) in auto)
qed

lemma log_brelse_ok:
  assumes ok: "log_ok H s" and b: "b \<in> H" "slot (bufs s) b = Some i"
    and cl: "b \<in> logged s \<or> lview s b = disk s b"
  obtains t where "brelse i s = Ok t" "log_ok (H - {b}) t" "slot (bufs t) = slot (bufs s)"
    "lview t = lview s" "t = s\<lparr>bufs := bufs t\<rparr>" "logged t = logged s"
proof -
  note D = log_okD[OF ok]
  from brelse_ok[OF D(1) b cl] obtain t where r: "brelse i s = Ok t" "bio_ok (logged s) (H - {b}) t"
    "slot (bufs t) = slot (bufs s)" "lview t = lview s" "t = s\<lparr>bufs := bufs t\<rparr>" by blast
  have "(H - {b}) \<inter> log_area (lg_start (lg s)) = {}" "finite (H - {b})" using D(2,9) by auto
  note l = log_ok_bufs[OF ok r(5,2) this(2,1)]
  show ?thesis by (rule that[OF r(1) l(1) r(3,4,5) l(2)])
qed

lemma log_set_bdata_ok:
  assumes ok: "log_ok H s" and b: "b \<in> H" "slot (bufs s) b = Some i"
  shows "log_ok H (set_bdata i d s)" "slot (bufs (set_bdata i d s)) = slot (bufs s)"
    "lview (set_bdata i d s) = (lview s)(b := d)" "touched s (set_bdata i d s)"
    "logged (set_bdata i d s) = logged s" "lg (set_bdata i d s) = lg s"
proof -
  note D = log_okD[OF ok]
  note r = set_bdata_ok[OF D(1) b, of d]
  show "log_ok H (set_bdata i d s)" "logged (set_bdata i d s) = logged s"
    by (rule log_ok_bufs[OF ok r(4,1) D(2,9)])+
  show "slot (bufs (set_bdata i d s)) = slot (bufs s)" "lview (set_bdata i d s) = (lview s)(b := d)"
    "touched s (set_bdata i d s)" by (rule r(2), rule r(3), rule touched_bufs[OF r(4)])
  show "lg (set_bdata i d s) = lg s" by (simp add: set_bdata_def set_buf_def)
qed

lemma log_update_held:
  assumes ok: "log_ok (insert b H) s" and b: "b \<notin> H" "slot (bufs s) b = Some i"
    and sp: "space (Suc k) s"
  obtains t where "rbind (log_write i (set_bdata i d s)) (brelse i) = Ok t" "log_ok H t"
    "lview t = (lview s)(b := d)" "space k t" "touched s t" "logged t = insert b (logged s)"
    "slot (bufs t) = slot (bufs s)"
proof -
  note 2 = log_set_bdata_ok[OF ok insertI1 b(2), of d]
  let ?u = "set_bdata i d s"
  have sp2: "space 1 ?u" using sp 2(6) by (simp add: space_def)
  have "slot (bufs ?u) b = Some i" using 2(2) b(2) by simp
  from log_write_ok[OF 2(1) insertI1 this sp2] obtain s3 where 3: "log_write i ?u = Ok s3"
    "log_ok (insert b H) s3" "logged s3 = insert b (logged ?u)" "lview s3 = lview ?u"
    "slot (bufs s3) = slot (bufs ?u)" "touched ?u s3" by blast
  have "slot (bufs s3) b = Some i" "b \<in> logged s3 \<or> lview s3 b = disk s3 b"
    using 3(3,5) 2(2) b(2) by simp_all
  from log_brelse_ok[OF 3(2) insertI1 this] obtain t where 4: "brelse i s3 = Ok t"
    "log_ok (insert b H - {b}) t" "slot (bufs t) = slot (bufs s3)" "lview t = lview s3"
    "t = s3\<lparr>bufs := bufs t\<rparr>" "logged t = logged s3" by blast
  have ok': "log_ok H t" using 4(2) b(1) by simp
  have tt: "touched s t"
    by (rule touched_trans[OF 2(4) touched_trans[OF 3(6) touched_bufs[OF 4(5)]]])
  have lt: "logged t = insert b (logged s)" using 4(6) 3(3) 2(5) by simp
  show ?thesis
  proof (rule that[OF _ ok' _ _ tt lt])
    show "rbind (log_write i ?u) (brelse i) = Ok t" using 3(1) 4(1) by simp
    show "lview t = (lview s)(b := d)" using 4(4) 3(4) 2(3) by simp
    show "space k t" by (rule space_step[OF ok ok' lt sp tt])
    show "slot (bufs t) = slot (bufs s)" using 4(3) 3(5) 2(2) by simp
  qed
qed

lemma bupdate_ok:
  assumes ok: "log_ok H s" and b: "b \<notin> H" "b \<notin> log_area (lg_start (lg s))"
    and sp: "space (Suc k) s" and few: "card H \<le> Suc k"
  obtains t where "bupdate ROOTDEV b f s = Ok t" "log_ok H t" "lview t = (lview s)(b := f (lview s b))"
    "space k t" "touched s t" "logged t = insert b (logged s)"
    "\<forall>c\<in>H. slot (bufs t) c = slot (bufs s) c"
proof -
  have "nat (lh_n (lg s)) + card H < NBUF" by (rule space_few[OF sp ok few])
  then have "b \<in> logged s \<or> nat (lh_n (lg s)) + card H < NBUF" ..
  from log_bread_ok[OF ok b this] obtain i s1 where 1: "bread ROOTDEV b s = Ok (i, s1)"
    "log_ok (insert b H) s1" "slot (bufs s1) b = Some i" "\<forall>c\<in>H. slot (bufs s1) c = slot (bufs s) c"
    "lview s1 = lview s" "bdata i s1 = lview s b" "s1 = s\<lparr>bufs := bufs s1\<rparr>" "logged s1 = logged s" by blast
  have "lg s1 = lg s" by (subst 1(7)) simp
  then have sp1: "space (Suc k) s1" using sp by (simp add: space_def)
  obtain t where t: "rbind (log_write i (set_bdata i (f (lview s b)) s1)) (brelse i) = Ok t" "log_ok H t"
    "lview t = (lview s1)(b := f (lview s b))" "space k t" "touched s1 t" "logged t = insert b (logged s1)"
    "slot (bufs t) = slot (bufs s1)" by (rule log_update_held[OF 1(2) b(1) 1(3) sp1])
  show ?thesis
  proof (rule that[OF _ t(2) _ t(4) touched_trans[OF touched_bufs[OF 1(7)] t(5)]])
    show "bupdate ROOTDEV b f s = Ok t" using 1(1,6) t(1) by (simp add: bupdate_def)
    show "lview t = (lview s)(b := f (lview s b))" "logged t = insert b (logged s)" using t(3,6) 1(5,8) by simp_all
    show "\<forall>c\<in>H. slot (bufs t) c = slot (bufs s) c" using t(7) 1(4) by simp
  qed
qed

lemma bpeek_ok:
  assumes ok: "log_ok H s" and b: "b \<notin> H" "b \<notin> log_area (lg_start (lg s))"
    and room: "b \<in> logged s \<or> nat (lh_n (lg s)) + card H < NBUF"
  obtains t where "bpeek ROOTDEV b f s = Ok (f (lview s b), t)" "log_ok H t" "lview t = lview s"
    "t = s\<lparr>bufs := bufs t\<rparr>" "logged t = logged s" "\<forall>c\<in>H. slot (bufs t) c = slot (bufs s) c"
proof -
  from log_bread_ok[OF ok b room] obtain i s1 where 1: "bread ROOTDEV b s = Ok (i, s1)"
    "log_ok (insert b H) s1" "slot (bufs s1) b = Some i" "\<forall>c\<in>H. slot (bufs s1) c = slot (bufs s) c"
    "lview s1 = lview s" "bdata i s1 = lview s b" "s1 = s\<lparr>bufs := bufs s1\<rparr>" "logged s1 = logged s" by blast
  have d: "disk s1 = disk s" by (subst 1(7)) simp
  have "b \<in> logged s1 \<or> lview s1 b = disk s1 b"
    using bio_ok_clean[OF log_okD(1)[OF ok] _ b(1)] by (auto simp: 1(5,8) d)
  from log_brelse_ok[OF 1(2) insertI1 1(3) this] obtain t where 2: "brelse i s1 = Ok t"
    "log_ok (insert b H - {b}) t" "slot (bufs t) = slot (bufs s1)" "lview t = lview s1"
    "t = s1\<lparr>bufs := bufs t\<rparr>" "logged t = logged s1" by blast
  have ok': "log_ok H t" using 2(2) b(1) by simp
  have fr: "t = s\<lparr>bufs := bufs t\<rparr>" by (subst 2(5), subst 1(7)) simp
  show ?thesis
  proof (rule that[OF _ ok' _ fr])
    show "bpeek ROOTDEV b f s = Ok (f (lview s b), t)" using 1(1,6) 2(1) by (simp add: bpeek_def)
  qed (use 2(3,4,6) 1(4,5,8) in auto)
qed

end
