(* ===== verification/Crash.thy ===== *)
theory Crash
  imports Txn
begin

text \<open>
  What the log promises across a crash, and how operations share it.

  A crash loses the memory and keeps the disk, on which a prefix of the issued writes has
  arrived; the machine then starts with an empty cache (\<open>binit\<close>) and runs \<open>initlog\<close>.
  \<open>crash_atomic\<close> says that whatever the prefix, the blocks outside the log then have all of
  their old contents or all of their new contents.

  \<open>opstep\<close> is the step relation of several file-system operations that interleave their
  calls of \<open>begin_op\<close>, \<open>log_write\<close> and \<open>end_op\<close>; each operation carries the number of
  \<open>log_write\<close> calls it has made.
\<close>

definition crash_atomic :: "superblock \<Rightarrow> 'a log_st_scheme \<Rightarrow> 'a log_st_scheme \<Rightarrow> bool" where
  "crash_atomic sb s s' \<longleftrightarrow>
     (\<exists>ws. dwrites s' = dwrites s @ ws \<and>
       (\<forall>k t0. (\<forall>j. fresh (bufs t0 j)) \<and> disk t0 = apply_writes (take k ws) (disk s) \<longrightarrow>
         (\<exists>t :: 'a log_st_scheme. initlog ROOTDEV sb (binit t0) = Ok t \<and>
           ((\<forall>b. b \<notin> log_area (sb_logstart sb) \<longrightarrow> lview t b = disk s b) \<or>
            (\<forall>b. b \<notin> log_area (sb_logstart sb) \<longrightarrow> lview t b = lview s b)))))"

inductive opstep ::
  "'a log_st_scheme \<times> (nat \<rightharpoonup> nat) \<Rightarrow> 'a log_st_scheme \<times> (nat \<rightharpoonup> nat) \<Rightarrow> bool" where
  begin_step: "begin_op s = Ok t \<Longrightarrow> w p = None \<Longrightarrow> opstep (s, w) (t, w(p \<mapsto> 0))"
| write_step: "log_write i s = Ok t \<Longrightarrow> w p = Some k \<Longrightarrow> k < MAXOPBLOCKS \<Longrightarrow>
    opstep (s, w) (t, w(p \<mapsto> Suc k))"
| end_step: "end_op s = Ok t \<Longrightarrow> w p = Some k \<Longrightarrow> opstep (s, w) (t, w(p := None))"

inductive_cases opstepE: "opstep (s, w) (t, v)"

text \<open>The blocks that the running operations may still add to the log.\<close>

definition owed :: "(nat \<rightharpoonup> nat) \<Rightarrow> nat" where
  "owed w = (\<Sum>p\<in>dom w. MAXOPBLOCKS - the (w p))"

definition reserved :: "'a log_st_scheme \<times> (nat \<rightharpoonup> nat) \<Rightarrow> bool" where
  "reserved c \<longleftrightarrow> (case c of (s, w) \<Rightarrow>
     finite (dom w) \<and> lg_outstanding (lg s) = int (card (dom w)) \<and> \<not> lg_committing (lg s) \<and>
     0 \<le> lh_n (lg s) \<and> (\<forall>p k. w p = Some k \<longrightarrow> k \<le> MAXOPBLOCKS) \<and>
     (w \<noteq> Map.empty \<longrightarrow> lh_n (lg s) + int (owed w) \<le> int LOGSIZE))"

text \<open>A machine with a given disk, before any initialisation, for examples.\<close>

definition zero_buf :: buf where
  "zero_buf = \<lparr>b_valid = False, b_dev = 0, b_blockno = 0, b_lock = initsleeplock, b_refcnt = 0,
     b_prev = 0, b_next = 0, b_data = (\<lambda>_. 0)\<rparr>"

definition some_log :: logrec where
  "some_log = \<lparr>lg_start = 2, lg_size = 45, lg_outstanding = 1, lg_committing = False,
     lg_dev = ROOTDEV, lh_n = 0, lh_block = (\<lambda>_. 0)\<rparr>"

definition power_on :: "(u32 \<Rightarrow> bytes) \<Rightarrow> 'a \<Rightarrow> 'a log_st_scheme" where
  "power_on d m = \<lparr>mem = (\<lambda>_. 0), kernel_end = 0, freelist = 0, procs = (\<lambda>_. zero_proc), curproc = 0,
     disk = d, dwrites = [], bufs = (\<lambda>_. zero_buf), lg = some_log, \<dots> = m\<rparr>"

text \<open>The superblock that \<open>mkfs\<close> computes, for a file system with 1600 blocks and two inodes in use.\<close>

definition some_sb :: superblock where
  "some_sb = \<lparr>sb_magic = FSMAGIC, sb_size = 300000, sb_nblocks = 298413, sb_ninodes = 12000, sb_nlog = 45,
     sb_logstart = 2, sb_inodestart = 49, sb_bmapstart = 1550, sb_ibmapstart = 47,
     sb_freeinodes = 11998, sb_freeblocks = 298400\<rparr>"

text \<open>
  Three operations that have logged \<open>m\<close> different blocks between them, in a log of \<open>LOGSIZE\<close>
  blocks, and the number of blocks of each.
\<close>

definition busy :: "nat \<Rightarrow> int \<Rightarrow> log_st" where
  "busy m ops = (power_on (\<lambda>_ _. 0) ())
     \<lparr>bufs := (\<lambda>i. zero_buf\<lparr>b_blockno := of_nat i, b_refcnt := (if i < m then 1 else 0)\<rparr>),
      lg := some_log\<lparr>lg_outstanding := ops, lh_n := int m, lh_block := (\<lambda>i. if i < m then of_nat i else 0)\<rparr>\<rparr>"

definition quota :: "nat \<Rightarrow> nat \<rightharpoonup> nat" where
  "quota m p = (if p < 3 then Some (min MAXOPBLOCKS (m - MAXOPBLOCKS * p)) else None)"

section \<open>Replaying a log twice\<close>

lemma apply_writes_determined: "b \<in> fst ` set ws \<Longrightarrow> apply_writes ws d b = apply_writes ws d' b"
proof (induction ws rule: rev_induct)
  case (snoc w ws)
  then show ?case by (cases w) auto
qed simp

lemma replay_prefix: "apply_writes ws (apply_writes (take j ws) d) = apply_writes ws d"
proof
  fix b
  show "apply_writes ws (apply_writes (take j ws) d) b = apply_writes ws d b"
    by (cases "b \<in> fst ` set ws")
      (auto simp: apply_writes_other fst_take intro: apply_writes_determined)
qed

lemma recovered_header: "valid_log st d \<Longrightarrow> hdr_n st (recovered st d) = 0"
  by (simp add: recovered_def recover_writes_def hdr_n_def)

lemma recovery_prefix:
  assumes v: "valid_log st d"
    and d'_def: "d' = apply_writes (take j (recover_writes st d)) d"
  shows "valid_log st d' \<and> (\<forall>b. b \<notin> log_area st \<longrightarrow> recovered st d' b = recovered st d b)"
proof -
  define ws where "ws = map (\<lambda>i. (hdr_block st d i, d (log_slot st i))) [0..<nat (hdr_n st d)]"
  have rw: "recover_writes st d = ws @ [(st, put32 (d st) 0 0)]" by (simp add: recover_writes_def ws_def)
  show ?thesis
  proof (cases "j \<le> length ws")
    case False
    then have "d' = recovered st d" by (simp add: d'_def rw recovered_def)
    then show ?thesis using recovered_empty[OF recovered_header[OF v]] by simp
  next
    case True
    then have d': "d' = apply_writes (take j ws) d" by (simp add: d'_def rw)
    have dom: "fst ` set ws \<inter> log_area st = {}" using v by (auto simp: ws_def valid_log_def)
    have same: "d' b = d b" if "b \<in> log_area st" for b
      unfolding d' by (rule apply_writes_other[OF fst_take]) (use that dom in blast)
    have h: "hdr_n st d' = hdr_n st d" "hdr_block st d' i = hdr_block st d i" for i
      using same[of st] by (simp_all add: hdr_n_def hdr_block_def)
    have "log_slot st i \<in> log_area st" if "i < nat (hdr_n st d)" for i
      using v that by (intro log_area_slot) (auto simp: valid_log_def)
    then have "recover_writes st d' = recover_writes st d"
      using h same by (simp add: recover_writes_def)
    then have "recovered st d' = recovered st d"
      using replay_prefix[of ws j d] by (simp add: recovered_def rw d')
    moreover have "valid_log st d'" using v h by (simp add: valid_log_def)
    ultimately show ?thesis by simp
  qed
qed

section \<open>Starting up\<close>

lemma boot_ok:
  assumes fr: "\<forall>j. fresh (bufs t0 j)" and v: "valid_log (sb_logstart sb) (disk t0)"
  shows "\<exists>t. initlog ROOTDEV sb (binit t0) = Ok t \<and> bio_ok {} {} t \<and> lview t = disk t \<and>
    disk t = recovered (sb_logstart sb) (disk t0) \<and>
    dwrites t = dwrites t0 @ recover_writes (sb_logstart sb) (disk t0) \<and>
    lh_n (lg t) = 0 \<and> lg_start (lg t) = sb_logstart sb \<and> lg_size (lg t) = sint (sb_nlog sb) \<and>
    lg_dev (lg t) = ROOTDEV"
proof -
  note B = binit_ok[OF fr]
  let ?s = "set_lg (\<lambda>l. l\<lparr>lg_start := sb_logstart sb, lg_size := sint (sb_nlog sb), lg_dev := ROOTDEV\<rparr>) (binit t0)"
  have e: "disk (binit t0) = disk t0" "dwrites (binit t0) = dwrites t0" by (subst conjunct2[OF conjunct2[OF B]], simp)+
  have "bio_ok {} {} ?s" using B by simp
  moreover have "lg_dev (lg ?s) = ROOTDEV" "valid_log (lg_start (lg ?s)) (disk ?s)" using v e by simp_all
  ultimately obtain t where t: "recover_from_log ?s = Ok t" "bio_ok {} {} t" "lh_n (lg t) = 0"
    "disk t = recovered (lg_start (lg ?s)) (disk ?s)"
    "dwrites t = dwrites ?s @ recover_writes (lg_start (lg ?s)) (disk ?s)"
    "\<exists>bl. lg t = (lg ?s)\<lparr>lh_n := 0, lh_block := bl\<rparr>" using recover_ok[of ?s] by blast
  have "lview t = disk t" using bio_ok_clean[OF t(2)] by auto
  moreover have "initlog ROOTDEV sb (binit t0) = Ok t"
    using t(1) by (simp add: initlog_def params)
  ultimately show ?thesis using t(2-6) e by auto
qed

lemma log_ok_idle:
  assumes "bio_ok {} {} t" "lh_n (lg t) = 0" "lg_dev (lg t) = ROOTDEV" "lg_size (lg t) \<le> int NBUF"
    "hdr_n (lg_start (lg t)) (disk t) = 0"
  shows "log_ok {} t"
  using assms by (simp add: log_ok_def logged_def NBUF_def)

lemma boot_log_ok:
  assumes fr: "\<forall>j. fresh (bufs t0 j)" and v: "valid_log (sb_logstart sb) (disk t0)"
    and n: "sint (sb_nlog sb) \<le> int NBUF" and t: "initlog ROOTDEV sb (binit t0) = Ok t"
  shows "log_ok {} t"
  using boot_ok[OF fr v] t n recovered_header[OF v] by (auto intro!: log_ok_idle)

section \<open>Ending an operation\<close>

lemma commit_log_ok:
  assumes ok: "log_ok {} s" and c: "commit s = Ok t"
  shows "log_ok {} t" "lg t = (lg s)\<lparr>lh_n := 0\<rparr>" "dwrites t = dwrites s @ commit_writes s"
    "disk t = apply_writes (commit_writes s) (disk s)"
proof -
  from commit_ok[OF ok] c have b: "bio_ok {} {} t"
    and w: "wrote (commit_writes s) (set_lg (\<lambda>l. l\<lparr>lh_n := 0\<rparr>) s) t" by auto
  show l: "lg t = (lg s)\<lparr>lh_n := 0\<rparr>" using wrote_lg[OF w] by simp
  show "dwrites t = dwrites s @ commit_writes s" and d: "disk t = apply_writes (commit_writes s) (disk s)"
    using wrote_views(2,3)[OF w] by simp_all
  note D = log_okD[OF ok]
  have "hdr_n (lg_start (lg s)) (disk t) = 0"
    using D(4,10) by (cases "0 < lh_n (lg s)") (auto simp: d commit_writes_def hdr_n_def)
  then show "log_ok {} t" using log_ok_idle[OF b] D(3,11) l by simp
qed

lemma commit_contents:
  assumes ok: "log_ok {} s" and c: "commit s = Ok t" and b: "b \<notin> log_area (lg_start (lg s))"
  shows "disk t b = lview s b" "lview t b = lview s b"
proof -
  note C = commit_log_ok[OF ok c] and D = log_okD[OF ok]
  have "b \<notin> fst ` set (log_writes s)"
    using b log_ok_sizes(4)[OF ok] unfolding write_domains by (auto simp: log_area_def)
  then show "disk t b = lview s b"
    using b bio_ok_clean[OF D(1), of b] D(4) unfolding C(4)
    by (auto simp: commit_writes_def home_writes_at apply_writes_other log_area_def logged_def)
  then show "lview t b = lview s b"
    using bio_ok_clean[OF log_okD(1)[OF C(1)], of b] C(2) by (simp add: logged_def)
qed

lemma log_ok_set_lg:
  "log_ok H (set_lg (\<lambda>l. l\<lparr>lg_outstanding := x\<rparr>) s) = log_ok H s"
  "log_ok H (set_lg (\<lambda>l. l\<lparr>lg_committing := y\<rparr>) s) = log_ok H s"
  "log_ok H (set_lg (\<lambda>l. l\<lparr>lg_outstanding := f l\<rparr>) s) = log_ok H s"
  by (simp_all add: log_ok_def logged_def)

lemma end_op_last:
  assumes ok: "log_ok {} s" and o: "lg_outstanding (lg s) = 1" "\<not> lg_committing (lg s)"
  obtains u t where "end_op s = Ok t" "log_ok {} u" "commit u = Ok (set_lg (\<lambda>l. l\<lparr>lg_committing := True\<rparr>) t)"
    "lview u = lview s" "disk u = disk s" "dwrites u = dwrites s" "log_ok {} t" "lh_n (lg t) = 0"
    "lg_outstanding (lg t) = 0" "\<not> lg_committing (lg t)" "lg_start (lg t) = lg_start (lg s)"
    "lg_start (lg u) = lg_start (lg s)"
proof -
  let ?o = "set_lg (\<lambda>l. l\<lparr>lg_outstanding := lg_outstanding l - 1\<rparr>)"
  let ?c = "\<lambda>x. set_lg (\<lambda>l. l\<lparr>lg_committing := x\<rparr>)"
  define u where "u = ?c True (?o s)"
  have u: "log_ok {} u" using ok by (simp add: u_def log_ok_set_lg)
  from commit_ok[OF u] obtain v where v: "commit u = Ok v" by blast
  note C = commit_log_ok[OF u v]
  have "end_op s = Ok (?c False v)" using o v by (simp add: end_op_def u_def)
  moreover have "?c True (?c False v) = v" using C(2) by (simp add: set_lg_def u_def)
  ultimately show ?thesis
    using that[of "?c False v" u] u v C o by (simp add: log_ok_set_lg u_def)
qed

lemma commit_crash_atomic:
  assumes ok: "log_ok {} s" and c: "commit s = Ok t" and sb: "sb_logstart sb = lg_start (lg s)"
  shows "crash_atomic sb s t"
  unfolding crash_atomic_def
proof (intro exI[of _ "commit_writes s"] conjI allI impI)
  show "dwrites t = dwrites s @ commit_writes s" by (rule commit_log_ok(3)[OF ok c])
  fix k and t0 :: "'a log_st_scheme"
  assume t0: "(\<forall>j. fresh (bufs t0 j)) \<and> disk t0 = apply_writes (take k (commit_writes s)) (disk s)"
  then have "disk t0 = apply_writes (take k (commit_writes s)) (disk s)" by simp
  note p = commit_prefix_recovered[OF ok, of k, folded this, folded sb]
  from boot_ok[of t0 sb] t0 p obtain r where r: "initlog ROOTDEV sb (binit t0) = Ok r" "lview r = disk r"
    "disk r = recovered (sb_logstart sb) (disk t0)" by auto
  have "(\<forall>b. b \<notin> log_area (sb_logstart sb) \<longrightarrow> lview r b = disk s b) \<or>
      (\<forall>b. b \<notin> log_area (sb_logstart sb) \<longrightarrow> lview r b = lview s b)"
    using p by (cases "k \<le> nat (lh_n (lg s))") (simp_all add: r(2,3))
  then show "\<exists>r. initlog ROOTDEV sb (binit t0) = Ok r \<and>
      ((\<forall>b. b \<notin> log_area (sb_logstart sb) \<longrightarrow> lview r b = disk s b) \<or>
       (\<forall>b. b \<notin> log_area (sb_logstart sb) \<longrightarrow> lview r b = lview s b))" using r(1) by blast
qed

section \<open>The reservation\<close>

lemma block_ops_lg:
  "bread dev b s = Ok (i, t) \<Longrightarrow> lg t = lg s"
  "brelse i s = Ok t \<Longrightarrow> lg t = lg s"
  "bwrite i s = Ok t \<Longrightarrow> lg t = lg s"
  "lg (set_bdata i d s) = lg s" "lg (bunpin i s) = lg s"
proof -
  show "lg t = lg s" if "bread dev b s = Ok (i, t)" using arg_cong[OF bread_frame[OF that], of lg] by simp
  show "lg t = lg s" if "brelse i s = Ok t" using arg_cong[OF brelse_frame[OF that], of lg] by simp
  show "lg t = lg s" if "bwrite i s = Ok t" using arg_cong[OF bwrite_frame[OF that], of lg] by simp
qed (simp_all add: set_bdata_def set_buf_def bunpin_def)

lemma log_loops_lg:
  "install_trans r s = Ok t \<Longrightarrow> lg t = lg s"
  "write_log s = Ok t \<Longrightarrow> lg t = lg s"
  "write_head s = Ok t \<Longrightarrow> lg t = lg s"
proof -
  have i: "install_block r k u = Ok v \<Longrightarrow> lg v = lg u" for k and u v :: "'a log_st_scheme"
    by (cases r) (auto simp: install_block_def block_ops_lg dest!: block_ops_lg(1-3) split: if_splits)
  show "install_trans r s = Ok t \<Longrightarrow> lg t = lg s"
    unfolding install_trans_def by (erule foldR_invariant[where P = "\<lambda>v. lg v = lg s"]) (auto dest: i)
  have w: "write_log_block k u = Ok v \<Longrightarrow> lg v = lg u" for k and u v :: "'a log_st_scheme"
    by (auto simp: write_log_block_def block_ops_lg dest!: block_ops_lg(1-3) split: if_splits)
  show "write_log s = Ok t \<Longrightarrow> lg t = lg s"
    unfolding write_log_def by (erule foldR_invariant[where P = "\<lambda>v. lg v = lg s"]) (auto dest: w)
  show "write_head s = Ok t \<Longrightarrow> lg t = lg s"
    by (auto simp: write_head_def Let_def block_ops_lg dest!: block_ops_lg(1-3) split: if_splits)
qed

lemma commit_lg: "commit s = Ok t \<Longrightarrow> 0 \<le> lh_n (lg s) \<Longrightarrow> lg t = (lg s)\<lparr>lh_n := 0\<rparr>"
  by (auto simp: commit_def dest!: log_loops_lg split: if_splits)

lemma end_op_lg:
  assumes "end_op s = Ok t" "0 \<le> lh_n (lg s)"
  shows "lg t = (lg s)\<lparr>lg_outstanding := lg_outstanding (lg s) - 1,
    lh_n := (if lg_outstanding (lg s) = 1 then 0 else lh_n (lg s))\<rparr> \<and> \<not> lg_committing (lg s)"
  using assms by (auto simp: end_op_def Let_def dest!: commit_lg split: if_splits)

lemma lg_set_buf [simp]: "lg (set_buf i f s) = lg s"
  by (simp add: set_buf_def)

lemma log_write_lg:
  assumes "log_write i s = Ok t" "0 \<le> lh_n (lg s)"
  shows "same_log (lg s) (lg t)" "lh_n (lg t) = lh_n (lg s) \<or> lh_n (lg t) = lh_n (lg s) + 1"
  using assms by (auto simp: log_write_def Let_def bpin_def split: if_splits)

lemma owed_upd:
  assumes "finite (dom w)"
  shows "w p = None \<Longrightarrow> owed (w(p \<mapsto> k)) = owed w + (MAXOPBLOCKS - k)"
    "w p = Some j \<Longrightarrow> owed (w(p := None)) + (MAXOPBLOCKS - j) = owed w"
    "w p = Some j \<Longrightarrow> owed (w(p \<mapsto> k)) + (MAXOPBLOCKS - j) = owed w + (MAXOPBLOCKS - k)"
proof -
  have rest: "(\<Sum>q\<in>dom w - {p}. MAXOPBLOCKS - the ((w(p \<mapsto> k)) q)) = (\<Sum>q\<in>dom w - {p}. MAXOPBLOCKS - the (w q))"
    by (rule sum.cong) auto
  show "w p = None \<Longrightarrow> owed (w(p \<mapsto> k)) = owed w + (MAXOPBLOCKS - k)"
    using assms rest by (simp add: owed_def domIff Diff_insert_absorb)
  assume j: "w p = Some j"
  then have "p \<in> dom w" by auto
  then have s: "owed w = (MAXOPBLOCKS - j) + (\<Sum>q\<in>dom w - {p}. MAXOPBLOCKS - the (w q))"
    using assms j by (simp add: owed_def sum.remove[of "dom w" p])
  have "(\<Sum>q\<in>dom w - {p}. MAXOPBLOCKS - the ((w(p := None)) q)) = (\<Sum>q\<in>dom w - {p}. MAXOPBLOCKS - the (w q))"
    by (rule sum.cong) auto
  then show "owed (w(p := None)) + (MAXOPBLOCKS - j) = owed w" using s by (simp add: owed_def)
  have "owed (w(p \<mapsto> k)) = (MAXOPBLOCKS - k) + (\<Sum>q\<in>dom w - {p}. MAXOPBLOCKS - the (w q))"
    using assms rest \<open>p \<in> dom w\<close> sum.remove[of "dom w" p "\<lambda>q. MAXOPBLOCKS - the ((w(p \<mapsto> k)) q)"]
    by (simp add: owed_def insert_absorb)
  then show "owed (w(p \<mapsto> k)) + (MAXOPBLOCKS - j) = owed w + (MAXOPBLOCKS - k)" using s by simp
qed

lemma owed_bound: "finite (dom w) \<Longrightarrow> owed w \<le> card (dom w) * MAXOPBLOCKS"
  unfolding owed_def using sum_bounded_above[of "dom w" "\<lambda>p. MAXOPBLOCKS - the (w p)" MAXOPBLOCKS] by simp

lemma reserved_step: "opstep c c' \<Longrightarrow> reserved c \<Longrightarrow> reserved c'"
proof (induction rule: opstep.induct)
  case (begin_step s t w p)
  then have fin: "finite (dom w)" by (simp add: reserved_def)
  have lt: "lg t = (lg s)\<lparr>lg_outstanding := lg_outstanding (lg s) + 1\<rparr>"
    and room: "lh_n (lg s) + (lg_outstanding (lg s) + 1) * int MAXOPBLOCKS \<le> int LOGSIZE"
    using begin_step(1) by (auto simp: begin_op_def split: if_splits)
  have "int (owed (w(p \<mapsto> 0))) \<le> (int (card (dom w)) + 1) * int MAXOPBLOCKS"
    using owed_upd(1)[OF fin begin_step(2), of 0] owed_bound[OF fin]
    by (simp add: algebra_simps flip: of_nat_mult)
  moreover have "card (dom (w(p \<mapsto> 0))) = Suc (card (dom w))"
    using begin_step(2) fin by (simp add: domIff card_insert_if)
  ultimately show ?case using begin_step(3) lt room fin by (auto simp: reserved_def)
next
  case (write_step i s t w p k)
  then have fin: "finite (dom w)" and r: "lh_n (lg s) + int (owed w) \<le> int LOGSIZE" "0 \<le> lh_n (lg s)"
    by (auto simp: reserved_def)
  note l = log_write_lg[OF write_step(1) r(2)]
  have lt: "lg_outstanding (lg t) = lg_outstanding (lg s)" "lg_committing (lg t) = lg_committing (lg s)"
    using l(1) unfolding same_log_def by (cases "lg s", cases "lg t", simp)+
  have "owed (w(p \<mapsto> Suc k)) + 1 = owed w"
    using owed_upd(3)[OF fin write_step(2), of "Suc k"] write_step(3) by simp
  then have "lh_n (lg t) + int (owed (w(p \<mapsto> Suc k))) \<le> int LOGSIZE" using l(2) r(1) by linarith
  moreover have "dom (w(p \<mapsto> Suc k)) = dom w" using write_step(2) by auto
  moreover have "\<forall>q j. (w(p \<mapsto> Suc k)) q = Some j \<longrightarrow> j \<le> MAXOPBLOCKS"
    using write_step(3,4) by (simp add: reserved_def)
  moreover have "0 \<le> lh_n (lg t)" using l(2) r(2) by linarith
  ultimately show ?case using write_step(4) lt unfolding reserved_def split_conv by simp
next
  case (end_step s t w p k)
  then have fin: "finite (dom w)" and r: "lh_n (lg s) + int (owed w) \<le> int LOGSIZE" "0 \<le> lh_n (lg s)"
    by (auto simp: reserved_def)
  note l = end_op_lg[OF end_step(1) r(2)]
  have "owed (w(p := None)) \<le> owed w" using owed_upd(2)[OF fin end_step(2)] by simp
  then have "lh_n (lg t) + int (owed (w(p := None))) \<le> int LOGSIZE" "0 \<le> lh_n (lg t)" using l r by auto
  moreover have "int (card (dom (w(p := None)))) = int (card (dom w)) - 1"
    using card_Suc_Diff1[OF fin, of p] end_step(2) by (auto simp: domIff)
  moreover have "\<forall>q j. (w(p := None)) q = Some j \<longrightarrow> j \<le> MAXOPBLOCKS"
    using end_step(3) by (simp add: reserved_def)
  ultimately show ?case using end_step(3) l fin unfolding reserved_def split_conv by simp
qed

lemma reserved_reachable: "opstep\<^sup>*\<^sup>* c c' \<Longrightarrow> reserved c \<Longrightarrow> reserved c'"
  by (induction rule: rtranclp_induct) (auto intro: reserved_step)

lemma log_write_within:
  assumes "reserved (s, w)" "w p = Some k" "k < MAXOPBLOCKS" "int LOGSIZE \<le> lg_size (lg s) - 1"
  shows "\<exists>t. log_write i s = Ok t"
proof -
  have fin: "finite (dom w)" using assms(1) by (simp add: reserved_def)
  have "0 < owed w" using owed_upd(2)[OF fin assms(2)] assms(3) by simp
  moreover have "card (dom w) \<noteq> 0" using fin assms(2) by auto
  ultimately show ?thesis using assms by (auto simp: reserved_def log_write_def Let_def)
qed

section \<open>An open transaction, for examples\<close>

lemma power_on_simps [simp]:
  "fresh (bufs (power_on d m) j)" "disk (power_on d m) = d" "lg (power_on d m) = some_log"
  "dwrites (power_on d m) = []"
  by (simp_all add: power_on_def fresh_def zero_buf_def initsleeplock_def)

lemma zero_disk_log: "hdr_n st (\<lambda>_ _. 0) = 0"
  by (simp add: hdr_n_def get32_def getLE_num)

lemma binit_lg: "\<forall>j. fresh (bufs s j) \<Longrightarrow> lg (binit s) = lg s \<and> disk (binit s) = disk s"
  using arg_cong[OF conjunct2[OF conjunct2[OF binit_ok[of s]]], of lg]
    arg_cong[OF conjunct2[OF conjunct2[OF binit_ok[of s]]], of disk] by simp

lemma power_on_ok:
  assumes "hdr_n 2 d = 0"
  shows "log_ok {} (binit (power_on d m))" "space 44 (binit (power_on d m))"
    "lview (binit (power_on d m)) = d" "lg (binit (power_on d m)) = some_log"
    "disk (binit (power_on d m)) = d"
proof -
  have f: "\<forall>j. fresh (bufs (power_on d m) j)" by simp
  note b = binit_ok[OF f] binit_lg[OF f]
  show "log_ok {} (binit (power_on d m))"
    using b assms by (intro log_ok_idle) (simp_all add: some_log_def NBUF_def)
  show "space 44 (binit (power_on d m))" using b by (simp add: space_def some_log_def params)
  show "lview (binit (power_on d m)) = d" "lg (binit (power_on d m)) = some_log"
    "disk (binit (power_on d m)) = d" using b by simp_all
qed

text \<open>A transaction that has changed block 100 of an empty disk.\<close>

lemma open_transaction:
  "\<exists>s :: log_st. log_ok {} s \<and> logged s = {100} \<and> lview s = (\<lambda>_ _. 0)(100 := \<lambda>_. 7) \<and>
     disk s = (\<lambda>_ _. 0) \<and> lg_outstanding (lg s) = 1 \<and> \<not> lg_committing (lg s) \<and> lg_start (lg s) = 2"
proof -
  let ?s = "binit (power_on (\<lambda>_ _. 0) ())"
  note p = power_on_ok[OF zero_disk_log, of "()"]
  have "(100 :: u32) \<notin> log_area 2"
  proof -
    have "log_slot 2 i \<noteq> 100" if "i < LOGSLOTS" for i
    proof
      assume "log_slot 2 i = 100"
      then have "(of_nat (i + 3) :: u32) = 100" by (simp add: log_slot_def algebra_simps)
      then have "unat (of_nat (i + 3) :: u32) = 100" by simp
      then show False using that by (simp only: unat_of_nat) (simp add: params LOGSLOTS_def)
    qed
    then show ?thesis by (auto simp: log_area_def)
  qed
  then have "100 \<notin> log_area (lg_start (lg ?s))" by (simp add: p(4) some_log_def)
  moreover have "space (Suc 43) ?s" using p(2) by simp
  ultimately obtain t where t: "log_ok {} t" "lview t = (lview ?s)(100 := \<lambda>_. 7)"
    "touched ?s t" "logged t = insert 100 (logged ?s)"
    using bupdate_ok[OF p(1), of 100 43 "\<lambda>_ _. 7"] by auto
  have "logged ?s = {}" by (simp add: logged_def p(4) some_log_def)
  then show ?thesis using t p touchedD[OF t(3)] by (auto simp: some_log_def intro!: exI[of _ t])
qed

section \<open>Properties\<close>

text \<open>
  (C1) Crash atomicity of a transaction.  When the last operation of a transaction ends,
  \<open>end_op\<close> returns, and if the machine crashes after any prefix of the disk writes it has
  issued and restarts, every block outside the log has its content from before the
  transaction, or every one has its content from after it.
\<close>

theorem end_op_crash_atomic:
  assumes ok: "log_ok {} s" and o: "lg_outstanding (lg s) = 1" "\<not> lg_committing (lg s)"
    and sb: "sb_logstart sb = lg_start (lg s)"
  shows "\<exists>t. end_op s = Ok t \<and> crash_atomic sb s t"
proof -
  obtain u t where e: "end_op s = Ok t" "log_ok {} u"
    "commit u = Ok (set_lg (\<lambda>l. l\<lparr>lg_committing := True\<rparr>) t)"
    "lview u = lview s" "disk u = disk s" "dwrites u = dwrites s" "lg_start (lg u) = lg_start (lg s)"
    by (rule end_op_last[OF ok o])
  from commit_crash_atomic[OF e(2,3), of sb] sb e(7)
  have "crash_atomic sb u (set_lg (\<lambda>l. l\<lparr>lg_committing := True\<rparr>) t)" by simp
  then have "crash_atomic sb s t" by (simp add: crash_atomic_def e(4-6))
  then show ?thesis using e(1) by blast
qed

theorem end_op_crash_atomic_witness:
  "\<exists>s :: log_st. logged s = {100} \<and> lview s 100 \<noteq> disk s 100 \<and>
     (\<exists>t. end_op s = Ok t \<and> crash_atomic some_sb s t)"
proof -
  from open_transaction obtain s :: log_st where s: "log_ok {} s" "logged s = {100}"
    "lview s = (\<lambda>_ _. 0)(100 := \<lambda>_. 7)" "disk s = (\<lambda>_ _. 0)" "lg_outstanding (lg s) = 1"
    "\<not> lg_committing (lg s)" "lg_start (lg s) = 2" by blast
  have "lview s 100 0 \<noteq> disk s 100 0" using s(3,4) by simp
  then have "lview s 100 \<noteq> disk s 100" by metis
  moreover have "sb_logstart some_sb = lg_start (lg s)" using s(7) by (simp add: some_sb_def)
  ultimately show ?thesis using end_op_crash_atomic[OF s(1,5,6)] s(2) by blast
qed



text \<open>
  (C3) Durability.  After the last \<open>end_op\<close> of a transaction the disk itself holds the
  content that the operations saw, the log is empty again and the next operation can begin.
\<close>

theorem end_op_durable:
  assumes ok: "log_ok {} s" and o: "lg_outstanding (lg s) = 1" "\<not> lg_committing (lg s)"
  shows "\<exists>t. end_op s = Ok t \<and> log_ok {} t \<and> lh_n (lg t) = 0 \<and> is_Ok (begin_op t) \<and>
    (\<forall>b. b \<notin> log_area (lg_start (lg s)) \<longrightarrow> disk t b = lview s b \<and> lview t b = lview s b)"
proof -
  obtain u t where e: "end_op s = Ok t" "log_ok {} u"
    "commit u = Ok (set_lg (\<lambda>l. l\<lparr>lg_committing := True\<rparr>) t)" "lview u = lview s" "log_ok {} t"
    "lh_n (lg t) = 0" "lg_outstanding (lg t) = 0" "\<not> lg_committing (lg t)" "lg_start (lg u) = lg_start (lg s)"
    by (rule end_op_last[OF ok o])
  have "is_Ok (begin_op t)" using e(6-8) by (simp add: begin_op_def params)
  moreover have "disk t b = lview s b \<and> lview t b = lview s b" if "b \<notin> log_area (lg_start (lg s))" for b
    using commit_contents[OF e(2,3), of b] that e(4,9) by simp
  ultimately show ?thesis using e by blast
qed

theorem end_op_durable_witness:
  "\<exists>(s :: log_st) t. lview s 100 \<noteq> disk s 100 \<and> end_op s = Ok t \<and> lh_n (lg t) = 0 \<and>
     (\<forall>b. b \<notin> log_area 2 \<longrightarrow> disk t b = lview s b \<and> lview t b = lview s b)"
proof -
  from open_transaction obtain s :: log_st where s: "log_ok {} s" "lview s = (\<lambda>_ _. 0)(100 := \<lambda>_. 7)"
    "disk s = (\<lambda>_ _. 0)" "lg_outstanding (lg s) = 1" "\<not> lg_committing (lg s)" "lg_start (lg s) = 2" by blast
  have "lview s 100 0 \<noteq> disk s 100 0" using s(2,3) by simp
  then have "lview s 100 \<noteq> disk s 100" by metis
  then show ?thesis using end_op_durable[OF s(1,4,5)] s(6) by metis
qed

text \<open>
  (C4) The reservation of \<open>begin_op\<close> is enough.  Whatever operations run interleaved, as long
  as each makes at most \<open>MAXOPBLOCKS\<close> calls of \<open>log_write\<close> none of these calls panics,
  provided that the log on disk has at least \<open>LOGSIZE + 1\<close> blocks.
\<close>

theorem log_reservation:
  assumes "opstep\<^sup>*\<^sup>* (s0, Map.empty) (s, w)" and "lg_outstanding (lg s0) = 0" "\<not> lg_committing (lg s0)"
    and "lh_n (lg s0) = 0" and "w p = Some k" "k < MAXOPBLOCKS" and "int LOGSIZE + 1 \<le> lg_size (lg s)"
  shows "\<exists>t. log_write i s = Ok t"
proof -
  have "reserved (s0, Map.empty)" using assms(2-4) by (simp add: reserved_def)
  from reserved_reachable[OF assms(1) this] show ?thesis
    by (rule log_write_within) (use assms(5-7) in auto)
qed

theorem log_reservation_witness:
  "\<exists>t. log_write 7 ((busy 0 1)\<lparr>lg := (lg (busy 0 1))\<lparr>lg_size := 46\<rparr>\<rparr>) = Ok t"
proof (rule log_reservation[of "(busy 0 0)\<lparr>lg := (lg (busy 0 0))\<lparr>lg_size := 46\<rparr>\<rparr>" _ "Map.empty(0 \<mapsto> 0)" 0 0])
  show "opstep\<^sup>*\<^sup>* ((busy 0 0)\<lparr>lg := (lg (busy 0 0))\<lparr>lg_size := 46\<rparr>\<rparr>, Map.empty)
     ((busy 0 1)\<lparr>lg := (lg (busy 0 1))\<lparr>lg_size := 46\<rparr>\<rparr>, Map.empty(0 \<mapsto> 0))"
    by (intro r_into_rtranclp begin_step)
      (simp_all add: begin_op_def busy_def some_log_def set_lg_def params power_on_def)
qed (simp_all add: busy_def some_log_def params)

lemma busy_begin: "opstep\<^sup>*\<^sup>* (busy 0 0, Map.empty) (busy 0 3, quota 0)"
proof -
  have b: "begin_op (busy 0 k) = Ok (busy 0 (k + 1))" if "0 \<le> k" "k \<le> 2" for k
    using that by (simp add: begin_op_def busy_def some_log_def set_lg_def params power_on_def)
  have "opstep (busy 0 0, Map.empty) (busy 0 1, Map.empty(0 \<mapsto> 0))"
    using b[of 0] by (intro begin_step) simp_all
  moreover have "opstep (busy 0 1, Map.empty(0 \<mapsto> 0)) (busy 0 2, Map.empty(0 \<mapsto> 0, 1 \<mapsto> 0))"
    using b[of 1] by (intro begin_step) simp_all
  moreover have "opstep (busy 0 2, Map.empty(0 \<mapsto> 0, 1 \<mapsto> 0)) (busy 0 3, Map.empty(0 \<mapsto> 0, 1 \<mapsto> 0, 2 \<mapsto> 0))"
    using b[of 2] by (intro begin_step) simp_all
  moreover have "quota 0 = Map.empty(0 \<mapsto> 0, 1 \<mapsto> 0, 2 \<mapsto> 0)"
    by (auto simp: quota_def fun_eq_iff less_Suc_eq numeral_3_eq_3 numeral_2_eq_2)
  ultimately show ?thesis by (metis (no_types, lifting) rtranclp.rtrancl_into_rtrancl rtranclp.rtrancl_refl)
qed

lemma busy_write: "m < 44 \<Longrightarrow> log_write m (busy m 3) = Ok (busy (Suc m) 3)"
proof -
  assume m: "m < 44"
  have "(of_nat m :: u32) \<noteq> of_nat i" if "i < m" for i
  proof
    assume "(of_nat m :: u32) = of_nat i"
    then have "unat (of_nat m :: u32) = unat (of_nat i :: u32)" by simp
    then show False using m that by (simp add: unat_of_nat)
  qed
  then have "(of_nat m :: u32) \<notin> (\<lambda>i. if i < m then of_nat i else 0) ` {..<m}" by auto
  note f = find_logged_new[OF this]
  show ?thesis using m f
    by (simp add: log_write_def Let_def busy_def some_log_def set_lg_def params power_on_def bpin_def set_buf_def)
      (auto simp: fun_eq_iff less_Suc_eq)
qed

lemma busy_step: "m < 44 \<Longrightarrow> opstep (busy m 3, quota m) (busy (Suc m) 3, quota (Suc m))"
proof -
  assume m: "m < 44"
  let ?p = "m div MAXOPBLOCKS" and ?k = "m mod MAXOPBLOCKS"
  have p: "?p < 3" "?k < MAXOPBLOCKS" using m by (simp_all add: params)
  have k: "m - MAXOPBLOCKS * ?p = ?k" by (simp add: minus_mult_div_eq_mod)
  have q: "quota m ?p = Some ?k" using p k by (simp add: quota_def)
  have "quota (Suc m) = (quota m)(?p \<mapsto> Suc ?k)"
  proof
    fix i
    have e: "m = MAXOPBLOCKS * ?p + ?k" by simp
    consider "i = ?p" | "Suc i \<le> ?p" | "Suc ?p \<le> i" by linarith
    then show "quota (Suc m) i = ((quota m)(?p \<mapsto> Suc ?k)) i"
    proof cases
      case 1
      have "Suc m - MAXOPBLOCKS * ?p = Suc ?k" using k e by linarith
      then show ?thesis using 1 p by (simp add: quota_def min_def)
    next
      case 2
      then have "MAXOPBLOCKS * i + MAXOPBLOCKS \<le> m"
        using times_div_less_eq_dividend[of MAXOPBLOCKS m] mult_le_mono2[OF 2, of MAXOPBLOCKS]
        unfolding mult_Suc_right by linarith
      then show ?thesis using 2 p(1) by (simp add: quota_def min_def)
    next
      case 3
      have "m < MAXOPBLOCKS * ?p + MAXOPBLOCKS" using e p(2) by linarith
      then have "Suc m \<le> MAXOPBLOCKS * i" using mult_le_mono2[OF 3, of MAXOPBLOCKS] by simp
      then show ?thesis using 3 by (simp add: quota_def)
    qed
  qed
  then show ?thesis
    using write_step[OF busy_write[OF m], where w = "quota m" and p = ?p and k = ?k] q p(2) by simp
qed

lemma busy_reachable: "m \<le> 44 \<Longrightarrow> opstep\<^sup>*\<^sup>* (busy 0 0, Map.empty) (busy m 3, quota m)"
proof (induction m)
  case 0
  show ?case by (rule busy_begin)
next
  case (Suc m)
  then show ?case using busy_step[of m] by (auto intro: rtranclp.rtrancl_into_rtrancl)
qed

text \<open>
  (C5) The log that \<open>mkfs\<close> lays out, \<open>LOGSIZE\<close> blocks with the header included, is one block
  short of the reservation: three operations that each stay within \<open>MAXOPBLOCKS\<close> blocks,
  admitted by \<open>begin_op\<close>, reach a state where the next \<open>log_write\<close> of an operation that has
  blocks left panics.
\<close>

theorem small_log_overrun:
  "\<exists>(s0 :: log_st) s w p k. lg_size (lg s0) = int LOGSIZE \<and> lg_outstanding (lg s0) = 0 \<and> lh_n (lg s0) = 0 \<and>
     opstep\<^sup>*\<^sup>* (s0, Map.empty) (s, w) \<and> w p = Some k \<and> k < MAXOPBLOCKS \<and>
     log_write 44 s = Panic ''too big a transaction''"
proof -
  have "quota 44 2 = Some 14" "14 < MAXOPBLOCKS" by (simp_all add: quota_def params)
  moreover have "log_write 44 (busy 44 3) = Panic ''too big a transaction''"
    by (simp add: log_write_def busy_def some_log_def params)
  moreover have "lg_size (lg (busy 0 0)) = int LOGSIZE" "lg_outstanding (lg (busy 0 0)) = 0" "lh_n (lg (busy 0 0)) = 0"
    by (simp_all add: busy_def some_log_def params)
  ultimately show ?thesis using busy_reachable[of 44] by blast
qed

end
