(* ===== verification/Alloc.thy ===== *)
theory Alloc
  imports Crash
begin

text \<open>
  The superblock and the two bitmap allocators of \<open>kernel/fs.c\<close>: blocks (\<open>balloc\<close>, \<open>bfree\<close>)
  and inode numbers (\<open>searchibmap\<close>, \<open>ifree\<close>).

  \<open>sb\<close> is the global superblock in memory and \<open>itable\<close> the array of in-memory inodes
  (\<open>kernel/file.h\<close>).  \<open>find_free\<close> is the pair of nested loops that \<open>balloc\<close> and \<open>searchibmap\<close>
  share, up to the number of bits and the blocks in which they are found; it stops with the
  buffer that holds the free bit locked.

  The theorems: the allocators return the least free number, mark it and nothing else, and
  keep the free counters of the superblock equal to the number of clear bits; a fresh block
  reads as zeros; freeing what is not allocated panics; the two pairs of operations are
  instances of one interface, in which a freed number becomes free again and two live
  allocations never coincide.
\<close>

section \<open>State\<close>

record inode =
  i_dev :: u32
  i_inum :: u32
  i_ref :: int
  i_lock :: sleeplock
  i_valid :: bool
  i_type :: u16
  i_major :: u16
  i_minor :: u16
  i_nlink :: u16
  i_size :: u32
  i_rwmode :: u32
  i_supermode :: u32
  i_addrs :: "nat \<Rightarrow> u32"
  i_showmode :: u32

record fs_st = log_st +
  sb :: superblock
  itable :: "nat \<Rightarrow> inode"

section \<open>Operations\<close>

definition readsb :: "u32 \<Rightarrow> 'a fs_st_scheme \<Rightarrow> 'a fs_st_scheme res" where
  "readsb dev s = rbind (bpeek dev 1 get_superblock s) (\<lambda>(x, s). Ok (s\<lparr>sb := x\<rparr>))"

definition updatesb :: "u32 \<Rightarrow> 'a fs_st_scheme \<Rightarrow> 'a fs_st_scheme res" where
  "updatesb dev s = bupdate dev 1 (\<lambda>d. put_superblock d (sb s)) s"

definition fsinit :: "u32 \<Rightarrow> 'a fs_st_scheme \<Rightarrow> 'a fs_st_scheme res" where
  "fsinit dev s =
     rbind (readsb dev s) (\<lambda>s.
     if sb_magic (sb s) \<noteq> FSMAGIC then Panic ''invalid file system''
     else initlog dev (sb s) s)"

definition bzero :: "u32 \<Rightarrow> u32 \<Rightarrow> 'a fs_st_scheme \<Rightarrow> 'a fs_st_scheme res" where
  "bzero dev bno s = bupdate dev bno (\<lambda>d. memset d 0 0 BSIZE) s"

text \<open>Bit \<open>bi\<close> of a bitmap block.\<close>

definition bit_clear :: "bytes \<Rightarrow> nat \<Rightarrow> bool" where
  "bit_clear d bi \<longleftrightarrow> d (bi div 8) AND push_bit (bi mod 8) 1 = 0"

definition mark_bit :: "bytes \<Rightarrow> nat \<Rightarrow> bytes" where
  "mark_bit d bi = d(bi div 8 := d (bi div 8) OR push_bit (bi mod 8) 1)"

definition erase_bit :: "bytes \<Rightarrow> nat \<Rightarrow> bytes" where
  "erase_bit d bi = d(bi div 8 := d (bi div 8) AND NOT (push_bit (bi mod 8) 1))"

text \<open>The inner loop: the first clear bit from \<open>bi\<close> on.\<close>

function scan_bits :: "bytes \<Rightarrow> nat \<Rightarrow> nat \<Rightarrow> nat \<Rightarrow> nat option" where
  "scan_bits d b limit bi =
     (if bi < BPB \<and> b + bi < limit
      then if bit_clear d bi then Some bi else scan_bits d b limit (Suc bi)
      else None)"
  by pat_completeness auto
termination by (relation "measure (\<lambda>(d, b, l, bi). BPB - bi)") auto

lemma bread_sb: "bread dev b s = Ok (i, t) \<Longrightarrow> sb t = sb s"
  using arg_cong[OF bread_frame, of dev b s i t sb] by simp

lemma brelse_sb: "brelse i s = Ok t \<Longrightarrow> sb t = sb s"
  using arg_cong[OF brelse_frame, of i s t sb] by simp

text \<open>The outer loop, from block number \<open>b\<close> on.\<close>

function find_free :: "(superblock \<Rightarrow> u32) \<Rightarrow> (u32 \<Rightarrow> superblock \<Rightarrow> u32) \<Rightarrow> u32 \<Rightarrow> nat \<Rightarrow>
    'a fs_st_scheme \<Rightarrow> ((nat \<times> nat) option \<times> 'a fs_st_scheme) res" where
  "find_free lim blk dev b s =
     (if b < unat (lim (sb s)) then
        rbind (bread dev (blk (of_nat b) (sb s)) s) (\<lambda>(bp, s).
        case scan_bits (bdata bp s) b (unat (lim (sb s))) 0 of
          Some bi \<Rightarrow> Ok (Some (bp, b + bi), s)
        | None \<Rightarrow> rbind (brelse bp s) (find_free lim blk dev (b + BPB)))
      else Ok (None, s))"
  by pat_completeness auto
termination
  by (relation "measure (\<lambda>(lim, blk, dev, b, s). unat (lim (sb s)) - b)")
    (auto simp: BPB_def BSIZE_def dest!: bread_sb brelse_sb)

declare scan_bits.simps [simp del] find_free.simps [simp del]

text \<open>
  What \<open>balloc\<close> and \<open>searchibmap\<close> do with the free bit: mark it, decrement the counter and
  write the superblock back; and the reverse, for \<open>bfree\<close> and \<open>ifree\<close>.
\<close>

definition take_free :: "(superblock \<Rightarrow> u32) \<Rightarrow> (u32 \<Rightarrow> superblock \<Rightarrow> u32) \<Rightarrow>
    ((u32 \<Rightarrow> u32) \<Rightarrow> superblock \<Rightarrow> superblock) \<Rightarrow> u32 \<Rightarrow> 'a fs_st_scheme \<Rightarrow>
    (nat option \<times> 'a fs_st_scheme) res" where
  "take_free lim blk upd dev s =
     rbind (find_free lim blk dev 0 s) (\<lambda>(r, s).
     case r of
       None \<Rightarrow> Ok (None, s)
     | Some (bp, n) \<Rightarrow>
         rbind (rbind (log_write bp (set_bdata bp (mark_bit (bdata bp s) (n mod BPB)) s)) (brelse bp)) (\<lambda>s.
         rbind (updatesb dev (s\<lparr>sb := upd (\<lambda>c. c - 1) (sb s)\<rparr>)) (\<lambda>s.
         Ok (Some n, s))))"

definition give_back :: "(u32 \<Rightarrow> superblock \<Rightarrow> u32) \<Rightarrow> ((u32 \<Rightarrow> u32) \<Rightarrow> superblock \<Rightarrow> superblock) \<Rightarrow>
    string \<Rightarrow> u32 \<Rightarrow> u32 \<Rightarrow> 'a fs_st_scheme \<Rightarrow> 'a fs_st_scheme res" where
  "give_back blk upd msg dev b s =
     rbind (bread dev (blk b (sb s)) s) (\<lambda>(bp, s).
     if bit_clear (bdata bp s) (unat b mod BPB) then Panic msg
     else
       rbind (rbind (log_write bp (set_bdata bp (erase_bit (bdata bp s) (unat b mod BPB)) s)) (brelse bp)) (\<lambda>s.
       updatesb dev (s\<lparr>sb := upd (\<lambda>c. c + 1) (sb s)\<rparr>)))"

definition balloc :: "u32 \<Rightarrow> 'a fs_st_scheme \<Rightarrow> (u32 \<times> 'a fs_st_scheme) res" where
  "balloc dev s =
     rbind (take_free sb_size BBLOCK sb_freeblocks_update dev s) (\<lambda>(r, s).
     case r of
       None \<Rightarrow> Panic ''balloc: out of blocks''
     | Some n \<Rightarrow> rbind (bzero dev (of_nat n) s) (\<lambda>s. Ok (of_nat n, s)))"

definition bfree :: "u32 \<Rightarrow> u32 \<Rightarrow> 'a fs_st_scheme \<Rightarrow> 'a fs_st_scheme res" where
  "bfree dev b s = give_back BBLOCK sb_freeblocks_update ''freeing free block'' dev b s"

definition searchibmap :: "u32 \<Rightarrow> 'a fs_st_scheme \<Rightarrow> (u32 \<times> 'a fs_st_scheme) res" where
  "searchibmap dev s =
     rbind (take_free sb_ninodes IBBLOCK sb_freeinodes_update dev s) (\<lambda>(r, s).
     case r of
       None \<Rightarrow> Panic ''ialloc: out of free inodes''
     | Some n \<Rightarrow> Ok (of_nat n, s))"

definition ifree :: "u32 \<Rightarrow> u32 \<Rightarrow> 'a fs_st_scheme \<Rightarrow> 'a fs_st_scheme res" where
  "ifree dev inum s = give_back IBBLOCK sb_freeinodes_update ''freeing free inode'' dev inum s"

section \<open>Specification\<close>

text \<open>The superblock without the counters, which is what the layout of the disk depends on.\<close>

definition geom :: "superblock \<Rightarrow> superblock" where
  "geom x = x\<lparr>sb_freeinodes := 0, sb_freeblocks := 0\<rparr>"

definition is_meta :: "superblock \<Rightarrow> u32 \<Rightarrow> bool" where
  "is_meta x b \<longleftrightarrow> b = 0 \<or> b = 1 \<or> b \<in> log_area (sb_logstart x) \<or>
     (\<exists>n<unat (sb_size x). b = BBLOCK (of_nat n) x) \<or>
     (\<exists>n<unat (sb_ninodes x). b = IBBLOCK (of_nat n) x \<or> b = IBLOCK (of_nat n) x)"

text \<open>The parts of the disk do not overlap, and block numbers fit into a C \<open>int\<close>.\<close>

definition layout_ok :: "superblock \<Rightarrow> bool" where
  "layout_ok x \<longleftrightarrow> unat (sb_size x) < 2 ^ 31 \<and> unat (sb_ninodes x) < 2 ^ 31 \<and>
     1 \<notin> log_area (sb_logstart x) \<and>
     (\<forall>n<unat (sb_size x). BBLOCK (of_nat n) x \<notin> log_area (sb_logstart x) \<and> BBLOCK (of_nat n) x \<noteq> 1) \<and>
     (\<forall>n<unat (sb_ninodes x).
        IBBLOCK (of_nat n) x \<notin> log_area (sb_logstart x) \<and> IBBLOCK (of_nat n) x \<noteq> 1 \<and>
        IBLOCK (of_nat n) x \<notin> log_area (sb_logstart x) \<and> IBLOCK (of_nat n) x \<noteq> 1 \<and>
        (\<forall>m<unat (sb_size x). BBLOCK (of_nat m) x \<noteq> IBBLOCK (of_nat n) x \<and> BBLOCK (of_nat m) x \<noteq> IBLOCK (of_nat n) x) \<and>
        (\<forall>m<unat (sb_ninodes x). IBBLOCK (of_nat m) x \<noteq> IBLOCK (of_nat n) x))"

text \<open>
  The file system between two calls inside a transaction: the log is in order, the disk is
  laid out as the superblock says, and the blocks in \<open>H\<close>, which the process has locked, are
  data blocks.
\<close>

definition fs_ok :: "u32 set \<Rightarrow> 'a fs_st_scheme \<Rightarrow> bool" where
  "fs_ok H s \<longleftrightarrow> log_ok H s \<and> layout_ok (sb s) \<and> sb_logstart (sb s) = lg_start (lg s) \<and>
     (\<forall>b\<in>H. \<not> is_meta (sb s) b)"

text \<open>Only the cache, the list of logged blocks and the counters of the superblock changed.\<close>

definition fs_touched :: "'a fs_st_scheme \<Rightarrow> 'a fs_st_scheme \<Rightarrow> bool" where
  "fs_touched s t \<longleftrightarrow> touched (s\<lparr>sb := sb t\<rparr>) t \<and> geom (sb t) = geom (sb s)"

text \<open>The numbers whose bit is set.\<close>

definition in_use :: "(superblock \<Rightarrow> u32) \<Rightarrow> (u32 \<Rightarrow> superblock \<Rightarrow> u32) \<Rightarrow> 'a fs_st_scheme \<Rightarrow> nat set" where
  "in_use lim blk s =
     {n. n < unat (lim (sb s)) \<and> \<not> bit_clear (lview s (blk (of_nat n) (sb s))) (n mod BPB)}"

abbreviation used_blocks :: "'a fs_st_scheme \<Rightarrow> nat set" where
  "used_blocks \<equiv> in_use sb_size BBLOCK"

abbreviation used_inodes :: "'a fs_st_scheme \<Rightarrow> nat set" where
  "used_inodes \<equiv> in_use sb_ninodes IBBLOCK"

text \<open>Every block of the disk that is not a data block is marked as used.\<close>

definition meta_used :: "'a fs_st_scheme \<Rightarrow> bool" where
  "meta_used s \<longleftrightarrow> (\<forall>n<unat (sb_size (sb s)). is_meta (sb s) (of_nat n) \<longrightarrow> n \<in> used_blocks s)"

text \<open>The free counters are the numbers of clear bits.\<close>

definition counters_ok :: "'a fs_st_scheme \<Rightarrow> bool" where
  "counters_ok s \<longleftrightarrow>
     sb_freeblocks (sb s) = of_nat (unat (sb_size (sb s)) - card (used_blocks s)) \<and>
     sb_freeinodes (sb s) = of_nat (unat (sb_ninodes (sb s)) - card (used_inodes s))"

section \<open>Lemmas on bitmaps\<close>

lemma bit_clear_iff: "bit_clear d bi \<longleftrightarrow> \<not> bit (d (bi div 8)) (bi mod 8)"
  by (simp add: bit_clear_def bit_iff_and_push_bit_not_eq_0)

lemma div_mod_eq: "(j :: nat) = i \<longleftrightarrow> j div 8 = i div 8 \<and> j mod 8 = i mod 8"
  by (metis div_mod_decomp)

lemma bit_clear_mark [simp]: "bit_clear (mark_bit d bi) j \<longleftrightarrow> j \<noteq> bi \<and> bit_clear d j"
  unfolding bit_clear_iff div_mod_eq[of j bi] mark_bit_def set_bit_def[symmetric]
  by (auto simp: bit_set_bit_iff possible_bit_word)

lemma bit_clear_erase [simp]: "bit_clear (erase_bit d bi) j \<longleftrightarrow> j = bi \<or> bit_clear d j"
  unfolding bit_clear_iff div_mod_eq[of j bi] erase_bit_def unset_bit_def[symmetric]
  by (auto simp: bit_unset_bit_iff)

lemma scan_bits_Some:
  "scan_bits d b limit bi = Some j \<Longrightarrow>
   bi \<le> j \<and> j < BPB \<and> b + j < limit \<and> bit_clear d j \<and> (\<forall>m. bi \<le> m \<and> m < j \<longrightarrow> \<not> bit_clear d m)"
proof (induction d b limit bi rule: scan_bits.induct)
  case (1 d b limit bi)
  have split: "bi = m \<or> Suc bi \<le> m" if "bi \<le> m" for m using that by auto
  show ?case
  proof (cases "bit_clear d bi")
    case False
    then have c: "bi < BPB \<and> b + bi < limit" "scan_bits d b limit (Suc bi) = Some j"
      using "1.prems" by (auto simp: scan_bits.simps[of d b limit bi] split: if_splits)
    from "1.IH"[OF c(1) False c(2)] show ?thesis using split False by auto
  qed (use "1.prems" in \<open>auto simp: scan_bits.simps[of d b limit bi] split: if_splits\<close>)
qed

lemma scan_bits_None:
  "scan_bits d b limit bi = None \<Longrightarrow> bi \<le> m \<Longrightarrow> m < BPB \<Longrightarrow> b + m < limit \<Longrightarrow> \<not> bit_clear d m"
proof (induction d b limit bi rule: scan_bits.induct)
  case (1 d b limit bi)
  then have c: "bi < BPB \<and> b + bi < limit" "\<not> bit_clear d bi" "scan_bits d b limit (Suc bi) = None"
    by (auto simp: scan_bits.simps[of d b limit bi] split: if_splits)
  show ?case using "1.IH"[OF c] "1.prems"(2-4) c(2) by (cases "bi = m") auto
qed

section \<open>Lemmas on the layout\<close>

lemma unat_small: "n < 2 ^ 31 \<Longrightarrow> unat (of_nat n :: u32) = n"
  by (simp add: unat_of_nat)

lemma word_group:
  assumes "n < 2 ^ 31" "m < 2 ^ 31"
  shows "(of_nat n :: u32) div of_nat BPB = of_nat m div of_nat BPB \<longleftrightarrow> n div BPB = m div BPB"
proof -
  have "unat ((of_nat k :: u32) div of_nat BPB) = k div BPB" if "k < 2 ^ 31" for k
    using that by (simp add: unat_div unat_small BPB_def BSIZE_def)
  then show ?thesis using assms by (metis word_unat_eq_iff)
qed

lemma BBLOCK_iff: "n < 2 ^ 31 \<Longrightarrow> m < 2 ^ 31 \<Longrightarrow> BBLOCK (of_nat n) x = BBLOCK (of_nat m) x \<longleftrightarrow> n div BPB = m div BPB"
  by (simp add: BBLOCK_def word_group)

lemma IBBLOCK_iff: "n < 2 ^ 31 \<Longrightarrow> m < 2 ^ 31 \<Longrightarrow> IBBLOCK (of_nat n) x = IBBLOCK (of_nat m) x \<longleftrightarrow> n div BPB = m div BPB"
  by (simp add: IBBLOCK_def word_group)

lemma geom_eqD:
  assumes "geom x = geom y"
  shows "sb_size x = sb_size y" "sb_ninodes x = sb_ninodes y" "sb_logstart x = sb_logstart y"
    "sb_inodestart x = sb_inodestart y" "BBLOCK b x = BBLOCK b y" "IBBLOCK b x = IBBLOCK b y" "IBLOCK b x = IBLOCK b y"
    "sb_bmapstart x = sb_bmapstart y" "sb_ibmapstart x = sb_ibmapstart y"
  using assms by (cases x; cases y; simp add: geom_def BBLOCK_def IBBLOCK_def IBLOCK_def)+

lemma geom_upd [simp]: "geom (sb_freeblocks_update f x) = geom x" "geom (sb_freeinodes_update f x) = geom x"
  by (simp_all add: geom_def)

lemma layout_ok_geom: "geom x = geom y \<Longrightarrow> layout_ok x = layout_ok y"
  using geom_eqD[of x y] by (simp add: layout_ok_def)

lemma is_meta_geom: "geom x = geom y \<Longrightarrow> is_meta x b = is_meta y b"
  using geom_eqD[of x y] by (simp add: is_meta_def)

lemma layout_okD:
  assumes "layout_ok x"
  shows "unat (sb_size x) < 2 ^ 31" "unat (sb_ninodes x) < 2 ^ 31" "1 \<notin> log_area (sb_logstart x)"
    "n < unat (sb_size x) \<Longrightarrow> BBLOCK (of_nat n) x \<notin> log_area (sb_logstart x) \<and> BBLOCK (of_nat n) x \<noteq> 1"
    "n < unat (sb_ninodes x) \<Longrightarrow> IBBLOCK (of_nat n) x \<notin> log_area (sb_logstart x) \<and> IBBLOCK (of_nat n) x \<noteq> 1"
    "n < unat (sb_ninodes x) \<Longrightarrow> IBLOCK (of_nat n) x \<notin> log_area (sb_logstart x) \<and> IBLOCK (of_nat n) x \<noteq> 1"
    "n < unat (sb_ninodes x) \<Longrightarrow> m < unat (sb_size x) \<Longrightarrow> BBLOCK (of_nat m) x \<noteq> IBBLOCK (of_nat n) x"
    "n < unat (sb_ninodes x) \<Longrightarrow> m < unat (sb_size x) \<Longrightarrow> BBLOCK (of_nat m) x \<noteq> IBLOCK (of_nat n) x"
    "n < unat (sb_ninodes x) \<Longrightarrow> m < unat (sb_ninodes x) \<Longrightarrow> IBBLOCK (of_nat m) x \<noteq> IBLOCK (of_nat n) x"
  using assms by (auto simp: layout_ok_def)

lemma fs_okD:
  assumes "fs_ok H s"
  shows "log_ok H s" "layout_ok (sb s)" "sb_logstart (sb s) = lg_start (lg s)" "b \<in> H \<Longrightarrow> \<not> is_meta (sb s) b"
  using assms by (auto simp: fs_ok_def)

text \<open>The views depend on the cache, the disk and the running process only.\<close>

lemma bio_ok_cong:
  assumes "bufs t = bufs s" "disk t = disk s" "p_pid (myproc t) = p_pid (myproc s)"
  shows "lview t = lview s" "bio_ok P H t = bio_ok P H s"
proof -
  show "lview t = lview s" unfolding lview_def[abs_def] assms(1,2) ..
  have "buf_ok t i = buf_ok s i" for i using assms by (simp add: buf_ok_def)
  then have "bio_inv t = bio_inv s" using assms(1) by (simp add: bio_inv_def)
  moreover have "held t = held s" "brefs t = brefs s"
    unfolding held_def[abs_def] brefs_def[abs_def] assms(1) by (rule refl)+
  ultimately show "bio_ok P H t = bio_ok P H s" by (simp add: bio_ok_def)
qed

lemma log_ok_cong:
  assumes "bufs t = bufs s" "disk t = disk s" "p_pid (myproc t) = p_pid (myproc s)" "lg t = lg s"
  shows "lview t = lview s" "logged t = logged s" "space k t = space k s" "log_ok H t = log_ok H s"
  using bio_ok_cong[OF assms(1-3)] assms(2,4) by (simp_all add: logged_def space_def log_ok_def)

lemma views_sb [simp]:
  "lview (s\<lparr>sb := x\<rparr>) = lview s" "logged (s\<lparr>sb := x\<rparr>) = logged s" "space k (s\<lparr>sb := x\<rparr>) = space k s"
  "log_ok H (s\<lparr>sb := x\<rparr>) = log_ok H s"
  by (rule log_ok_cong; simp add: myproc_def)+

lemma fs_touched_refl: "fs_touched s s"
  by (simp add: fs_touched_def touched_refl)

lemma touched_sb: "touched s t \<Longrightarrow> touched (s\<lparr>sb := x\<rparr>) (t\<lparr>sb := x\<rparr>)"
  unfolding touched_def by (cases s, cases t) auto

lemma touched_same_sb: "touched s t \<Longrightarrow> sb t = sb (s :: 'a fs_st_scheme)"
  unfolding touched_def by (cases s, cases t) auto

lemma touched_same_itable: "touched s t \<Longrightarrow> itable t = itable (s :: 'a fs_st_scheme)"
  unfolding touched_def by (cases s, cases t) auto

lemma touched_fs: "touched s t \<Longrightarrow> fs_touched s t"
  using touched_same_sb[of s t] by (simp add: fs_touched_def)

lemma fs_touched_trans:
  assumes "fs_touched s t" "fs_touched t u"
  shows "fs_touched s u"
proof -
  have "touched (s\<lparr>sb := sb t\<rparr>) t" "touched (t\<lparr>sb := sb u\<rparr>) u"
    using assms by (simp_all add: fs_touched_def)
  from touched_trans[OF touched_sb[OF this(1), of "sb u"] this(2)] show ?thesis
    using assms by (simp add: fs_touched_def)
qed

lemma fs_touchedD:
  assumes "fs_touched s t"
  shows "geom (sb t) = geom (sb s)" "disk t = disk s" "lg_start (lg t) = lg_start (lg s)" "itable t = itable s"
    "myproc t = myproc s" "mem t = mem s" "lg_outstanding (lg t) = lg_outstanding (lg s)"
    "lg_committing (lg t) = lg_committing (lg s)" "lg_size (lg t) = lg_size (lg s)"
  using assms touchedD[of "s\<lparr>sb := sb t\<rparr>" t] touched_same_itable[of "s\<lparr>sb := sb t\<rparr>" t]
  by (auto simp: fs_touched_def myproc_def)

lemma fs_ok_touched: "log_ok H t \<Longrightarrow> fs_touched s t \<Longrightarrow> fs_ok H' s \<Longrightarrow> H \<subseteq> H' \<Longrightarrow> fs_ok H t"
  using fs_touchedD(1,3)[of s t] geom_eqD(3)[of "sb t" "sb s"] layout_ok_geom[of "sb t" "sb s"]
    is_meta_geom[of "sb t" "sb s"]
  unfolding fs_ok_def by auto

lemma bufs_fs: "t = s\<lparr>bufs := bufs t\<rparr> \<Longrightarrow> sb t = sb s \<and> lg t = lg s \<and> itable t = itable (s :: 'a fs_st_scheme)"
  by (cases s, cases t) auto

lemma updatesb_ok:
  assumes ok: "fs_ok H s" and sp: "space (Suc k) s" and few: "card H \<le> Suc k"
  obtains t where "updatesb ROOTDEV s = Ok t" "fs_ok H t"
    "lview t = (lview s)(1 := put_superblock (lview s 1) (sb s))" "space k t" "touched s t"
    "\<forall>c\<in>H. slot (bufs t) c = slot (bufs s) c"
proof -
  note D = fs_okD[OF ok]
  have 1: "1 \<notin> H" "1 \<notin> log_area (lg_start (lg s))"
    using D(4)[of 1] layout_okD(3)[OF D(2)] D(3) by (auto simp: is_meta_def)
  obtain t where t: "bupdate ROOTDEV 1 (\<lambda>d. put_superblock d (sb s)) s = Ok t" "log_ok H t"
    "lview t = (lview s)(1 := put_superblock (lview s 1) (sb s))" "space k t" "touched s t"
    "logged t = insert 1 (logged s)" "\<forall>c\<in>H. slot (bufs t) c = slot (bufs s) c"
    by (rule bupdate_ok[OF D(1) 1 sp few, where f = "\<lambda>d. put_superblock d (sb s)"])
  have "fs_ok H t" by (rule fs_ok_touched[OF t(2) touched_fs[OF t(5)] ok]) simp
  from that[OF _ this t(3-5) t(7)] t(1) show ?thesis by (simp add: updatesb_def)
qed

text \<open>What the scan from \<open>b\<close> on leaves behind: a locked buffer with the first free bit, or nothing.\<close>

definition scanned :: "(superblock \<Rightarrow> u32) \<Rightarrow> (u32 \<Rightarrow> superblock \<Rightarrow> u32) \<Rightarrow> u32 set \<Rightarrow> nat \<Rightarrow>
    'a fs_st_scheme \<Rightarrow> (nat \<times> nat) option \<Rightarrow> 'a fs_st_scheme \<Rightarrow> bool" where
  "scanned lim blk H b s r t \<longleftrightarrow>
     (case r of
        None \<Rightarrow> (\<forall>m. b \<le> m \<and> m < unat (lim (sb s)) \<longrightarrow> m \<in> in_use lim blk s)
      | Some (i, n) \<Rightarrow>
          b \<le> n \<and> n < unat (lim (sb s)) \<and> n \<notin> in_use lim blk s \<and> (\<forall>m. b \<le> m \<and> m < n \<longrightarrow> m \<in> in_use lim blk s) \<and>
          log_ok (insert (blk (of_nat n) (sb s)) H) t \<and> slot (bufs t) (blk (of_nat n) (sb s)) = Some i \<and>
          bdata i t = lview s (blk (of_nat n) (sb s)) \<and> lview t = lview s \<and> t = s\<lparr>bufs := bufs t\<rparr> \<and>
          (\<forall>c\<in>H. slot (bufs t) c = slot (bufs s) c))"

section \<open>The interface of a bitmap\<close>

text \<open>
  What the scan and the updates need to know of a bitmap: how many bits it has, where they
  are, and how its counter is updated.
\<close>

locale bitmap =
  fixes lim :: "superblock \<Rightarrow> u32" and blk :: "u32 \<Rightarrow> superblock \<Rightarrow> u32"
    and upd :: "(u32 \<Rightarrow> u32) \<Rightarrow> superblock \<Rightarrow> superblock"
  assumes blk_iff: "n < 2 ^ 31 \<Longrightarrow> m < 2 ^ 31 \<Longrightarrow> blk (of_nat n) x = blk (of_nat m) x \<longleftrightarrow> n div BPB = m div BPB"
    and geom_dep: "geom x = geom y \<Longrightarrow> lim x = lim y \<and> blk b x = blk b y"
    and upd_geom: "geom (upd f x) = geom x"
    and blk_out: "layout_ok x \<Longrightarrow> n < unat (lim x) \<Longrightarrow>
      blk (of_nat n) x \<notin> log_area (sb_logstart x) \<and> blk (of_nat n) x \<noteq> 1 \<and> is_meta x (blk (of_nat n) x)"
    and lim_small: "layout_ok x \<Longrightarrow> unat (lim x) < 2 ^ 31"
begin

lemma in_use_cong: "lview t = lview s \<Longrightarrow> geom (sb t) = geom (sb s) \<Longrightarrow> in_use lim blk t = in_use lim blk s"
  using geom_dep[of "sb t" "sb s"] by (simp add: in_use_def)

lemma blk_free:
  assumes "fs_ok H s" "n < unat (lim (sb s))"
  shows "blk (of_nat n) (sb s) \<notin> H" "blk (of_nat n) (sb s) \<notin> log_area (lg_start (lg s))"
  using blk_out[OF fs_okD(2)[OF assms(1)] assms(2)] fs_okD(3,4)[OF assms(1)] by auto

lemma group_base:
  assumes "BPB dvd b" "j < BPB"
  shows "(b + j) div BPB = b div BPB" "(b + j) mod BPB = j"
  using assms by (auto simp: dvd_def BPB_def)

lemma scanned_later:
  assumes t: "scanned lim blk H (b + BPB) u r t" and u: "u = s\<lparr>bufs := bufs u\<rparr>" "lview u = lview s"
    and sl: "\<forall>c\<in>H. slot (bufs u) c = slot (bufs s) c"
    and all: "\<And>m. b \<le> m \<Longrightarrow> m < b + BPB \<Longrightarrow> m < unat (lim (sb s)) \<Longrightarrow> m \<in> in_use lim blk s"
  shows "scanned lim blk H b s r t"
proof -
  have e: "sb u = sb s" using bufs_fs[OF u(1)] by simp
  have used: "in_use lim blk u = in_use lim blk s" using u(2) e by (simp add: in_use_def)
  have split: "m < b + BPB \<or> b + BPB \<le> m" for m by auto
  show ?thesis
  proof (cases r)
    case None
    then show ?thesis using t all split unfolding scanned_def used e by auto
  next
    case (Some p)
    obtain i n where p: "p = (i, n)" by (cases p)
    note T = t[unfolded scanned_def Some p option.case prod.case used e u(2)]
    have tu: "t = u\<lparr>bufs := bufs t\<rparr>" using T by blast
    have "t = s\<lparr>bufs := bufs t\<rparr>" by (subst tu, subst u(1)) simp
    moreover have "m \<in> in_use lim blk s" if "b \<le> m" "m < n" for m
      using T that all[of m] split[of m] by auto
    ultimately show ?thesis using T sl by (auto simp: scanned_def Some p)
  qed
qed

lemma find_free_ok:
  fixes s :: "'a fs_st_scheme"
  assumes "fs_ok H s" "BPB dvd b" "nat (lh_n (lg s)) + card H < NBUF"
  shows "\<exists>r t. find_free lim blk ROOTDEV b s = Ok (r, t) \<and> scanned lim blk H b s r t"
  using assms
proof (induction "unat (lim (sb s)) - b" arbitrary: b s rule: less_induct)
  case less
  let ?lim = "unat (lim (sb s))"
  show ?case
  proof (cases "b < ?lim")
    case False
    then show ?thesis by (auto simp: find_free.simps[of lim blk ROOTDEV b s] scanned_def)
  next
    case True
    let ?B = "blk (of_nat b) (sb s)"
    note D = fs_okD[OF less.prems(1)]
    have "?B \<in> logged s \<or> nat (lh_n (lg s)) + card H < NBUF" using less.prems(3) ..
    from log_bread_ok[OF D(1) blk_free[OF less.prems(1) True] this] obtain i s1 where 1:
      "bread ROOTDEV ?B s = Ok (i, s1)" "log_ok (insert ?B H) s1" "slot (bufs s1) ?B = Some i"
      "\<forall>c\<in>H. slot (bufs s1) c = slot (bufs s) c"
      "lview s1 = lview s" "bdata i s1 = lview s ?B" "s1 = s\<lparr>bufs := bufs s1\<rparr>" "logged s1 = logged s" by blast
    have e1: "sb s1 = sb s" "lg s1 = lg s" using bufs_fs[OF 1(7)] by auto
    have grp: "blk (of_nat (b + j)) (sb s) = ?B" if "j < BPB" "b + j < ?lim" for j
      using blk_iff[of "b + j" b] group_base(1)[OF less.prems(2) that(1)] that True lim_small[OF D(2)] by simp
    have use: "b + j \<in> in_use lim blk s \<longleftrightarrow> \<not> bit_clear (lview s ?B) j" if "j < BPB" "b + j < ?lim" for j
      using that grp[OF that] group_base(2)[OF less.prems(2) that(1)] by (simp add: in_use_def)
    show ?thesis
    proof (cases "scan_bits (lview s ?B) b ?lim 0")
      case (Some j)
      note sc = scan_bits_Some[OF Some]
      have "m \<in> in_use lim blk s" if "b \<le> m" "m < b + j" for m
        using use[of "m - b"] sc that by auto
      then have "scanned lim blk H b s (Some (i, b + j)) s1"
        using sc use[of j] grp[of j] 1 unfolding scanned_def by simp
      then show ?thesis
        using True 1(1,6) Some e1 by (simp add: find_free.simps[of lim blk ROOTDEV b s])
    next
      case None
      have "?B \<in> logged s1 \<or> lview s1 ?B = disk s1 ?B"
        using bio_ok_clean[OF log_okD(1)[OF D(1)] _ blk_free(1)[OF less.prems(1) True]] arg_cong[OF 1(7), of disk]
        by (auto simp: 1(5,8))
      from log_brelse_ok[OF 1(2) insertI1 1(3) this] obtain u where 2: "brelse i s1 = Ok u"
        "log_ok (insert ?B H - {?B}) u" "slot (bufs u) = slot (bufs s1)" "lview u = lview s1"
        "u = s1\<lparr>bufs := bufs u\<rparr>" "logged u = logged s1" by blast
      have fr: "u = s\<lparr>bufs := bufs u\<rparr>" by (subst 2(5), subst 1(7)) simp
      have e2: "sb u = sb s" "lg u = lg s" "lview u = lview s" using bufs_fs[OF fr] 2(4) 1(5) by auto
      have "log_ok H u" using 2(2) blk_free(1)[OF less.prems(1) True] by simp
      then have ok: "fs_ok H u" by (rule fs_ok_touched[OF _ touched_fs[OF touched_bufs[OF fr]] less.prems(1)]) simp
      have small: "unat (lim (sb u)) - (b + BPB) < ?lim - b" using True e2 by (simp add: BPB_def BSIZE_def)
      have "BPB dvd b + BPB" using less.prems(2) by simp
      from less.hyps[OF small ok this] less.prems(3) e2(2) obtain r t where
        rt: "find_free lim blk ROOTDEV (b + BPB) u = Ok (r, t)" "scanned lim blk H (b + BPB) u r t" by auto
      have all: "m \<in> in_use lim blk s" if "b \<le> m" "m < b + BPB" "m < ?lim" for m
        using use[of "m - b"] scan_bits_None[OF None, of "m - b"] that by auto
      have "scanned lim blk H b s r t"
        by (rule scanned_later[OF rt(2) fr e2(3) _ all]) (use 2(3) 1(4) in auto)
      then show ?thesis
        using True 1(1,6) None e1 2(1) rt(1) by (simp add: find_free.simps[of lim blk ROOTDEV b s])
    qed
  qed
qed

lemma same_group: "(m :: nat) div BPB = n div BPB \<Longrightarrow> m mod BPB = n mod BPB \<longleftrightarrow> m = n"
  by (metis div_mod_decomp)

text \<open>What the bitmap says after its block that has bit \<open>n\<close> became \<open>d\<close>.\<close>

lemma in_use_write:
  assumes ok: "layout_ok (sb s)" and n: "n < unat (lim (sb s))" and g: "geom (sb t) = geom (sb s)"
    and v: "\<And>m. m < unat (lim (sb s)) \<Longrightarrow> lview t (blk (of_nat m) (sb s)) =
        ((lview s)(blk (of_nat n) (sb s) := d)) (blk (of_nat m) (sb s))"
    and m: "m < unat (lim (sb s))"
  shows "m \<in> in_use lim blk t \<longleftrightarrow> (if m div BPB = n div BPB then \<not> bit_clear d (m mod BPB) else m \<in> in_use lim blk s)"
    "m div BPB = n div BPB \<Longrightarrow> m \<in> in_use lim blk s \<longleftrightarrow> \<not> bit_clear (lview s (blk (of_nat n) (sb s))) (m mod BPB)"
proof -
  have e: "blk (of_nat m) (sb s) = blk (of_nat n) (sb s) \<longleftrightarrow> m div BPB = n div BPB"
    using blk_iff[of m n] m n lim_small[OF ok] by simp
  show "m \<in> in_use lim blk t \<longleftrightarrow> (if m div BPB = n div BPB then \<not> bit_clear d (m mod BPB) else m \<in> in_use lim blk s)"
    using e v[OF m] m geom_dep[OF g] by (simp add: in_use_def)
  show "m div BPB = n div BPB \<Longrightarrow> m \<in> in_use lim blk s \<longleftrightarrow> \<not> bit_clear (lview s (blk (of_nat n) (sb s))) (m mod BPB)"
    using e m by (simp add: in_use_def)
qed

lemma in_use_bound: "geom (sb t) = geom (sb s) \<Longrightarrow> m \<in> in_use lim blk t \<Longrightarrow> m < unat (lim (sb s))"
  using geom_dep[of "sb t" "sb s"] by (simp add: in_use_def)

lemma in_use_mark:
  assumes ok: "layout_ok (sb s)" and n: "n < unat (lim (sb s))" and g: "geom (sb t) = geom (sb s)"
    and v: "\<And>m. m < unat (lim (sb s)) \<Longrightarrow> lview t (blk (of_nat m) (sb s)) =
        ((lview s)(blk (of_nat n) (sb s) := mark_bit (lview s (blk (of_nat n) (sb s))) (n mod BPB))) (blk (of_nat m) (sb s))"
  shows "in_use lim blk t = insert n (in_use lim blk s)"
proof (rule set_eqI)
  fix m
  show "m \<in> in_use lim blk t \<longleftrightarrow> m \<in> insert n (in_use lim blk s)"
  proof (cases "m < unat (lim (sb s))")
    case True
    note w = in_use_write[OF ok n g v True]
    show ?thesis using w same_group[of m n] by (cases "m div BPB = n div BPB") auto
  next
    case False
    then show ?thesis using n in_use_bound[OF g, of m] in_use_bound[of s s m] by auto
  qed
qed

lemma in_use_erase:
  assumes ok: "layout_ok (sb s)" and n: "n < unat (lim (sb s))" and g: "geom (sb t) = geom (sb s)"
    and v: "\<And>m. m < unat (lim (sb s)) \<Longrightarrow> lview t (blk (of_nat m) (sb s)) =
        ((lview s)(blk (of_nat n) (sb s) := erase_bit (lview s (blk (of_nat n) (sb s))) (n mod BPB))) (blk (of_nat m) (sb s))"
  shows "in_use lim blk t = in_use lim blk s - {n}"
proof (rule set_eqI)
  fix m
  show "m \<in> in_use lim blk t \<longleftrightarrow> m \<in> in_use lim blk s - {n}"
  proof (cases "m < unat (lim (sb s))")
    case True
    note w = in_use_write[OF ok n g v True]
    show ?thesis using w same_group[of m n] by (cases "m div BPB = n div BPB") auto
  next
    case False
    then show ?thesis using n in_use_bound[OF g, of m] in_use_bound[of s s m] by auto
  qed
qed

text \<open>With the buffer of the bitmap locked: write it, release it and update the superblock.\<close>

lemma write_bit_ok:
  fixes s :: "'a fs_st_scheme"
  assumes ok: "fs_ok H s" and n: "n < unat (lim (sb s))"
    and h: "log_ok (insert (blk (of_nat n) (sb s)) H) s1" "slot (bufs s1) (blk (of_nat n) (sb s)) = Some i"
      "lview s1 = lview s" "s1 = s\<lparr>bufs := bufs s1\<rparr>" "\<forall>c\<in>H. slot (bufs s1) c = slot (bufs s) c"
    and sp: "space (Suc (Suc k)) s" and few: "card H \<le> Suc k"
  obtains t d' where "rbind (rbind (log_write i (set_bdata i d s1)) (brelse i))
      (\<lambda>s. updatesb ROOTDEV (s\<lparr>sb := upd f (sb s)\<rparr>)) = Ok t" "fs_ok H t"
    "lview t = (lview s)(blk (of_nat n) (sb s) := d, 1 := d')" "sb t = upd f (sb s)"
    "space k t" "fs_touched s t" "\<forall>c\<in>H. slot (bufs t) c = slot (bufs s) c" "get_superblock d' = sb t"
proof -
  let ?B = "blk (of_nat n) (sb s)"
  have e1: "sb s1 = sb s" "lg s1 = lg s" using bufs_fs[OF h(4)] by auto
  have sp1: "space (Suc (Suc k)) s1" using sp e1 by (simp add: space_def)
  obtain s2 where 2: "rbind (log_write i (set_bdata i d s1)) (brelse i) = Ok s2" "log_ok H s2"
    "lview s2 = (lview s1)(?B := d)" "space (Suc k) s2" "touched s1 s2" "logged s2 = insert ?B (logged s1)"
    "slot (bufs s2) = slot (bufs s1)"
    by (rule log_update_held[OF h(1) blk_free(1)[OF ok n] h(2) sp1])
  have t12: "touched s s2" by (rule touched_trans[OF touched_bufs[OF h(4)] 2(5)])
  have ok2: "fs_ok H s2" by (rule fs_ok_touched[OF 2(2) touched_fs[OF t12] ok]) simp
  define x where "x = upd f (sb s)"
  have gx: "geom x = geom (sb s)" by (simp add: x_def upd_geom)
  have e2: "sb s2 = sb s" using touched_same_sb[OF t12] .
  have t3: "fs_touched s2 (s2\<lparr>sb := x\<rparr>)" using gx by (simp add: fs_touched_def touched_refl e2)
  have ok3: "fs_ok H (s2\<lparr>sb := x\<rparr>)" by (rule fs_ok_touched[OF _ t3 ok2]) (use 2(2) in simp_all)
  have sp3: "space (Suc k) (s2\<lparr>sb := x\<rparr>)" using 2(4) by simp
  obtain t where t: "updatesb ROOTDEV (s2\<lparr>sb := x\<rparr>) = Ok t" "fs_ok H t"
    "lview t = (lview (s2\<lparr>sb := x\<rparr>))(1 := put_superblock (lview (s2\<lparr>sb := x\<rparr>) 1) (sb (s2\<lparr>sb := x\<rparr>)))"
    "space k t" "touched (s2\<lparr>sb := x\<rparr>) t" "\<forall>c\<in>H. slot (bufs t) c = slot (bufs (s2\<lparr>sb := x\<rparr>)) c"
    by (rule updatesb_ok[OF ok3 sp3 few])
  have et: "sb t = x" using touched_same_sb[OF t(5)] by simp
  have tt: "fs_touched s t"
    by (rule fs_touched_trans[OF touched_fs[OF t12] fs_touched_trans[OF t3 touched_fs[OF t(5)]]])
  define d' where "d' = put_superblock (lview s2 1) x"
  have lv: "lview t = (lview s)(?B := d, 1 := d')" using t(3) 2(3) h(3) by (simp add: d'_def)
  have run: "rbind (rbind (log_write i (set_bdata i d s1)) (brelse i))
      (\<lambda>s. updatesb ROOTDEV (s\<lparr>sb := upd f (sb s)\<rparr>)) = Ok t"
    unfolding 2(1) using t(1) e2 by (simp add: x_def)
  show ?thesis
    by (rule that[OF run t(2) lv _ t(4) tt]) (use et t(6) 2(7) h(5) in \<open>simp_all add: x_def d'_def\<close>)
qed

text \<open>Taking the least free number.\<close>

lemma take_free_ok:
  fixes s :: "'a fs_st_scheme"
  assumes ok: "fs_ok H s" and free: "n0 < unat (lim (sb s))" "n0 \<notin> in_use lim blk s"
    and sp: "space (Suc (Suc k)) s" and few: "card H \<le> Suc k"
  obtains n t d d' where "take_free lim blk upd ROOTDEV s = Ok (Some n, t)" "n < unat (lim (sb s))"
    "n \<notin> in_use lim blk s" "\<forall>m<n. m \<in> in_use lim blk s"
    "fs_ok H t" "in_use lim blk t = insert n (in_use lim blk s)"
    "lview t = (lview s)(blk (of_nat n) (sb s) := d, 1 := d')" "sb t = upd (\<lambda>c. c - 1) (sb s)"
    "space k t" "fs_touched s t" "\<forall>c\<in>H. slot (bufs t) c = slot (bufs s) c"
    "get_superblock d' = sb t"
proof -
  note D = fs_okD[OF ok]
  have "nat (lh_n (lg s)) + card H < NBUF" by (rule space_few[OF sp D(1)]) (use few in simp)
  from find_free_ok[OF ok _ this, of 0] obtain r s1 where
    r: "find_free lim blk ROOTDEV 0 s = Ok (r, s1)" "scanned lim blk H 0 s r s1" by auto
  obtain i n where rn: "r = Some (i, n)" using r(2) free by (cases r) (auto simp: scanned_def)
  let ?B = "blk (of_nat n) (sb s)"
  have R: "n < unat (lim (sb s))" "n \<notin> in_use lim blk s" "\<forall>m<n. m \<in> in_use lim blk s"
    "log_ok (insert ?B H) s1" "slot (bufs s1) ?B = Some i" "bdata i s1 = lview s ?B" "lview s1 = lview s"
    "s1 = s\<lparr>bufs := bufs s1\<rparr>" "\<forall>c\<in>H. slot (bufs s1) c = slot (bufs s) c"
    using r(2) unfolding scanned_def rn by auto
  let ?d = "mark_bit (lview s ?B) (n mod BPB)"
  obtain t d' where t: "rbind (rbind (log_write i (set_bdata i ?d s1)) (brelse i))
      (\<lambda>s. updatesb ROOTDEV (s\<lparr>sb := upd (\<lambda>c. c - 1) (sb s)\<rparr>)) = Ok t" "fs_ok H t"
    "lview t = (lview s)(?B := ?d, 1 := d')" "sb t = upd (\<lambda>c. c - 1) (sb s)"
    "space k t" "fs_touched s t" "\<forall>c\<in>H. slot (bufs t) c = slot (bufs s) c" "get_superblock d' = sb t"
    by (rule write_bit_ok[OF ok R(1,4,5,7,8,9) sp few])
  have "lview t (blk (of_nat m) (sb s)) = ((lview s)(?B := ?d)) (blk (of_nat m) (sb s))" if "m < unat (lim (sb s))" for m
    using blk_out[OF D(2) that] by (simp add: t(3))
  from in_use_mark[OF D(2) R(1) _ this] fs_touchedD(1)[OF t(6)]
  have u: "in_use lim blk t = insert n (in_use lim blk s)" by simp
  have "take_free lim blk upd ROOTDEV s = rbind (Ok t) (\<lambda>s. Ok (Some n, s))"
    unfolding t(1)[symmetric] rbind_assoc using r(1) rn R(6) by (simp add: take_free_def rbind_assoc del: rbind_Ok_iff)
  then have tf: "take_free lim blk upd ROOTDEV s = Ok (Some n, t)" by simp
  show ?thesis by (rule that[OF tf R(1-3) t(2) u t(3-8)])
qed

text \<open>Giving a number back.\<close>

lemma give_back_ok:
  fixes s :: "'a fs_st_scheme"
  assumes ok: "fs_ok H s" and n: "unat b \<in> in_use lim blk s"
    and sp: "space (Suc (Suc k)) s" and few: "card H \<le> Suc k"
  obtains t d d' where "give_back blk upd msg ROOTDEV b s = Ok t" "fs_ok H t"
    "in_use lim blk t = in_use lim blk s - {unat b}" "lview t = (lview s)(blk b (sb s) := d, 1 := d')"
    "sb t = upd (\<lambda>c. c + 1) (sb s)" "space k t" "fs_touched s t"
    "\<forall>c\<in>H. slot (bufs t) c = slot (bufs s) c" "get_superblock d' = sb t"
proof -
  note D = fs_okD[OF ok]
  have b: "of_nat (unat b) = b" by simp
  have nl: "unat b < unat (lim (sb s))" and nc: "\<not> bit_clear (lview s (blk b (sb s))) (unat b mod BPB)"
    using n by (simp_all add: in_use_def)
  have few': "nat (lh_n (lg s)) + card H < NBUF" by (rule space_few[OF sp D(1)]) (use few in simp)
  then have "blk b (sb s) \<in> logged s \<or> nat (lh_n (lg s)) + card H < NBUF" ..
  from log_bread_ok[OF D(1) blk_free[OF ok nl, unfolded b] this] obtain i s1 where 1:
    "bread ROOTDEV (blk b (sb s)) s = Ok (i, s1)" "log_ok (insert (blk b (sb s)) H) s1"
    "slot (bufs s1) (blk b (sb s)) = Some i" "\<forall>c\<in>H. slot (bufs s1) c = slot (bufs s) c"
    "lview s1 = lview s" "bdata i s1 = lview s (blk b (sb s))" "s1 = s\<lparr>bufs := bufs s1\<rparr>" "logged s1 = logged s" by blast
  let ?d = "erase_bit (lview s (blk b (sb s))) (unat b mod BPB)"
  obtain t d' where t: "rbind (rbind (log_write i (set_bdata i ?d s1)) (brelse i))
      (\<lambda>s. updatesb ROOTDEV (s\<lparr>sb := upd (\<lambda>c. c + 1) (sb s)\<rparr>)) = Ok t" "fs_ok H t"
    "lview t = (lview s)(blk b (sb s) := ?d, 1 := d')" "sb t = upd (\<lambda>c. c + 1) (sb s)"
    "space k t" "fs_touched s t" "\<forall>c\<in>H. slot (bufs t) c = slot (bufs s) c" "get_superblock d' = sb t"
    by (rule write_bit_ok[OF ok nl, unfolded b, OF 1(2,3,5,7,4) sp few])
  have "lview t (blk (of_nat m) (sb s)) = ((lview s)(blk b (sb s) := ?d)) (blk (of_nat m) (sb s))"
    if "m < unat (lim (sb s))" for m using blk_out[OF D(2) that] by (simp add: t(3))
  from in_use_erase[OF D(2) nl, unfolded b, OF _ this] fs_touchedD(1)[OF t(6)]
  have u: "in_use lim blk t = in_use lim blk s - {unat b}" by simp
  have "give_back blk upd msg ROOTDEV b s = Ok t"
    unfolding t(1)[symmetric] using 1(1,6) nc by (simp add: give_back_def del: rbind_Ok_iff)
  from that[OF this t(2) u t(3-8)] show ?thesis .
qed

lemma give_back_free:
  fixes s :: "'a fs_st_scheme"
  assumes ok: "fs_ok H s" and n: "unat b < unat (lim (sb s))" "unat b \<notin> in_use lim blk s"
    and sp: "space k s" "card H \<le> k"
  shows "give_back blk upd msg ROOTDEV b s = Panic msg"
proof -
  note D = fs_okD[OF ok]
  have b: "of_nat (unat b) = b" by simp
  have "nat (lh_n (lg s)) + card H < NBUF" by (rule space_few[OF sp(1) D(1) sp(2)])
  then have "blk b (sb s) \<in> logged s \<or> nat (lh_n (lg s)) + card H < NBUF" ..
  from log_bread_ok[OF D(1) blk_free[OF ok n(1), unfolded b] this] obtain i s1 where
    "bread ROOTDEV (blk b (sb s)) s = Ok (i, s1)" "log_ok (insert (blk b (sb s)) H) s1"
    "slot (bufs s1) (blk b (sb s)) = Some i" "\<forall>c\<in>H. slot (bufs s1) c = slot (bufs s) c"
    "lview s1 = lview s" "bdata i s1 = lview s (blk b (sb s))" "s1 = s\<lparr>bufs := bufs s1\<rparr>" "logged s1 = logged s"
    by blast
  then show ?thesis using n by (simp add: give_back_def in_use_def)
qed

lemma take_free_none:
  fixes s :: "'a fs_st_scheme"
  assumes ok: "fs_ok H s" and full: "\<forall>m<unat (lim (sb s)). m \<in> in_use lim blk s" and sp: "space k s" "card H \<le> k"
  shows "\<exists>t. take_free lim blk upd ROOTDEV s = Ok (None, t)"
proof -
  have "nat (lh_n (lg s)) + card H < NBUF" by (rule space_few[OF sp(1) fs_okD(1)[OF ok] sp(2)])
  from find_free_ok[OF ok _ this, of 0] obtain r t where
    r: "find_free lim blk ROOTDEV 0 s = Ok (r, t)" "scanned lim blk H 0 s r t" by auto
  have "r = None" using r(2) full by (auto simp: scanned_def split: option.splits)
  then show ?thesis using r(1) by (simp add: take_free_def)
qed

end

interpretation bm: bitmap sb_size BBLOCK sb_freeblocks_update
  by unfold_locales (auto simp: BBLOCK_iff is_meta_def dest: geom_eqD layout_okD)

interpretation im: bitmap sb_ninodes IBBLOCK sb_freeinodes_update
  by unfold_locales (auto simp: IBBLOCK_iff is_meta_def dest: geom_eqD layout_okD)

section \<open>Blocks\<close>

lemma bzero_ok:
  assumes ok: "fs_ok H s" and b: "b \<notin> H" "b \<notin> log_area (lg_start (lg s))"
    and sp: "space (Suc k) s" and few: "card H \<le> Suc k"
  obtains t where "bzero ROOTDEV b s = Ok t" "fs_ok H t" "lview t = (lview s)(b := memset (lview s b) 0 0 BSIZE)"
    "space k t" "touched s t" "\<forall>c\<in>H. slot (bufs t) c = slot (bufs s) c"
proof -
  note D = fs_okD[OF ok]
  obtain t where t: "bupdate ROOTDEV b (\<lambda>d. memset d 0 0 BSIZE) s = Ok t" "log_ok H t"
    "lview t = (lview s)(b := memset (lview s b) 0 0 BSIZE)" "space k t" "touched s t"
    "logged t = insert b (logged s)" "\<forall>c\<in>H. slot (bufs t) c = slot (bufs s) c"
    by (rule bupdate_ok[OF D(1) b sp few, where f = "\<lambda>d. memset d 0 0 BSIZE"])
  have "fs_ok H t" by (rule fs_ok_touched[OF t(2) touched_fs[OF t(5)] ok]) simp
  from that[OF _ this t(3-5) t(7)] t(1) show ?thesis by (simp add: bzero_def)
qed

lemma used_meta: "meta_used s \<Longrightarrow> n < unat (sb_size (sb s)) \<Longrightarrow> n \<notin> used_blocks s \<Longrightarrow> \<not> is_meta (sb s) (of_nat n)"
  by (auto simp: meta_used_def)

lemma blocks_meta:
  assumes "layout_ok x"
  shows "n < unat (sb_size x) \<Longrightarrow> is_meta x (BBLOCK (of_nat n) x)"
    "n < unat (sb_ninodes x) \<Longrightarrow> is_meta x (IBBLOCK (of_nat n) x)"
    "n < unat (sb_ninodes x) \<Longrightarrow> is_meta x (IBLOCK (of_nat n) x)" "is_meta x 1" "is_meta x 0"
  by (auto simp: is_meta_def)

text \<open>A change outside the bitmap of the inodes does not change it.\<close>

lemma inodes_unchanged:
  assumes "layout_ok (sb s)" "geom (sb t) = geom (sb s)"
    and "\<And>n. n < unat (sb_ninodes (sb s)) \<Longrightarrow> lview t (IBBLOCK (of_nat n) (sb s)) = lview s (IBBLOCK (of_nat n) (sb s))"
  shows "used_inodes t = used_inodes s"
  using assms geom_eqD[OF assms(2)] by (auto simp: in_use_def)

lemma blocks_unchanged:
  assumes "layout_ok (sb s)" "geom (sb t) = geom (sb s)"
    and "\<And>n. n < unat (sb_size (sb s)) \<Longrightarrow> lview t (BBLOCK (of_nat n) (sb s)) = lview s (BBLOCK (of_nat n) (sb s))"
  shows "used_blocks t = used_blocks s"
  using assms geom_eqD[OF assms(2)] by (auto simp: in_use_def)

lemma meta_used_mono:
  assumes "meta_used s" "geom (sb t) = geom (sb s)" "used_blocks s - {n} \<subseteq> used_blocks t"
    and "n < unat (sb_size (sb s)) \<Longrightarrow> n \<notin> used_blocks t \<Longrightarrow> \<not> is_meta (sb s) (of_nat n)"
  shows "meta_used t"
  using assms geom_eqD(1)[OF assms(2)] is_meta_geom[OF assms(2)] unfolding meta_used_def by auto

lemma balloc_ok:
  fixes s :: "'a fs_st_scheme"
  assumes ok: "fs_ok H s" and mu: "meta_used s" and H: "\<forall>b\<in>H. unat b \<in> used_blocks s"
    and free: "n0 < unat (sb_size (sb s))" "n0 \<notin> used_blocks s"
    and sp: "space (k + 3) s" and few: "card H \<le> Suc k"
  obtains n t d d' where "balloc ROOTDEV s = Ok (of_nat n, t)" "n < unat (sb_size (sb s))" "n \<notin> used_blocks s"
    "\<forall>m<n. m \<in> used_blocks s" "fs_ok H t" "used_blocks t = insert n (used_blocks s)"
    "used_inodes t = used_inodes s" "meta_used t"
    "lview t = (lview s)(BBLOCK (of_nat n) (sb s) := d, 1 := d', of_nat n := memset (lview s (of_nat n)) 0 0 BSIZE)"
    "sb t = sb_freeblocks_update (\<lambda>c. c - 1) (sb s)" "space k t" "fs_touched s t"
    "\<forall>c\<in>H. slot (bufs t) c = slot (bufs s) c" "\<not> is_meta (sb s) (of_nat n)"
proof -
  note D = fs_okD[OF ok]
  have sp': "space (Suc (Suc (Suc k))) s" using sp by (simp add: numeral_3_eq_3)
  obtain n t d d' where t: "take_free sb_size BBLOCK sb_freeblocks_update ROOTDEV s = Ok (Some n, t)"
    "n < unat (sb_size (sb s))" "n \<notin> used_blocks s" "\<forall>m<n. m \<in> used_blocks s" "fs_ok H t"
    "used_blocks t = insert n (used_blocks s)" "lview t = (lview s)(BBLOCK (of_nat n) (sb s) := d, 1 := d')"
    "sb t = sb_freeblocks_update (\<lambda>c. c - 1) (sb s)" "space (Suc k) t" "fs_touched s t"
    "\<forall>c\<in>H. slot (bufs t) c = slot (bufs s) c" "get_superblock d' = sb t"
    by (rule bm.take_free_ok[OF ok free sp']) (use few in auto)
  note g = fs_touchedD(1)[OF t(10)]
  have nm: "\<not> is_meta (sb s) (of_nat n)" by (rule used_meta[OF mu t(2,3)])
  have un: "unat (of_nat n :: u32) = n" using t(2) layout_okD(1)[OF D(2)] by (intro unat_small) simp
  have nH: "of_nat n \<notin> H" using H t(3) un by auto
  have nl: "of_nat n \<notin> log_area (lg_start (lg t))"
    using nm D(3) fs_touchedD(3)[OF t(10)] by (simp add: is_meta_def)
  obtain u where u: "bzero ROOTDEV (of_nat n) t = Ok u" "fs_ok H u"
    "lview u = (lview t)(of_nat n := memset (lview t (of_nat n)) 0 0 BSIZE)" "space k u" "touched t u"
    "\<forall>c\<in>H. slot (bufs u) c = slot (bufs t) c"
    by (rule bzero_ok[OF t(5) nH nl t(9) few])
  have su: "sb u = sb t" using touched_same_sb[OF u(5)] .
  have tu: "fs_touched s u" by (rule fs_touched_trans[OF t(10) touched_fs[OF u(5)]])
  note M = blocks_meta[OF D(2)]
  have "BBLOCK (of_nat m) (sb s) \<noteq> of_nat n" if "m < unat (sb_size (sb s))" for m using nm M(1)[OF that] by metis
  then have ub: "used_blocks u = used_blocks t"
    using geom_eqD[OF g] su fs_okD(2)[OF t(5)] by (intro blocks_unchanged) (auto simp: u(3))
  have nb: "of_nat n \<noteq> BBLOCK (of_nat n) (sb s)" "of_nat n \<noteq> (1 :: u32)" using nm M(1)[OF t(2)] M(4) by metis+
  have lv: "lview u = (lview s)(BBLOCK (of_nat n) (sb s) := d, 1 := d', of_nat n := memset (lview s (of_nat n)) 0 0 BSIZE)"
    using nb by (simp add: u(3) t(7))
  have ui: "used_inodes u = used_inodes s"
  proof (rule inodes_unchanged[OF D(2)])
    show "geom (sb u) = geom (sb s)" using g su by simp
    show "lview u (IBBLOCK (of_nat m) (sb s)) = lview s (IBBLOCK (of_nat m) (sb s))"
      if "m < unat (sb_ninodes (sb s))" for m
    proof -
      have "IBBLOCK (of_nat m) (sb s) \<noteq> of_nat n" using nm M(2)[OF that] by metis
      then show ?thesis using layout_okD(5)[OF D(2) that] layout_okD(7)[OF D(2) that t(2)] by (simp add: lv)
    qed
  qed
  have mu': "meta_used u"
    using nm by (intro meta_used_mono[OF mu, of u n]) (auto simp: ub t(6) su g)
  have b: "balloc ROOTDEV s = Ok (of_nat n, u)" using t(1) u(1) by (simp add: balloc_def)
  show ?thesis
    by (rule that[OF b t(2,3,4) u(2) _ ui mu' lv _ u(4) tu _ nm]) (use ub t(6,8,11) su u(6) in auto)
qed

lemma bfree_ok:
  fixes s :: "'a fs_st_scheme"
  assumes ok: "fs_ok H s" and mu: "meta_used s" and b: "unat b \<in> used_blocks s" "\<not> is_meta (sb s) b"
    and sp: "space (k + 2) s" and few: "card H \<le> Suc k"
  obtains t d d' where "bfree ROOTDEV b s = Ok t" "fs_ok H t" "used_blocks t = used_blocks s - {unat b}"
    "used_inodes t = used_inodes s" "meta_used t" "lview t = (lview s)(BBLOCK b (sb s) := d, 1 := d')"
    "sb t = sb_freeblocks_update (\<lambda>c. c + 1) (sb s)" "space k t" "fs_touched s t"
    "\<forall>c\<in>H. slot (bufs t) c = slot (bufs s) c"
proof -
  note D = fs_okD[OF ok]
  have sp': "space (Suc (Suc k)) s" using sp by (simp add: numeral_2_eq_2)
  obtain t d d' where t: "give_back BBLOCK sb_freeblocks_update ''freeing free block'' ROOTDEV b s = Ok t" "fs_ok H t"
    "used_blocks t = used_blocks s - {unat b}" "lview t = (lview s)(BBLOCK b (sb s) := d, 1 := d')"
    "sb t = sb_freeblocks_update (\<lambda>c. c + 1) (sb s)" "space k t" "fs_touched s t"
    "\<forall>c\<in>H. slot (bufs t) c = slot (bufs s) c" "get_superblock d' = sb t"
    by (rule bm.give_back_ok[OF ok b(1) sp' few])
  note g = fs_touchedD(1)[OF t(7)]
  have bl: "unat b < unat (sb_size (sb s))" using b(1) by (simp add: in_use_def)
  have "used_inodes t = used_inodes s"
  proof (rule inodes_unchanged[OF D(2) g])
    show "lview t (IBBLOCK (of_nat m) (sb s)) = lview s (IBBLOCK (of_nat m) (sb s))"
      if "m < unat (sb_ninodes (sb s))" for m
      using layout_okD(5)[OF D(2) that] layout_okD(7)[OF D(2) that bl] by (simp add: t(4))
  qed
  moreover have "meta_used t" by (rule meta_used_mono[OF mu g, of "unat b"]) (use t(3) b(2) in auto)
  ultimately show ?thesis using that[OF _ t(2,3) _ _ t(4-8)] t(1) by (simp add: bfree_def)
qed

lemma bfree_free:
  assumes "fs_ok H s" "unat b < unat (sb_size (sb s))" "unat b \<notin> used_blocks s" "space k s" "card H \<le> k"
  shows "bfree ROOTDEV b s = Panic ''freeing free block''"
  unfolding bfree_def by (rule bm.give_back_free[OF assms])

lemma balloc_full:
  assumes ok: "fs_ok H s" and full: "\<forall>n<unat (sb_size (sb s)). n \<in> used_blocks s" and sp: "space k s" "card H \<le> k"
  shows "balloc ROOTDEV s = Panic ''balloc: out of blocks''"
  using bm.take_free_none[OF ok full sp] by (auto simp: balloc_def)

section \<open>Inode numbers\<close>

lemma searchibmap_ok:
  fixes s :: "'a fs_st_scheme"
  assumes ok: "fs_ok H s" and mu: "meta_used s"
    and free: "n0 < unat (sb_ninodes (sb s))" "n0 \<notin> used_inodes s"
    and sp: "space (k + 2) s" and few: "card H \<le> Suc k"
  obtains n t d d' where "searchibmap ROOTDEV s = Ok (of_nat n, t)" "n < unat (sb_ninodes (sb s))" "n \<notin> used_inodes s"
    "\<forall>m<n. m \<in> used_inodes s" "fs_ok H t" "used_inodes t = insert n (used_inodes s)"
    "used_blocks t = used_blocks s" "meta_used t" "lview t = (lview s)(IBBLOCK (of_nat n) (sb s) := d, 1 := d')"
    "sb t = sb_freeinodes_update (\<lambda>c. c - 1) (sb s)" "space k t" "fs_touched s t"
    "\<forall>c\<in>H. slot (bufs t) c = slot (bufs s) c"
proof -
  note D = fs_okD[OF ok]
  have sp': "space (Suc (Suc k)) s" using sp by (simp add: numeral_2_eq_2)
  obtain n t d d' where t: "take_free sb_ninodes IBBLOCK sb_freeinodes_update ROOTDEV s = Ok (Some n, t)"
    "n < unat (sb_ninodes (sb s))" "n \<notin> used_inodes s" "\<forall>m<n. m \<in> used_inodes s" "fs_ok H t"
    "used_inodes t = insert n (used_inodes s)" "lview t = (lview s)(IBBLOCK (of_nat n) (sb s) := d, 1 := d')"
    "sb t = sb_freeinodes_update (\<lambda>c. c - 1) (sb s)" "space k t" "fs_touched s t"
    "\<forall>c\<in>H. slot (bufs t) c = slot (bufs s) c" "get_superblock d' = sb t"
    by (rule im.take_free_ok[OF ok free sp' few])
  note g = fs_touchedD(1)[OF t(10)]
  have ub: "used_blocks t = used_blocks s"
  proof (rule blocks_unchanged[OF D(2) g])
    show "lview t (BBLOCK (of_nat m) (sb s)) = lview s (BBLOCK (of_nat m) (sb s))"
      if "m < unat (sb_size (sb s))" for m
      using layout_okD(4)[OF D(2) that] layout_okD(7)[OF D(2) t(2) that] by (simp add: t(7))
  qed
  then have "meta_used t" by (intro meta_used_mono[OF mu g, of "unat (sb_size (sb s))"]) auto
  from that[OF _ t(2-6) ub this t(7-11)] t(1) show ?thesis by (simp add: searchibmap_def)
qed

lemma ifree_ok:
  fixes s :: "'a fs_st_scheme"
  assumes ok: "fs_ok H s" and mu: "meta_used s" and b: "unat b \<in> used_inodes s"
    and sp: "space (k + 2) s" and few: "card H \<le> Suc k"
  obtains t d d' where "ifree ROOTDEV b s = Ok t" "fs_ok H t" "used_inodes t = used_inodes s - {unat b}"
    "used_blocks t = used_blocks s" "meta_used t" "lview t = (lview s)(IBBLOCK b (sb s) := d, 1 := d')"
    "sb t = sb_freeinodes_update (\<lambda>c. c + 1) (sb s)" "space k t" "fs_touched s t"
    "\<forall>c\<in>H. slot (bufs t) c = slot (bufs s) c"
proof -
  note D = fs_okD[OF ok]
  have sp': "space (Suc (Suc k)) s" using sp by (simp add: numeral_2_eq_2)
  obtain t d d' where t: "give_back IBBLOCK sb_freeinodes_update ''freeing free inode'' ROOTDEV b s = Ok t" "fs_ok H t"
    "used_inodes t = used_inodes s - {unat b}" "lview t = (lview s)(IBBLOCK b (sb s) := d, 1 := d')"
    "sb t = sb_freeinodes_update (\<lambda>c. c + 1) (sb s)" "space k t" "fs_touched s t"
    "\<forall>c\<in>H. slot (bufs t) c = slot (bufs s) c" "get_superblock d' = sb t"
    by (rule im.give_back_ok[OF ok b sp' few])
  note g = fs_touchedD(1)[OF t(7)]
  have bl: "unat b < unat (sb_ninodes (sb s))" using b by (simp add: in_use_def)
  have ub: "used_blocks t = used_blocks s"
  proof (rule blocks_unchanged[OF D(2) g])
    show "lview t (BBLOCK (of_nat m) (sb s)) = lview s (BBLOCK (of_nat m) (sb s))"
      if "m < unat (sb_size (sb s))" for m
      using layout_okD(4)[OF D(2) that] layout_okD(7)[OF D(2) bl that] by (simp add: t(4))
  qed
  then have "meta_used t" by (intro meta_used_mono[OF mu g, of "unat (sb_size (sb s))"]) auto
  from that[OF _ t(2,3) ub this t(4-8)] t(1) show ?thesis by (simp add: ifree_def)
qed

section \<open>The counters\<close>

lemma in_use_finite: "finite (in_use l b s)" "in_use l b s \<subseteq> {..<unat (l (sb s))}"
  by (auto simp: in_use_def intro: finite_subset[of _ "{..<unat (l (sb s))}"])

lemma count_take:
  assumes "n < c" "n \<notin> U" "U \<subseteq> {..<c :: nat}"
  shows "(of_nat (c - card (insert n U)) :: u32) = of_nat (c - card U) - 1"
proof -
  have f: "finite U" using assms(3) finite_subset by blast
  have "card (insert n U) \<le> c" using card_mono[of "{..<c}" "insert n U"] assms by auto
  then have "c - card U = Suc (c - card (insert n U))" using assms(2) f by simp
  then show ?thesis by simp
qed

lemma count_give:
  assumes "n \<in> U" "U \<subseteq> {..<c :: nat}"
  shows "(of_nat (c - card (U - {n})) :: u32) = of_nat (c - card U) + 1"
proof -
  have f: "finite U" using assms(2) finite_subset by blast
  have "card U \<le> c" "card U \<noteq> 0" using card_mono[of "{..<c}" U] assms f by auto
  then have "c - card (U - {n}) = Suc (c - card U)" using card_Suc_Diff1[OF f assms(1)] by linarith
  then show ?thesis by simp
qed

lemma counters_balloc:
  assumes "counters_ok s" "n < unat (sb_size (sb s))" "n \<notin> used_blocks s" "used_blocks t = insert n (used_blocks s)"
    "used_inodes t = used_inodes s" "sb t = sb_freeblocks_update (\<lambda>c. c - 1) (sb s)"
  shows "counters_ok t"
  using assms count_take[OF assms(2,3) in_use_finite(2)] by (simp add: counters_ok_def)

lemma counters_bfree:
  assumes "counters_ok s" "n \<in> used_blocks s" "used_blocks t = used_blocks s - {n}"
    "used_inodes t = used_inodes s" "sb t = sb_freeblocks_update (\<lambda>c. c + 1) (sb s)"
  shows "counters_ok t"
  using assms count_give[OF assms(2) in_use_finite(2)] by (simp add: counters_ok_def)

lemma counters_searchibmap:
  assumes "counters_ok s" "n < unat (sb_ninodes (sb s))" "n \<notin> used_inodes s" "used_inodes t = insert n (used_inodes s)"
    "used_blocks t = used_blocks s" "sb t = sb_freeinodes_update (\<lambda>c. c - 1) (sb s)"
  shows "counters_ok t"
  using assms count_take[OF assms(2,3) in_use_finite(2)] by (simp add: counters_ok_def)

lemma counters_ifree:
  assumes "counters_ok s" "n \<in> used_inodes s" "used_inodes t = used_inodes s - {n}"
    "used_blocks t = used_blocks s" "sb t = sb_freeinodes_update (\<lambda>c. c + 1) (sb s)"
  shows "counters_ok t"
  using assms count_give[OF assms(2) in_use_finite(2)] by (simp add: counters_ok_def)

section \<open>The interface of an allocator\<close>

text \<open>Several allocations in a row.\<close>

primrec alloc_many :: "('s \<Rightarrow> (u32 \<times> 's) res) \<Rightarrow> nat \<Rightarrow> 's \<Rightarrow> (u32 list \<times> 's) res" where
  "alloc_many f 0 s = Ok ([], s)"
| "alloc_many f (Suc k) s = rbind (f s) (\<lambda>(b, s). rbind (alloc_many f k s) (\<lambda>(bs, s). Ok (b # bs, s)))"

locale allocator =
  fixes alloc :: "'s \<Rightarrow> (u32 \<times> 's) res" and release :: "u32 \<Rightarrow> 's \<Rightarrow> 's res"
    and live :: "'s \<Rightarrow> nat set" and cap :: "'s \<Rightarrow> nat" and inv :: "nat \<Rightarrow> 's \<Rightarrow> bool"
    and own :: "u32 \<Rightarrow> 's \<Rightarrow> bool"
  assumes alloc_law: "inv (Suc k) s \<Longrightarrow> n < cap s \<Longrightarrow> n \<notin> live s \<Longrightarrow>
      \<exists>b t. alloc s = Ok (b, t) \<and> unat b < cap s \<and> unat b \<notin> live s \<and> live t = insert (unat b) (live s) \<and>
        inv k t \<and> cap t = cap s \<and> own b t"
    and release_law: "inv (Suc k) s \<Longrightarrow> unat b \<in> live s \<Longrightarrow> own b s \<Longrightarrow>
      \<exists>t. release b s = Ok t \<and> live t = live s - {unat b} \<and> inv k t \<and> cap t = cap s"
    and live_cap: "live s \<subseteq> {..<cap s}"
begin

lemma alloc_many_distinct:
  "inv k s \<Longrightarrow> k + card (live s) \<le> cap s \<Longrightarrow>
   \<exists>bs t. alloc_many alloc k s = Ok (bs, t) \<and> length bs = k \<and> distinct bs \<and> unat ` set bs \<inter> live s = {} \<and>
     live t = live s \<union> unat ` set bs"
proof (induction k arbitrary: s)
  case (Suc k)
  have fin: "finite (live s)" using live_cap finite_subset by blast
  have "\<exists>n<cap s. n \<notin> live s"
  proof (rule ccontr)
    assume "\<not> ?thesis"
    then have "{..<cap s} \<subseteq> live s" by auto
    from card_mono[OF fin this] Suc.prems(2) show False by simp
  qed
  then obtain b t where 1: "alloc s = Ok (b, t)" "unat b < cap s" "unat b \<notin> live s"
    "live t = insert (unat b) (live s)" "inv k t" "cap t = cap s"
    using alloc_law[OF Suc.prems(1)] by blast
  have "k + card (live t) \<le> cap t" using Suc.prems(2) 1 fin by simp
  from Suc.IH[OF 1(5) this] obtain bs u where 2: "alloc_many alloc k t = Ok (bs, u)" "length bs = k" "distinct bs"
    "unat ` set bs \<inter> live t = {}" "live u = live t \<union> unat ` set bs" by blast
  have "b \<notin> set bs" using 2(4) 1(4) by auto
  then show ?case using 1 2 by auto
qed simp

lemma alloc_release:
  assumes "inv (Suc (Suc k)) s" "n < cap s" "n \<notin> live s"
  shows "\<exists>b t u. alloc s = Ok (b, t) \<and> release b t = Ok u \<and> live u = live s"
proof -
  obtain b t where 1: "alloc s = Ok (b, t)" "unat b \<notin> live s" "live t = insert (unat b) (live s)" "inv (Suc k) t"
    "own b t" using alloc_law[OF assms] by blast
  then show ?thesis using release_law[OF 1(4) _ 1(5)] by fastforce
qed

end

definition block_inv :: "nat \<Rightarrow> 'a fs_st_scheme \<Rightarrow> bool" where
  "block_inv k s \<longleftrightarrow> fs_ok {} s \<and> meta_used s \<and> counters_ok s \<and> space (3 * k) s"

lemma space_mono: "space k s \<Longrightarrow> j \<le> k \<Longrightarrow> space j s"
  by (auto simp: space_def)

interpretation ba: allocator "balloc ROOTDEV" "bfree ROOTDEV" used_blocks "\<lambda>s. unat (sb_size (sb s))"
    block_inv "\<lambda>b s. \<not> is_meta (sb s) b"
proof unfold_locales
  fix k n and s :: "'a fs_st_scheme"
  assume i: "block_inv (Suc k) s" and n: "n < unat (sb_size (sb s))" "n \<notin> used_blocks s"
  have sp: "space (3 * k + 3) s" using i by (simp add: block_inv_def algebra_simps)
  obtain m t d d' where t: "balloc ROOTDEV s = Ok (of_nat m, t)" "m < unat (sb_size (sb s))" "m \<notin> used_blocks s"
    "\<forall>j<m. j \<in> used_blocks s" "fs_ok {} t" "used_blocks t = insert m (used_blocks s)"
    "used_inodes t = used_inodes s" "meta_used t"
    "lview t = (lview s)(BBLOCK (of_nat m) (sb s) := d, 1 := d', of_nat m := memset (lview s (of_nat m)) 0 0 BSIZE)"
    "sb t = sb_freeblocks_update (\<lambda>c. c - 1) (sb s)" "space (3 * k) t" "fs_touched s t"
    "\<forall>c\<in>{}. slot (bufs t) c = slot (bufs s) c" "\<not> is_meta (sb s) (of_nat m)"
    by (rule balloc_ok[of "{}" s n "3 * k"]) (use i n sp in \<open>simp_all add: block_inv_def\<close>)
  have u: "unat (of_nat m :: u32) = m"
    using t(2) i by (intro unat_small) (auto simp: block_inv_def fs_ok_def layout_ok_def)
  have "counters_ok t" by (rule counters_balloc[of s m]) (use i t in \<open>auto simp: block_inv_def\<close>)
  moreover have "\<not> is_meta (sb t) (of_nat m)" using t(14) is_meta_geom[OF fs_touchedD(1)[OF t(12)]] by simp
  ultimately show "\<exists>b t. balloc ROOTDEV s = Ok (b, t) \<and> unat b < unat (sb_size (sb s)) \<and> unat b \<notin> used_blocks s \<and>
      used_blocks t = insert (unat b) (used_blocks s) \<and> block_inv k t \<and> unat (sb_size (sb t)) = unat (sb_size (sb s)) \<and>
      \<not> is_meta (sb t) b"
    using t u by (intro exI[of _ "of_nat m"] exI[of _ t]) (simp add: block_inv_def)
next
  fix k b and s :: "'a fs_st_scheme"
  assume i: "block_inv (Suc k) s" and b: "unat b \<in> used_blocks s" "\<not> is_meta (sb s) b"
  have sp: "space (3 * k + 2) s" using i by (auto simp: block_inv_def intro: space_mono)
  have I: "fs_ok {} s" "meta_used s" using i by (simp_all add: block_inv_def)
  obtain t d d' where t: "bfree ROOTDEV b s = Ok t" "fs_ok {} t" "used_blocks t = used_blocks s - {unat b}"
    "used_inodes t = used_inodes s" "meta_used t" "lview t = (lview s)(BBLOCK b (sb s) := d, 1 := d')"
    "sb t = sb_freeblocks_update (\<lambda>c. c + 1) (sb s)" "space (3 * k) t" "fs_touched s t"
    "\<forall>c\<in>{}. slot (bufs t) c = slot (bufs s) c"
    by (rule bfree_ok[OF I b sp]) simp_all
  have "counters_ok t" by (rule counters_bfree[OF _ b(1) t(3,4,7)]) (use i in \<open>simp add: block_inv_def\<close>)
  then show "\<exists>t. bfree ROOTDEV b s = Ok t \<and> used_blocks t = used_blocks s - {unat b} \<and> block_inv k t \<and>
      unat (sb_size (sb t)) = unat (sb_size (sb s))" using t by (simp add: block_inv_def)
qed (use in_use_finite(2) in blast)

definition inode_inv :: "nat \<Rightarrow> 'a fs_st_scheme \<Rightarrow> bool" where
  "inode_inv k s \<longleftrightarrow> fs_ok {} s \<and> meta_used s \<and> counters_ok s \<and> space (2 * k) s"

interpretation ia: allocator "searchibmap ROOTDEV" "ifree ROOTDEV" used_inodes "\<lambda>s. unat (sb_ninodes (sb s))"
    inode_inv "\<lambda>b s. True"
proof unfold_locales
  fix k n and s :: "'a fs_st_scheme"
  assume i: "inode_inv (Suc k) s" and n: "n < unat (sb_ninodes (sb s))" "n \<notin> used_inodes s"
  have sp: "space (2 * k + 2) s" using i by (simp add: inode_inv_def)
  have I: "fs_ok {} s" "meta_used s" using i by (simp_all add: inode_inv_def)
  obtain m t d d' where t: "searchibmap ROOTDEV s = Ok (of_nat m, t)" "m < unat (sb_ninodes (sb s))" "m \<notin> used_inodes s"
    "\<forall>j<m. j \<in> used_inodes s" "fs_ok {} t" "used_inodes t = insert m (used_inodes s)"
    "used_blocks t = used_blocks s" "meta_used t" "lview t = (lview s)(IBBLOCK (of_nat m) (sb s) := d, 1 := d')"
    "sb t = sb_freeinodes_update (\<lambda>c. c - 1) (sb s)" "space (2 * k) t" "fs_touched s t"
    "\<forall>c\<in>{}. slot (bufs t) c = slot (bufs s) c"
    by (rule searchibmap_ok[OF I n sp]) simp_all
  have u: "unat (of_nat m :: u32) = m"
    using t(2) i by (intro unat_small) (auto simp: inode_inv_def fs_ok_def layout_ok_def)
  have "counters_ok t" by (rule counters_searchibmap[of s m]) (use i t in \<open>auto simp: inode_inv_def\<close>)
  then show "\<exists>b t. searchibmap ROOTDEV s = Ok (b, t) \<and> unat b < unat (sb_ninodes (sb s)) \<and> unat b \<notin> used_inodes s \<and>
      used_inodes t = insert (unat b) (used_inodes s) \<and> inode_inv k t \<and>
      unat (sb_ninodes (sb t)) = unat (sb_ninodes (sb s)) \<and> True"
    using t u by (intro exI[of _ "of_nat m"] exI[of _ t]) (simp add: inode_inv_def)
next
  fix k and b :: u32 and s :: "'a fs_st_scheme"
  assume i: "inode_inv (Suc k) s" and b: "unat b \<in> used_inodes s"
  have sp: "space (2 * k + 2) s" using i by (simp add: inode_inv_def)
  have I: "fs_ok {} s" "meta_used s" using i by (simp_all add: inode_inv_def)
  obtain t d d' where t: "ifree ROOTDEV b s = Ok t" "fs_ok {} t" "used_inodes t = used_inodes s - {unat b}"
    "used_blocks t = used_blocks s" "meta_used t" "lview t = (lview s)(IBBLOCK b (sb s) := d, 1 := d')"
    "sb t = sb_freeinodes_update (\<lambda>c. c + 1) (sb s)" "space (2 * k) t" "fs_touched s t"
    "\<forall>c\<in>{}. slot (bufs t) c = slot (bufs s) c"
    by (rule ifree_ok[OF I b sp]) simp_all
  have "counters_ok t" by (rule counters_ifree[OF _ b t(3,4,7)]) (use i in \<open>simp add: inode_inv_def\<close>)
  then show "\<exists>t. ifree ROOTDEV b s = Ok t \<and> used_inodes t = used_inodes s - {unat b} \<and> inode_inv k t \<and>
      unat (sb_ninodes (sb t)) = unat (sb_ninodes (sb s))" using t by (simp add: inode_inv_def)
qed (use in_use_finite(2) in blast)

section \<open>An example\<close>

text \<open>A disk as \<open>mkfs\<close> lays it out, with the first 1600 blocks and the first two inodes in use.\<close>

definition some_disk :: "u32 \<Rightarrow> bytes" where
  "some_disk b = (if b = 1 then put_superblock (\<lambda>_. 0) some_sb
     else if b = 1550 then (\<lambda>j. if j < 200 then 255 else 0)
     else if b = 47 then (\<lambda>j. if j = 0 then 3 else 0) else (\<lambda>_. 0))"

definition zero_inode :: inode where
  "zero_inode = \<lparr>i_dev = 0, i_inum = 0, i_ref = 0, i_lock = initsleeplock, i_valid = False, i_type = 0,
     i_major = 0, i_minor = 0, i_nlink = 0, i_size = 0, i_rwmode = 0, i_supermode = 0, i_addrs = (\<lambda>_. 0),
     i_showmode = 0\<rparr>"

definition some_fs :: "'a \<Rightarrow> 'a fs_st_scheme" where
  "some_fs m = binit (power_on some_disk \<lparr>sb = some_sb, itable = (\<lambda>_. zero_inode), \<dots> = m\<rparr>)"

lemma log_area_2: "b \<in> log_area 2 \<longleftrightarrow> 2 \<le> unat b \<and> unat b \<le> 46"
proof -
  have s: "log_slot 2 i = of_nat (i + 3)" for i by (simp add: log_slot_def algebra_simps)
  have u: "unat (of_nat (i + 3) :: u32) = i + 3" if "i < 44" for i using that by (simp only: unat_of_nat) simp
  have "b \<in> log_slot 2 ` {..<44} \<longleftrightarrow> 3 \<le> unat b \<and> unat b \<le> 46"
  proof
    assume "b \<in> log_slot 2 ` {..<44}"
    then show "3 \<le> unat b \<and> unat b \<le> 46" using s u by auto
  next
    assume b: "3 \<le> unat b \<and> unat b \<le> 46"
    then have "b = of_nat ((unat b - 3) + 3)" by simp
    then have "b = log_slot 2 (unat b - 3)" using s by metis
    moreover have "unat b - 3 \<in> {..<44}" using b by auto
    ultimately show "b \<in> log_slot 2 ` {..<44}" by blast
  qed
  moreover have "b = 2 \<longleftrightarrow> unat b = 2" by (simp add: word_unat_eq_iff)
  ultimately show ?thesis by (auto simp: log_area_def LOGSLOTS_def params)
qed

lemma some_blocks:
  "n < 300000 \<Longrightarrow> unat (BBLOCK (of_nat n) some_sb) = n div 8192 + 1550"
  "n < 12000 \<Longrightarrow> unat (IBBLOCK (of_nat n) some_sb) = n div 8192 + 47"
  "n < 12000 \<Longrightarrow> unat (IBLOCK (of_nat n) some_sb) = n div 8 + 49"
  by (simp_all add: BBLOCK_def IBBLOCK_def IBLOCK_def some_sb_def BPB_def IPB_def BSIZE_def DINODE_SIZE_def
      unat_word_ariths unat_div unat_of_nat)

lemma some_sb_fields [simp]:
  "unat (sb_size some_sb) = 300000" "unat (sb_ninodes some_sb) = 12000" "sb_logstart some_sb = 2"
  "sb_magic some_sb = FSMAGIC" "unat (sb_freeblocks some_sb) = 298400" "unat (sb_freeinodes some_sb) = 11998"
  by (simp_all add: some_sb_def)

lemma some_layout: "layout_ok some_sb"
proof -
  have d: "n div 8192 \<le> 36" if "n < 300000" for n :: nat using that by linarith
  have e: "n div 8192 \<le> 1" "n div 8 \<le> 1499" if "n < 12000" for n :: nat using that by linarith+
  show ?thesis
    unfolding layout_ok_def log_area_2 some_sb_fields word_unat_eq_iff
    using d e by (auto simp: some_blocks)
qed

lemma some_fs_sb: "sb (some_fs m) = some_sb" "lg (some_fs m) = some_log" "lview (some_fs m) = some_disk"
    "disk (some_fs m) = some_disk" "log_ok {} (some_fs m)" "space 44 (some_fs m)"
    "itable (some_fs m) = (\<lambda>_. zero_inode)" "fs_st.more (some_fs m) = m" "curproc (some_fs m) = 0"
    "procs (some_fs m) = (\<lambda>_. zero_proc)"
proof -
  let ?p = "power_on some_disk \<lparr>sb = some_sb, itable = (\<lambda>_. zero_inode), \<dots> = m\<rparr>"
  have h: "hdr_n 2 some_disk = 0" by (simp add: hdr_n_def some_disk_def get32_def getLE_num)
  note p = power_on_ok[OF h, of "\<lparr>sb = some_sb, itable = (\<lambda>_. zero_inode), \<dots> = m\<rparr>", folded some_fs_def]
  show "lg (some_fs m) = some_log" "lview (some_fs m) = some_disk" "disk (some_fs m) = some_disk"
    "log_ok {} (some_fs m)" "space 44 (some_fs m)" by (rule p)+
  have f: "\<forall>j. fresh (bufs ?p j)" by simp
  have e: "some_fs m = ?p\<lparr>bufs := bufs (some_fs m)\<rparr>"
    unfolding some_fs_def by (rule conjunct2[OF conjunct2[OF binit_ok[OF f]]])
  show "sb (some_fs m) = some_sb" "itable (some_fs m) = (\<lambda>_. zero_inode)" "fs_st.more (some_fs m) = m"
    "curproc (some_fs m) = 0" "procs (some_fs m) = (\<lambda>_. zero_proc)" by (subst e, simp add: power_on_def)+
qed

lemma some_fs_eq: "\<exists>bs. some_fs m = (power_on some_disk \<lparr>sb = some_sb, itable = (\<lambda>_. zero_inode), \<dots> = m\<rparr>)\<lparr>bufs := bs\<rparr>"
proof -
  let ?p = "power_on some_disk \<lparr>sb = some_sb, itable = (\<lambda>_. zero_inode), \<dots> = m\<rparr>"
  have "\<forall>j. fresh (bufs ?p j)" by simp
  then show ?thesis using binit_ok[of ?p] unfolding some_fs_def by blast
qed

lemma some_fs_ok: "fs_ok {} (some_fs m)"
  by (simp add: fs_ok_def some_fs_sb some_layout) (simp add: some_log_def)

lemma bit_255: "k < 8 \<Longrightarrow> bit (255 :: byte) k"
  by (auto simp: less_Suc_eq numeral_eq_Suc bit_Suc)

lemma bit_3: "bit (3 :: byte) k \<longleftrightarrow> k < 2"
  by (auto simp: bit_numeral_rec numeral_3_eq_3 numeral_2_eq_2 less_Suc_eq split: nat.split)

lemma some_used: "used_blocks (some_fs m) = {..<1600}" "used_inodes (some_fs m) = {..<2}"
proof -
  have b: "\<not> bit_clear (some_disk (BBLOCK (of_nat n) some_sb)) (n mod BPB) \<longleftrightarrow> n < 1600" if n: "n < 300000" for n
  proof (cases "n < 8192")
    case True
    then have "BBLOCK (of_nat n) some_sb = 1550" using some_blocks(1)[OF n] by (simp add: word_unat_eq_iff)
    moreover have "n div 8 < 200 \<longleftrightarrow> n < 1600" by linarith
    moreover have "bit (255 :: byte) (n mod 8)" by (rule bit_255) simp
    ultimately show ?thesis using True
      by (simp add: some_disk_def bit_clear_iff BPB_def BSIZE_def)
  next
    case False
    then have "unat (BBLOCK (of_nat n) some_sb) > 1550" using some_blocks(1)[OF n] by auto
    then have "BBLOCK (of_nat n) some_sb \<noteq> 1" "BBLOCK (of_nat n) some_sb \<noteq> 47" "BBLOCK (of_nat n) some_sb \<noteq> 1550"
      by auto
    then show ?thesis using False by (simp add: some_disk_def bit_clear_iff)
  qed
  have "n \<in> used_blocks (some_fs m) \<longleftrightarrow> n \<in> {..<1600}" for n using b[of n] by (auto simp: in_use_def some_fs_sb)
  then show "used_blocks (some_fs m) = {..<1600}" by blast
  have i: "\<not> bit_clear (some_disk (IBBLOCK (of_nat n) some_sb)) (n mod BPB) \<longleftrightarrow> n < 2" if n: "n < 12000" for n
  proof (cases "n < 8192")
    case True
    then have "IBBLOCK (of_nat n) some_sb = 47" using some_blocks(2)[OF n] by (simp add: word_unat_eq_iff)
    then show ?thesis using True bit_3[of n] by (auto simp: some_disk_def bit_clear_iff BPB_def BSIZE_def)
  next
    case False
    then have "unat (IBBLOCK (of_nat n) some_sb) = 48" using some_blocks(2)[OF n] n by simp
    then have "IBBLOCK (of_nat n) some_sb = 48" by (simp add: word_unat_eq_iff)
    then show ?thesis using False by (simp add: some_disk_def bit_clear_iff)
  qed
  have "n \<in> used_inodes (some_fs m) \<longleftrightarrow> n \<in> {..<2}" for n using i[of n] by (auto simp: in_use_def some_fs_sb)
  then show "used_inodes (some_fs m) = {..<2}" by blast
qed

lemma some_meta: "is_meta some_sb b \<Longrightarrow> unat b < 1600"
  using some_blocks by (auto simp: is_meta_def log_area_2)

lemma some_fs_inv: "meta_used (some_fs m)" "counters_ok (some_fs m)" "block_inv 14 (some_fs m)" "inode_inv 22 (some_fs m)"
proof -
  have "n < 1600" if "n < 300000" "is_meta some_sb (of_nat n)" for n
    using some_meta[OF that(2)] that(1) by (simp add: unat_of_nat)
  then show mu: "meta_used (some_fs m)" by (simp add: meta_used_def some_used some_fs_sb)
  show c: "counters_ok (some_fs m)" by (simp add: counters_ok_def some_used some_fs_sb) (simp add: some_sb_def)
  have "space 42 (some_fs m)" by (rule space_mono[OF some_fs_sb(6)]) simp
  then show "block_inv 14 (some_fs m)" "inode_inv 22 (some_fs m)"
    using mu c some_fs_ok[of m] some_fs_sb(6)[of m] by (simp_all add: block_inv_def inode_inv_def)
qed

section \<open>Properties\<close>

text \<open>
  (C6) \<open>balloc\<close> returns the least free block, marks it as used and zeroes it; every other data
  block and the bitmap of the inodes are as before.
\<close>

theorem balloc_spec:
  assumes "fs_ok {} s" "meta_used s" "n0 < unat (sb_size (sb s))" "n0 \<notin> used_blocks s" "space 3 s"
  shows "\<exists>n t. balloc ROOTDEV s = Ok (of_nat n, t) \<and> n \<notin> used_blocks s \<and> (\<forall>m<n. m \<in> used_blocks s) \<and>
    used_blocks t = insert n (used_blocks s) \<and> used_inodes t = used_inodes s \<and>
    \<not> is_meta (sb s) (of_nat n) \<and> (\<forall>j<BSIZE. lview t (of_nat n) j = 0) \<and>
    (\<forall>b. \<not> is_meta (sb s) b \<and> b \<noteq> of_nat n \<longrightarrow> lview t b = lview s b)"
proof -
  have sp: "space (0 + 3) s" using assms(5) by simp
  have h: "\<forall>b\<in>{}. unat (b :: u32) \<in> used_blocks s" by simp
  obtain n t d d' where
    t: "balloc ROOTDEV s = Ok (of_nat n, t)" "n < unat (sb_size (sb s))" "n \<notin> used_blocks s"
    "\<forall>m<n. m \<in> used_blocks s" "fs_ok {} t" "used_blocks t = insert n (used_blocks s)"
    "used_inodes t = used_inodes s" "meta_used t"
    "lview t = (lview s)(BBLOCK (of_nat n) (sb s) := d, 1 := d', of_nat n := memset (lview s (of_nat n)) 0 0 BSIZE)"
    "sb t = sb_freeblocks_update (\<lambda>c. c - 1) (sb s)" "space 0 t" "fs_touched s t"
    "\<forall>c\<in>{}. slot (bufs t) c = slot (bufs s) c" "\<not> is_meta (sb s) (of_nat n)"
    by (rule balloc_ok[OF assms(1,2) h assms(3,4) sp]) simp
  note M = blocks_meta[OF fs_okD(2)[OF assms(1)]]
  have "lview t b = lview s b" if "\<not> is_meta (sb s) b" "b \<noteq> of_nat n" for b
    using that M(1)[OF t(2)] M(4) by (auto simp: t(9))
  moreover have "lview t (of_nat n) j = 0" if "j < BSIZE" for j using that by (simp add: t(9) memset_def memset_loop_eq)
  ultimately show ?thesis using t(1,3,4,6,7,14) by blast
qed

theorem balloc_spec_witness:
  "\<exists>n t. balloc ROOTDEV (some_fs ()) = Ok (of_nat n, t) \<and> n \<notin> {..<1600} \<and> used_blocks t = insert n {..<1600} \<and>
     (\<forall>j<BSIZE. lview t (of_nat n) j = 0)"
proof -
  have "space 3 (some_fs ())" by (rule space_mono[OF some_fs_sb(6)]) simp
  from balloc_spec[OF some_fs_ok some_fs_inv(1) _ _ this, of 1600] show ?thesis
    by (simp add: some_used some_fs_sb) blast
qed

text \<open>
  (C7) The free counters of the superblock in memory stay exact: whenever one of \<open>balloc\<close>, \<open>bfree\<close>,
  \<open>searchibmap\<close> and \<open>ifree\<close> returns, they equal the number of clear bits of their bitmaps.
\<close>

theorem counters_exact:
  assumes i: "fs_ok {} s" "meta_used s" "counters_ok s" "space 3 s"
  shows "(balloc ROOTDEV s = Ok (b, t1) \<longrightarrow> counters_ok t1) \<and>
    (bfree ROOTDEV c s = Ok t2 \<and> unat c < unat (sb_size (sb s)) \<and> \<not> is_meta (sb s) c \<longrightarrow> counters_ok t2) \<and>
    (searchibmap ROOTDEV s = Ok (d, t3) \<longrightarrow> counters_ok t3) \<and>
    (ifree ROOTDEV e s = Ok t4 \<and> unat e < unat (sb_ninodes (sb s)) \<longrightarrow> counters_ok t4)"
proof (intro conjI impI; (elim conjE)?)
  have B: "block_inv (Suc 0) s" and I: "inode_inv (Suc 0) s" and sp: "space 0 s"
    using i space_mono[OF i(4)] by (auto simp: block_inv_def inode_inv_def)
  show "counters_ok t1" if t: "balloc ROOTDEV s = Ok (b, t1)"
  proof -
    obtain n where "n < unat (sb_size (sb s))" "n \<notin> used_blocks s"
      using t balloc_full[OF i(1) _ sp] by fastforce
    from ba.alloc_law[OF B this] t show ?thesis by (auto simp: block_inv_def)
  qed
  show "counters_ok t2" if t: "bfree ROOTDEV c s = Ok t2" "unat c < unat (sb_size (sb s))" "\<not> is_meta (sb s) c"
  proof -
    have "unat c \<in> used_blocks s" using t bfree_free[OF i(1) t(2) _ sp] by fastforce
    from ba.release_law[OF B this t(3)] t(1) show ?thesis by (auto simp: block_inv_def)
  qed
  show "counters_ok t3" if t: "searchibmap ROOTDEV s = Ok (d, t3)"
  proof -
    obtain n where "n < unat (sb_ninodes (sb s))" "n \<notin> used_inodes s"
      using t im.take_free_none[OF i(1) _ sp] by (fastforce simp: searchibmap_def)
    from ia.alloc_law[OF I this] t show ?thesis by (auto simp: inode_inv_def)
  qed
  show "counters_ok t4" if t: "ifree ROOTDEV e s = Ok t4" "unat e < unat (sb_ninodes (sb s))"
  proof -
    have "unat e \<in> used_inodes s"
      using t im.give_back_free[OF i(1) t(2) _ sp] by (fastforce simp: ifree_def)
    from ia.release_law[OF I this] t(1) show ?thesis by (auto simp: inode_inv_def)
  qed
qed

theorem counters_exact_witness:
  "\<exists>b t. balloc ROOTDEV (some_fs ()) = Ok (b, t) \<and> counters_ok t"
proof -
  have "space 3 (some_fs ())" by (rule space_mono[OF some_fs_sb(6)]) simp
  note c = counters_exact[OF some_fs_ok some_fs_inv(1,2) this]
  have "block_inv (Suc 13) (some_fs ())" using some_fs_inv(3) by simp
  from ba.alloc_law[OF this, of 1600] obtain b t where "balloc ROOTDEV (some_fs ()) = Ok (b, t)"
    by (auto simp: some_used some_fs_sb)
  then show ?thesis using c by blast
qed

text \<open>
  (C8) Blocks that are allocated one after the other are distinct, and none of them was in
  use before.
\<close>

theorem balloc_distinct:
  assumes "fs_ok {} s" "meta_used s" "counters_ok s" "space (3 * k) s" "k + card (used_blocks s) \<le> unat (sb_size (sb s))"
  shows "\<exists>bs t. alloc_many (balloc ROOTDEV) k s = Ok (bs, t) \<and> length bs = k \<and> distinct bs \<and>
    unat ` set bs \<inter> used_blocks s = {} \<and> used_blocks t = used_blocks s \<union> unat ` set bs"
  by (rule ba.alloc_many_distinct) (use assms in \<open>simp_all add: block_inv_def\<close>)

theorem balloc_distinct_witness:
  "\<exists>bs t. alloc_many (balloc ROOTDEV) 14 (some_fs ()) = Ok (bs, t) \<and> length bs = 14 \<and> distinct bs"
proof -
  have "space (3 * 14) (some_fs ())" by (rule space_mono[OF some_fs_sb(6)]) simp
  from balloc_distinct[OF some_fs_ok some_fs_inv(1,2) this] show ?thesis
    by (auto simp: some_used some_fs_sb)
qed

text \<open>
  (C9) Freeing undoes allocation: the block that \<open>balloc\<close> returned can be freed, the set of
  used blocks is then what it was, and freeing the block once more panics.
\<close>

theorem balloc_bfree:
  assumes i: "fs_ok {} s" "meta_used s" "counters_ok s" "space 6 s" and n: "n < unat (sb_size (sb s))" "n \<notin> used_blocks s"
  shows "\<exists>b t u. balloc ROOTDEV s = Ok (b, t) \<and> bfree ROOTDEV b t = Ok u \<and> used_blocks u = used_blocks s \<and>
    bfree ROOTDEV b u = Panic ''freeing free block''"
proof -
  have B: "block_inv (Suc (Suc 0)) s" using i by (simp add: block_inv_def)
  obtain b t where 1: "balloc ROOTDEV s = Ok (b, t)" "unat b < unat (sb_size (sb s))" "unat b \<notin> used_blocks s"
    "used_blocks t = insert (unat b) (used_blocks s)" "block_inv (Suc 0) t"
    "unat (sb_size (sb t)) = unat (sb_size (sb s))" "\<not> is_meta (sb t) b" using ba.alloc_law[OF B n] by blast
  obtain u where 2: "bfree ROOTDEV b t = Ok u" "used_blocks u = used_blocks t - {unat b}" "block_inv 0 u"
    "unat (sb_size (sb u)) = unat (sb_size (sb t))" using ba.release_law[OF 1(5) _ 1(7)] 1(4) by blast
  have "bfree ROOTDEV b u = Panic ''freeing free block''"
    by (rule bfree_free[of "{}" u b 0]) (use 1 2 in \<open>auto simp: block_inv_def\<close>)
  then show ?thesis using 1(1,3,4) 2(1,2) by auto
qed

theorem balloc_bfree_witness:
  "\<exists>b t u. balloc ROOTDEV (some_fs ()) = Ok (b, t) \<and> bfree ROOTDEV b t = Ok u \<and> used_blocks u = {..<1600} \<and>
     bfree ROOTDEV b u = Panic ''freeing free block''"
proof -
  have "space 6 (some_fs ())" by (rule space_mono[OF some_fs_sb(6)]) simp
  from balloc_bfree[OF some_fs_ok some_fs_inv(1,2) this, of 1600] show ?thesis
    by (simp add: some_used some_fs_sb)
qed

end
