(* ===== verification/Inode.thy ===== *)
theory Inode
  imports Alloc
begin

text \<open>
  Inodes of \<open>kernel/fs.c\<close>: the table of in-memory inodes (\<open>iinit\<close>, \<open>iget\<close>, \<open>idup\<close>, \<open>ialloc\<close>,
  \<open>iupdate\<close>, \<open>ilock\<close>, \<open>iunlock\<close>, \<open>iput\<close>), the map from the blocks of a file to the blocks of the
  disk (\<open>bmap\<close>, \<open>itrunc\<close>) and the content of a file (\<open>readi\<close>, \<open>writei\<close>, \<open>stati\<close>), with
  \<open>either_copyout\<close> and \<open>either_copyin\<close> of \<open>kernel/proc.c\<close>.

  \<^item> A pointer to an inode is its index in the table; the two functions that test it for null
    (\<open>ilock\<close>, \<open>iunlock\<close>) take an option.
  \<^item> An index beyond \<open>addrs[NDIRECT+2]\<close> is outside the array (\<open>Undef\<close>).
  \<^item> The destination of \<open>readi\<close> and the source of \<open>writei\<close> are a \<open>loc\<close>: a user address, an
    address of physical memory, or a position in an object of the caller (a local variable),
    whose bytes are passed along.  The flag \<open>user_dst\<close> of the code is the choice among them.
\<close>

section \<open>The inode table\<close>

definition set_inode :: "nat \<Rightarrow> (inode \<Rightarrow> inode) \<Rightarrow> 'a fs_st_scheme \<Rightarrow> 'a fs_st_scheme" where
  "set_inode i f s = s\<lparr>itable := (itable s)(i := f (itable s i))\<rparr>"

definition iinit :: "'a fs_st_scheme \<Rightarrow> 'a fs_st_scheme" where
  "iinit s = fold (\<lambda>i. set_inode i (\<lambda>x. x\<lparr>i_lock := initsleeplock\<rparr>)) [0..<NINODE] s"

text \<open>The loop of \<open>iget\<close>: the entry of the inode (\<open>Inl\<close>), or the first empty entry (\<open>Inr\<close>).\<close>

fun iget_scan :: "u32 \<Rightarrow> u32 \<Rightarrow> (nat \<Rightarrow> inode) \<Rightarrow> nat list \<Rightarrow> nat option \<Rightarrow> nat + nat option" where
  "iget_scan dev inum t [] empt = Inr empt"
| "iget_scan dev inum t (ip # ips) empt =
     (if i_ref (t ip) > 0 \<and> i_dev (t ip) = dev \<and> i_inum (t ip) = inum then Inl ip
      else iget_scan dev inum t ips (if empt = None \<and> i_ref (t ip) = 0 then Some ip else empt))"

definition iget :: "u32 \<Rightarrow> u32 \<Rightarrow> 'a fs_st_scheme \<Rightarrow> (nat \<times> 'a fs_st_scheme) res" where
  "iget dev inum s =
     (case iget_scan dev inum (itable s) [0..<NINODE] None of
        Inl ip \<Rightarrow> Ok (ip, set_inode ip (\<lambda>x. x\<lparr>i_ref := i_ref x + 1\<rparr>) s)
      | Inr None \<Rightarrow> Panic ''iget: no inodes''
      | Inr (Some ip) \<Rightarrow>
          Ok (ip, set_inode ip (\<lambda>x. x\<lparr>i_dev := dev, i_inum := inum, i_ref := 1, i_valid := False\<rparr>) s))"

definition idup :: "nat \<Rightarrow> 'a fs_st_scheme \<Rightarrow> nat \<times> 'a fs_st_scheme" where
  "idup ip s = (ip, set_inode ip (\<lambda>x. x\<lparr>i_ref := i_ref x + 1\<rparr>) s)"

text \<open>The position of an inode in its block.\<close>

definition dip_off :: "u32 \<Rightarrow> nat" where
  "dip_off inum = unat inum mod IPB * DINODE_SIZE"

definition ialloc :: "u32 \<Rightarrow> u16 \<Rightarrow> 'a fs_st_scheme \<Rightarrow> (nat \<times> 'a fs_st_scheme) res" where
  "ialloc dev ty s =
     rbind (searchibmap dev s) (\<lambda>(inum, s).
     rbind (bupdate dev (IBLOCK inum (sb s)) (\<lambda>d.
              let d = memset d (dip_off inum) 0 DINODE_SIZE in
              put_dinode d (dip_off inum)
                ((get_dinode d (dip_off inum))\<lparr>d_type := ty, d_rwmode := RW, d_supermode := 0, d_showmode := 1\<rparr>)) s)
     (iget dev inum))"

definition to_dinode :: "inode \<Rightarrow> dinode" where
  "to_dinode ip =
     \<lparr>d_type = i_type ip, d_major = i_major ip, d_minor = i_minor ip, d_nlink = i_nlink ip,
      d_size = i_size ip, d_rwmode = i_rwmode ip, d_supermode = i_supermode ip,
      d_addrs = i_addrs ip, d_showmode = i_showmode ip\<rparr>"

definition of_dinode :: "dinode \<Rightarrow> inode \<Rightarrow> inode" where
  "of_dinode d ip =
     ip\<lparr>i_type := d_type d, i_major := d_major d, i_minor := d_minor d, i_nlink := d_nlink d,
        i_size := d_size d, i_rwmode := d_rwmode d, i_supermode := d_supermode d,
        i_addrs := d_addrs d, i_showmode := d_showmode d\<rparr>"

definition iupdate :: "nat \<Rightarrow> 'a fs_st_scheme \<Rightarrow> 'a fs_st_scheme res" where
  "iupdate i s =
     (let ip = itable s i in
      bupdate (i_dev ip) (IBLOCK (i_inum ip) (sb s))
        (\<lambda>d. put_dinode d (dip_off (i_inum ip)) (to_dinode ip)) s)"

definition lock_inode :: "nat \<Rightarrow> 'a fs_st_scheme \<Rightarrow> 'a fs_st_scheme res" where
  "lock_inode i s =
     rbind (acquiresleep (i_lock (itable s i)) s) (\<lambda>lk. Ok (set_inode i (\<lambda>x. x\<lparr>i_lock := lk\<rparr>) s))"

definition load_inode :: "nat \<Rightarrow> 'a fs_st_scheme \<Rightarrow> 'a fs_st_scheme res" where
  "load_inode i s =
     (let ip = itable s i in
      rbind (bpeek (i_dev ip) (IBLOCK (i_inum ip) (sb s)) (\<lambda>d. get_dinode d (dip_off (i_inum ip))) s) (\<lambda>(d, s).
      let s = set_inode i (\<lambda>x. (of_dinode d x)\<lparr>i_valid := True\<rparr>) s in
      if i_type (itable s i) = 0 then Panic ''ilock: no type'' else Ok s))"

fun ilock :: "nat option \<Rightarrow> 'a fs_st_scheme \<Rightarrow> 'a fs_st_scheme res" where
  "ilock None s = Panic ''ilock''"
| "ilock (Some i) s =
     (if i_ref (itable s i) < 1 then Panic ''ilock''
      else rbind (lock_inode i s) (\<lambda>s.
           if \<not> i_valid (itable s i) then load_inode i s else Ok s))"

fun iunlock :: "nat option \<Rightarrow> 'a fs_st_scheme \<Rightarrow> 'a fs_st_scheme res" where
  "iunlock None s = Panic ''iunlock''"
| "iunlock (Some i) s =
     (if \<not> holdingsleep (i_lock (itable s i)) s \<or> i_ref (itable s i) < 1 then Panic ''iunlock''
      else Ok (set_inode i (\<lambda>x. x\<lparr>i_lock := releasesleep (i_lock x)\<rparr>) s))"

section \<open>The blocks of a file\<close>

definition set_addr :: "nat \<Rightarrow> nat \<Rightarrow> u32 \<Rightarrow> 'a fs_st_scheme \<Rightarrow> 'a fs_st_scheme" where
  "set_addr i k v s = set_inode i (\<lambda>x. x\<lparr>i_addrs := (i_addrs x)(k := v)\<rparr>) s"

text \<open>
  \<open>if((addr = ip->addrs[k]) == 0) ip->addrs[k] = addr = balloc(ip->dev)\<close>, and the same for
  entry \<open>k\<close> of the pointer block \<open>b\<close>.
\<close>

definition addr_entry :: "nat \<Rightarrow> nat \<Rightarrow> 'a fs_st_scheme \<Rightarrow> (u32 \<times> 'a fs_st_scheme) res" where
  "addr_entry i k s =
     (let addr = i_addrs (itable s i) k in
      if addr = 0 then rbind (balloc (i_dev (itable s i)) s) (\<lambda>(addr, s). Ok (addr, set_addr i k addr s))
      else Ok (addr, s))"

definition block_entry :: "u32 \<Rightarrow> u32 \<Rightarrow> nat \<Rightarrow> 'a fs_st_scheme \<Rightarrow> (u32 \<times> 'a fs_st_scheme) res" where
  "block_entry dev b k s =
     rbind (bread dev b s) (\<lambda>(bp, s).
     let addr = get32 (bdata bp s) (4 * k) in
     rbind
       (if addr = 0 then
          rbind (balloc dev s) (\<lambda>(addr, s).
          rbind (log_write bp (set_bdata bp (put32 (bdata bp s) (4 * k) addr) s)) (\<lambda>s. Ok (addr, s)))
        else Ok (addr, s)) (\<lambda>(addr, s).
     rbind (brelse bp s) (\<lambda>s. Ok (addr, s))))"

text \<open>
  The loop over the extents of a file: the block (\<open>Inl\<close>), or the index of the first entry
  that is 0 (\<open>Inr\<close>).  An entry packs the start of the extent and, in its low byte, its length.
\<close>

definition extent_len :: "u32 \<Rightarrow> u32" where "extent_len x = x AND 0xFF"
definition extent_start :: "u32 \<Rightarrow> u32" where "extent_start x = (x AND NOT 0xFF) div 256"

function extent_scan :: "(nat \<Rightarrow> u32) \<Rightarrow> u32 \<Rightarrow> nat \<Rightarrow> (u32 + nat) res" where
  "extent_scan a bn i =
     (if i \<ge> NDIRECT + 3 then Undef
      else if a i = 0 then Ok (Inr i)
      else if Suc i \<ge> NDIRECT + 3 then Undef
      else if bn \<ge> a (Suc i) \<and> bn < a (Suc i) + extent_len (a i)
           then Ok (Inl (extent_start (a i) + bn - a (Suc i)))
      else extent_scan a bn (Suc i))"
  by pat_completeness auto
termination by (relation "measure (\<lambda>(a, bn, i). NDIRECT + 3 - i)") auto

definition bmap_extent :: "nat \<Rightarrow> u32 \<Rightarrow> 'a fs_st_scheme \<Rightarrow> (u32 \<times> 'a fs_st_scheme) res" where
  "bmap_extent ip bn s =
     rbind (extent_scan (i_addrs (itable s ip)) bn 0) (\<lambda>r.
     case r of
       Inl addr \<Rightarrow> Ok (addr, s)
     | Inr i \<Rightarrow>
         rbind (balloc (i_dev (itable s ip)) s) (\<lambda>(addr, s).
         let prev = i_addrs (itable s ip) (i - 1);
             len = extent_len prev; p = extent_start prev in
         if i > 0 \<and> addr = p + len then Ok (addr, set_addr ip (i - 1) (p * 256 OR (len + 1)) s)
         else if Suc i \<ge> NDIRECT + 3 then Undef
         else Ok (addr, set_addr ip (Suc i) bn (set_addr ip i (addr * 256 OR 1) s))))"

definition bmap_tree :: "nat \<Rightarrow> u32 \<Rightarrow> 'a fs_st_scheme \<Rightarrow> (u32 \<times> 'a fs_st_scheme) res" where
  "bmap_tree ip b s =
     (let dev = i_dev (itable s ip); bn = unat b in
      if bn < NDIRECT then addr_entry ip bn s
      else let bn = bn - NDIRECT in
      if bn < NINDIRECT then
        rbind (addr_entry ip NDIRECT s) (\<lambda>(addr, s). block_entry dev addr bn s)
      else let bn = bn - NINDIRECT in
      if bn < NINDIRECT * NINDIRECT then
        rbind (addr_entry ip (NDIRECT + 1) s) (\<lambda>(addr, s).
        rbind (block_entry dev addr (bn div NINDIRECT) s) (\<lambda>(addr, s).
        block_entry dev addr (bn mod NINDIRECT) s))
      else let bn = bn - NINDIRECT * NINDIRECT in
      if bn < NINDIRECT * NINDIRECT * NINDIRECT then
        rbind (addr_entry ip (NDIRECT + 2) s) (\<lambda>(addr, s).
        rbind (block_entry dev addr (bn div (NINDIRECT * NINDIRECT)) s) (\<lambda>(addr, s).
        rbind (block_entry dev addr (bn mod (NINDIRECT * NINDIRECT) div NINDIRECT) s) (\<lambda>(addr, s).
        block_entry dev addr (bn mod (NINDIRECT * NINDIRECT) mod NINDIRECT) s)))
      else Panic ''bmap: out of range'')"

definition bmap :: "nat \<Rightarrow> u32 \<Rightarrow> 'a fs_st_scheme \<Rightarrow> (u32 \<times> 'a fs_st_scheme) res" where
  "bmap ip bn s =
     (if i_type (itable s ip) = T_EXTENT then bmap_extent ip bn s else bmap_tree ip bn s)"

section \<open>Truncation\<close>

text \<open>
  The loop over the entries of a pointer block: every block it points to is freed, after the
  blocks below it when it is a pointer block itself (\<open>l\<close> is the number of levels below).
\<close>

fun free_below :: "nat \<Rightarrow> u32 \<Rightarrow> u32 \<Rightarrow> 'a fs_st_scheme \<Rightarrow> 'a fs_st_scheme res" where
  "free_below l dev b s =
     rbind (bread dev b s) (\<lambda>(bp, s).
     rbind (foldR (\<lambda>j s.
              let x = get32 (bdata bp s) (4 * j) in
              if x = 0 then Ok s
              else case l of 0 \<Rightarrow> bfree dev x s | Suc l' \<Rightarrow> rbind (free_below l' dev x s) (bfree dev x))
            [0..<NINDIRECT] s)
       (brelse bp))"

text \<open>One round of the extent branch; the second index runs over the blocks of the file.\<close>

function free_extents :: "nat \<Rightarrow> nat \<Rightarrow> 'a fs_st_scheme \<Rightarrow> 'a fs_st_scheme res" where
  "free_extents ip i s =
     (let a = i_addrs (itable s ip); dev = i_dev (itable s ip) in
      if i \<ge> NDIRECT + 3 then Undef
      else if a i = 0 then Ok s
      else if Suc i \<ge> NDIRECT + 3 then Undef
      else
        rbind (foldR (\<lambda>bn. bfree dev (extent_start (a i) + of_nat bn - a (Suc i)))
                 [unat (a (Suc i))..<unat (a (Suc i) + a i mod 256)] s) (\<lambda>s.
        let s = set_addr ip i 0 s in
        if Suc i > NDIRECT + 2 then Ok s else free_extents ip (Suc i) s))"
  by pat_completeness auto
termination by (relation "measure (\<lambda>(ip, i, s). NDIRECT + 3 - i)") auto

definition free_direct :: "nat \<Rightarrow> nat \<Rightarrow> 'a fs_st_scheme \<Rightarrow> 'a fs_st_scheme res" where
  "free_direct ip k s =
     (if i_addrs (itable s ip) k \<noteq> 0 then
        rbind (bfree (i_dev (itable s ip)) (i_addrs (itable s ip) k) s) (\<lambda>s. Ok (set_addr ip k 0 s))
      else Ok s)"

text \<open>
  The branch for a pointer block: the blocks below \<open>addrs[k]\<close>, then \<open>addrs[k']\<close> itself.  In
  the code \<open>k'\<close> is \<open>k\<close> for the single and the double indirect block, and \<open>NDIRECT + 1\<close> for the
  triple indirect block, whose index is \<open>NDIRECT + 2\<close>.
\<close>

definition free_indirect :: "nat \<Rightarrow> nat \<Rightarrow> nat \<Rightarrow> nat \<Rightarrow> 'a fs_st_scheme \<Rightarrow> 'a fs_st_scheme res" where
  "free_indirect ip l k k' s =
     (if i_addrs (itable s ip) k \<noteq> 0 then
        rbind (free_below l (i_dev (itable s ip)) (i_addrs (itable s ip) k) s) (\<lambda>s.
        rbind (bfree (i_dev (itable s ip)) (i_addrs (itable s ip) k') s) (\<lambda>s. Ok (set_addr ip k' 0 s)))
      else Ok s)"

definition itrunc :: "nat \<Rightarrow> 'a fs_st_scheme \<Rightarrow> 'a fs_st_scheme res" where
  "itrunc ip s =
     rbind
       (if i_type (itable s ip) = T_EXTENT then free_extents ip 0 s
        else
          rbind (foldR (free_direct ip) [0..<NDIRECT] s) (\<lambda>s.
          rbind (free_indirect ip 0 NDIRECT NDIRECT s) (\<lambda>s.
          rbind (free_indirect ip 1 (NDIRECT + 1) (NDIRECT + 1) s)
            (free_indirect ip 2 (NDIRECT + 2) (NDIRECT + 1))))) (\<lambda>s.
     iupdate ip (set_inode ip (\<lambda>x. x\<lparr>i_size := 0\<rparr>) s))"

definition iput :: "nat \<Rightarrow> 'a fs_st_scheme \<Rightarrow> 'a fs_st_scheme res" where
  "iput i s =
     (let ip = itable s i in
      rbind
        (if i_ref ip = 1 \<and> i_valid ip \<and> i_nlink ip = 0 then
           rbind (lock_inode i s) (\<lambda>s.
           rbind (itrunc i s) (\<lambda>s.
           rbind (ifree (i_dev (itable s i)) (i_inum (itable s i)) s) (\<lambda>s.
           let s = set_inode i (\<lambda>x. x\<lparr>i_valid := False\<rparr>) s in
           Ok (set_inode i (\<lambda>x. x\<lparr>i_lock := releasesleep (i_lock x)\<rparr>) s))))
         else Ok s) (\<lambda>s.
      Ok (set_inode i (\<lambda>x. x\<lparr>i_ref := i_ref x - 1\<rparr>) s)))"

definition iunlockput :: "nat \<Rightarrow> 'a fs_st_scheme \<Rightarrow> 'a fs_st_scheme res" where
  "iunlockput ip s = rbind (iunlock (Some ip) s) (iput ip)"

section \<open>The content of a file\<close>

record stat =
  st_dev :: u32
  st_ino :: u32
  st_type :: u16
  st_nlink :: u16
  st_size :: u64
  st_rwmode :: u32
  st_supermode :: u32
  st_showmode :: u32
  st_addrs :: "nat \<Rightarrow> u32"

definition stati :: "nat \<Rightarrow> 'a fs_st_scheme \<Rightarrow> stat" where
  "stati i s =
     (let ip = itable s i in
      \<lparr>st_dev = i_dev ip, st_ino = i_inum ip, st_type = i_type ip, st_nlink = i_nlink ip,
       st_size = ucast (i_size ip), st_rwmode = i_rwmode ip, st_supermode = i_supermode ip,
       st_showmode = i_showmode ip, st_addrs = (\<lambda>k. if k < 13 then i_addrs ip k else 0)\<rparr>)"

datatype loc = User u64 | Phys u64 | Obj nat

fun loc_plus :: "loc \<Rightarrow> nat \<Rightarrow> loc" where
  "loc_plus (User a) m = User (a + of_nat m)"
| "loc_plus (Phys a) m = Phys (a + of_nat m)"
| "loc_plus (Obj i) m = Obj (i + m)"

text \<open>The bytes \<open>xs\<close> are copied to the location; \<open>kb\<close> holds the bytes of the caller's object.\<close>

fun either_copyout :: "loc \<Rightarrow> byte list \<Rightarrow> bytes \<Rightarrow> 'a kmach_scheme \<Rightarrow> int \<times> bytes \<times> 'a kmach_scheme" where
  "either_copyout (User a) xs kb s = (let (r, s) = copyout (p_pagetable (myproc s)) a xs s in (r, kb, s))"
| "either_copyout (Phys a) xs kb s = (0, kb, copy_bytes (unat a) xs s)"
| "either_copyout (Obj i) xs kb s = (0, (\<lambda>j. if i \<le> j \<and> j < i + length xs then xs ! (j - i) else kb j), s)"

fun either_copyin :: "loc \<Rightarrow> nat \<Rightarrow> bytes \<Rightarrow> 'a kmach_scheme \<Rightarrow> int \<times> byte list" where
  "either_copyin (User a) n kb s = copyin (p_pagetable (myproc s)) a n s"
| "either_copyin (Phys a) n kb s = (0, read_bytes (unat a) n s)"
| "either_copyin (Obj i) n kb s = (0, map kb [i..<i + n])"

text \<open>The bytes \<open>xs\<close> stored in a block from position \<open>o'\<close> on.\<close>

definition put_bytes :: "bytes \<Rightarrow> nat \<Rightarrow> byte list \<Rightarrow> bytes" where
  "put_bytes d o' xs = (\<lambda>j. if o' \<le> j \<and> j < o' + length xs then xs ! (j - o') else d j)"

function readi_loop ::
  "nat \<Rightarrow> loc \<Rightarrow> bytes \<Rightarrow> nat \<Rightarrow> nat \<Rightarrow> nat \<Rightarrow> 'a fs_st_scheme \<Rightarrow> (int \<times> bytes \<times> 'a fs_st_scheme) res" where
  "readi_loop ip dst kb off n tot s =
     (if tot < n then
        rbind (bmap ip (of_nat (off div BSIZE)) s) (\<lambda>(addr, s).
        rbind (bread (i_dev (itable s ip)) addr s) (\<lambda>(bp, s).
        let m = min (n - tot) (BSIZE - off mod BSIZE);
            (r, kb, s) = either_copyout dst (map (bdata bp s) [off mod BSIZE..<off mod BSIZE + m]) kb s in
        rbind (brelse bp s) (\<lambda>s.
        if r = -1 then Ok (-1, kb, s)
        else readi_loop ip (loc_plus dst m) kb (off + m) n (tot + m) s)))
      else Ok (sint (of_nat tot :: u32), kb, s))"
  by pat_completeness auto
termination by (relation "measure (\<lambda>(ip, dst, kb, off, n, tot, s). n - tot)") (auto simp: BSIZE_def)

definition readi ::
  "nat \<Rightarrow> loc \<Rightarrow> bytes \<Rightarrow> u32 \<Rightarrow> u32 \<Rightarrow> 'a fs_st_scheme \<Rightarrow> (int \<times> bytes \<times> 'a fs_st_scheme) res" where
  "readi ip dst kb off n s =
     (let size = i_size (itable s ip) in
      if off > size \<or> off + n < off then Ok (0, kb, s)
      else let n = (if off + n > size then size - off else n) in
           readi_loop ip dst kb (unat off) (unat n) 0 s)"

text \<open>
  The loop of \<open>writei\<close> returns the offset and the number of bytes it got to.  Bytes that
  \<open>either_copyin\<close> delivered before it failed are in the buffer.
\<close>

function writei_loop ::
  "nat \<Rightarrow> loc \<Rightarrow> bytes \<Rightarrow> nat \<Rightarrow> nat \<Rightarrow> nat \<Rightarrow> 'a fs_st_scheme \<Rightarrow> (nat \<times> nat \<times> 'a fs_st_scheme) res" where
  "writei_loop ip src kb off n tot s =
     (if tot < n then
        rbind (bmap ip (of_nat (off div BSIZE)) s) (\<lambda>(addr, s).
        rbind (bread (i_dev (itable s ip)) addr s) (\<lambda>(bp, s).
        let m = min (n - tot) (BSIZE - off mod BSIZE);
            (r, xs) = either_copyin src m kb s;
            s = set_bdata bp (put_bytes (bdata bp s) (off mod BSIZE) xs) s in
        if r = -1 then rbind (brelse bp s) (\<lambda>s. Ok (off, tot, s))
        else rbind (log_write bp s) (\<lambda>s.
             rbind (brelse bp s)
               (writei_loop ip (loc_plus src m) kb (off + m) n (tot + m)))))
      else Ok (off, tot, s))"
  by pat_completeness auto
termination by (relation "measure (\<lambda>(ip, src, kb, off, n, tot, s). n - tot)") (auto simp: BSIZE_def)

definition writei ::
  "nat \<Rightarrow> loc \<Rightarrow> bytes \<Rightarrow> u32 \<Rightarrow> u32 \<Rightarrow> 'a fs_st_scheme \<Rightarrow> (int \<times> 'a fs_st_scheme) res" where
  "writei ip src kb off n s =
     (if off > i_size (itable s ip) \<or> off + n < off then Ok (-1, s)
      else if unat (off + n) > MAXFILE * BSIZE then Ok (-1, s)
      else
        rbind (writei_loop ip src kb (unat off) (unat n) 0 s) (\<lambda>(off, tot, s).
        let s = (if of_nat off > i_size (itable s ip) then set_inode ip (\<lambda>x. x\<lparr>i_size := of_nat off\<rparr>) s else s) in
        rbind (iupdate ip s) (\<lambda>s. Ok (sint (of_nat tot :: u32), s))))"

end
