(* ===== verification/Filemap.thy ===== *)
theory Filemap
  imports Inode
begin

text \<open>
  The map from the blocks of a file to the blocks of the disk, as \<open>bmap\<close> of \<open>kernel/fs.c\<close>
  maintains it: up to three levels of pointer blocks below the 15 entries of \<open>addrs\<close>.

  A position in this tree is the index of an entry of \<open>addrs\<close> and the indices into the pointer
  blocks below it; \<open>pos bn\<close> is the position of block \<open>bn\<close> of the file.  The invariant \<open>tree_ok\<close>
  says that the blocks at different positions are different data blocks that are marked as
  used.  The lemmas show that \<open>bmap\<close> returns the block at the position, allocating what is
  missing on the way, keeps the invariant, and changes neither the content of the file nor a
  block that does not belong to it.
\<close>

section \<open>Positions\<close>

fun child :: "(u32 \<Rightarrow> bytes) \<Rightarrow> u32 \<Rightarrow> nat list \<Rightarrow> u32" where
  "child v b [] = b"
| "child v b (k # ks) = child v (if b = 0 then 0 else get32 (v b) (4 * k)) ks"

type_synonym place = "nat \<times> nat list"

definition level :: "nat \<Rightarrow> nat" where
  "level r = r + 1 - NDIRECT"

definition valid :: "place \<Rightarrow> bool" where
  "valid p \<longleftrightarrow> fst p < NDIRECT + 3 \<and> length (snd p) \<le> level (fst p) \<and> (\<forall>k\<in>set (snd p). k < NINDIRECT)"

definition leaf :: "place \<Rightarrow> bool" where
  "leaf p \<longleftrightarrow> valid p \<and> length (snd p) = level (fst p)"

definition pos :: "nat \<Rightarrow> place" where
  "pos bn =
     (if bn < NDIRECT then (bn, [])
      else let bn = bn - NDIRECT in
      if bn < NINDIRECT then (NDIRECT, [bn])
      else let bn = bn - NINDIRECT in
      if bn < NINDIRECT * NINDIRECT then (NDIRECT + 1, [bn div NINDIRECT, bn mod NINDIRECT])
      else let bn = bn - NINDIRECT * NINDIRECT in
      (NDIRECT + 2, [bn div (NINDIRECT * NINDIRECT), bn mod (NINDIRECT * NINDIRECT) div NINDIRECT,
                     bn mod (NINDIRECT * NINDIRECT) mod NINDIRECT]))"

definition fmap :: "nat \<Rightarrow> 'a fs_st_scheme \<Rightarrow> place \<Rightarrow> u32" where
  "fmap i s p = child (lview s) (i_addrs (itable s i) (fst p)) (snd p)"

text \<open>The bytes of block \<open>bn\<close> of the file; a block that is not there reads as zeroes.\<close>

definition fblock :: "nat \<Rightarrow> 'a fs_st_scheme \<Rightarrow> nat \<Rightarrow> bytes" where
  "fblock i s bn = (let b = fmap i s (pos bn) in if b = 0 then (\<lambda>_. 0) else lview s b)"

definition tree_ok :: "nat \<Rightarrow> 'a fs_st_scheme \<Rightarrow> bool" where
  "tree_ok i s \<longleftrightarrow>
     (\<forall>p. valid p \<longrightarrow> fmap i s p \<noteq> 0 \<longrightarrow> unat (fmap i s p) \<in> used_blocks s \<and> \<not> is_meta (sb s) (fmap i s p)) \<and>
     (\<forall>p q. valid p \<longrightarrow> valid q \<longrightarrow> fmap i s p \<noteq> 0 \<longrightarrow> fmap i s p = fmap i s q \<longrightarrow> p = q)"

lemma child_append: "child v b (xs @ ys) = child v (child v b xs) ys"
  by (induction xs arbitrary: b) auto

lemma child_0 [simp]: "child v 0 ks = 0"
  by (induction ks) auto

lemma fmap_Nil [simp]: "fmap i s (r, []) = i_addrs (itable s i) r"
  by (simp add: fmap_def)

lemma fmap_snoc: "fmap i s (r, ks @ [k]) = (if fmap i s (r, ks) = 0 then 0 else get32 (lview s (fmap i s (r, ks))) (4 * k))"
  by (simp add: fmap_def child_append)

lemma valid_prefix: "valid (r, ks @ ls) \<Longrightarrow> valid (r, ks)"
  by (auto simp: valid_def)

lemma fmap_prefix: "fmap i s (r, ks @ ls) \<noteq> 0 \<Longrightarrow> fmap i s (r, ks) \<noteq> 0"
  by (auto simp: fmap_def child_append)

lemma not_leaf: "valid (r, ks @ [k]) \<Longrightarrow> \<not> leaf (r, ks)"
  by (auto simp: valid_def leaf_def)

lemma pos_leaf: "bn < MAXFILE \<Longrightarrow> leaf (pos bn)"
  by (auto simp: pos_def leaf_def valid_def level_def MAXFILE_def Let_def params div_less_iff_less_mult
      less_mult_imp_div_less)

lemma div_mod_unique: "(a :: nat) div n = b div n \<Longrightarrow> a mod n = b mod n \<Longrightarrow> a = b"
  by (metis div_mod_decomp)

lemma pos_inj: "pos a = pos b \<longleftrightarrow> a = b"
proof
  assume e: "pos a = pos b"
  have u: "a - x = b - x \<Longrightarrow> x \<le> a \<Longrightarrow> x \<le> b \<Longrightarrow> a = b" for x :: nat by simp
  show "a = b"
    using e by (auto simp: pos_def Let_def params split: if_splits
        dest!: div_mod_unique[of "a - 268" 256] div_mod_unique[of "_ mod 65536" 256] div_mod_unique[of "_ - 65804" 65536])
qed simp

lemma tree_okD:
  assumes "tree_ok i s" "valid p" "fmap i s p \<noteq> 0"
  shows "unat (fmap i s p) \<in> used_blocks s" "\<not> is_meta (sb s) (fmap i s p)"
    "valid q \<Longrightarrow> fmap i s p = fmap i s q \<Longrightarrow> p = q"
  using assms unfolding tree_ok_def by blast+

section \<open>Growing a file\<close>

text \<open>
  Between \<open>s\<close> and \<open>t\<close> only the cache, the list of logged blocks, the counters of the superblock
  and the pointers of inode \<open>i\<close> changed.
\<close>

definition moved :: "nat \<Rightarrow> 'a fs_st_scheme \<Rightarrow> 'a fs_st_scheme \<Rightarrow> bool" where
  "moved i s t \<longleftrightarrow> fs_touched (s\<lparr>itable := itable t\<rparr>) t \<and>
     (\<exists>a. itable t = (itable s)(i := (itable s i)\<lparr>i_addrs := a\<rparr>))"

text \<open>
  \<open>extends c i s t\<close>: at most \<open>c\<close> blocks were allocated and added to file \<open>i\<close>; its other blocks are
  where they were, and every used data block of another file and every block of inodes has
  kept its content.  \<open>grows\<close> says in addition that the content of the file is the same.
\<close>

definition extends :: "nat \<Rightarrow> nat \<Rightarrow> 'a fs_st_scheme \<Rightarrow> 'a fs_st_scheme \<Rightarrow> bool" where
  "extends c i s t \<longleftrightarrow> moved i s t \<and> used_blocks s \<subseteq> used_blocks t \<and>
     card (used_blocks t) \<le> card (used_blocks s) + c \<and> used_inodes t = used_inodes s \<and>
     (\<forall>p. valid p \<longrightarrow> fmap i s p \<noteq> 0 \<longrightarrow> fmap i t p = fmap i s p) \<and>
     (\<forall>p. valid p \<longrightarrow> fmap i s p = 0 \<longrightarrow> fmap i t p = 0 \<or> unat (fmap i t p) \<notin> used_blocks s) \<and>
     (\<forall>b. \<not> is_meta (sb s) b \<longrightarrow> unat b \<in> used_blocks s \<longrightarrow> (\<forall>p. valid p \<longrightarrow> fmap i s p \<noteq> b) \<longrightarrow> lview t b = lview s b) \<and>
     (\<forall>n<unat (sb_ninodes (sb s)). lview t (IBLOCK (of_nat n) (sb s)) = lview s (IBLOCK (of_nat n) (sb s)))"

definition grows :: "nat \<Rightarrow> nat \<Rightarrow> 'a fs_st_scheme \<Rightarrow> 'a fs_st_scheme \<Rightarrow> bool" where
  "grows c i s t \<longleftrightarrow> extends c i s t \<and> (\<forall>bn<MAXFILE. \<forall>j<BSIZE. fblock i t bn j = fblock i s bn j)"

lemma views_itable [simp]:
  "lview (s\<lparr>itable := x\<rparr>) = lview s" "logged (s\<lparr>itable := x\<rparr>) = logged s" "space k (s\<lparr>itable := x\<rparr>) = space k s"
  "log_ok H (s\<lparr>itable := x\<rparr>) = log_ok H s" "fs_ok H (s\<lparr>itable := x\<rparr>) = fs_ok H s"
  "in_use lim blk (s\<lparr>itable := x\<rparr>) = in_use lim blk s" "meta_used (s\<lparr>itable := x\<rparr>) = meta_used s"
proof -
  show 1: "lview (s\<lparr>itable := x\<rparr>) = lview s" "logged (s\<lparr>itable := x\<rparr>) = logged s" "space k (s\<lparr>itable := x\<rparr>) = space k s"
    "log_ok H (s\<lparr>itable := x\<rparr>) = log_ok H s" for H k by (rule log_ok_cong; simp add: myproc_def)+
  show "fs_ok H (s\<lparr>itable := x\<rparr>) = fs_ok H s" "in_use lim blk (s\<lparr>itable := x\<rparr>) = in_use lim blk s" for lim blk
    using 1(4) by (simp_all add: fs_ok_def in_use_def 1(1))
  then show "meta_used (s\<lparr>itable := x\<rparr>) = meta_used s" by (simp add: meta_used_def)
qed

lemma set_addr_eq:
  "set_addr i k v s = s\<lparr>itable := (itable s)(i := (itable s i)\<lparr>i_addrs := (i_addrs (itable s i))(k := v)\<rparr>)\<rparr>"
  by (simp add: set_addr_def set_inode_def)

lemma fs_touched_itable: "fs_touched s t \<Longrightarrow> fs_touched (s\<lparr>itable := x\<rparr>) (t\<lparr>itable := x\<rparr>)"
  unfolding fs_touched_def touched_def by (cases s, cases t) auto

lemma moved_touched: "fs_touched s t \<Longrightarrow> moved i s t"
proof -
  assume "fs_touched s t"
  moreover from this have e: "itable t = itable s" by (rule fs_touchedD(4))
  moreover have "s\<lparr>itable := itable s\<rparr> = s" by simp
  moreover have "itable s = (itable s)(i := (itable s i)\<lparr>i_addrs := i_addrs (itable s i)\<rparr>)" by simp
  ultimately show ?thesis unfolding moved_def by metis
qed

lemma moved_set_addr: "moved i s (set_addr i k v s)"
proof -
  have "fs_touched (s\<lparr>itable := x\<rparr>) (s\<lparr>itable := x\<rparr>)" for x by (rule fs_touched_refl)
  then show ?thesis unfolding moved_def set_addr_eq by auto
qed

lemma moved_trans:
  assumes "moved i s t" "moved i t u"
  shows "moved i s u"
proof -
  from assms obtain a b where 1: "fs_touched (s\<lparr>itable := itable t\<rparr>) t" "itable t = (itable s)(i := (itable s i)\<lparr>i_addrs := a\<rparr>)"
    and 2: "fs_touched (t\<lparr>itable := itable u\<rparr>) u" "itable u = (itable t)(i := (itable t i)\<lparr>i_addrs := b\<rparr>)"
    unfolding moved_def by blast
  have "itable u = (itable s)(i := (itable s i)\<lparr>i_addrs := b\<rparr>)" using 1(2) 2(2) by simp
  moreover have "fs_touched (s\<lparr>itable := itable u\<rparr>) u"
    using fs_touched_trans[OF fs_touched_itable[OF 1(1), of "itable u"] 2(1)] by simp
  ultimately show ?thesis unfolding moved_def by blast
qed

lemma movedD:
  assumes "moved i s t"
  shows "geom (sb t) = geom (sb s)" "disk t = disk s" "lg_start (lg t) = lg_start (lg s)" "myproc t = myproc s" "mem t = mem s"
    "j \<noteq> i \<Longrightarrow> itable t j = itable s j" "itable t i = (itable s i)\<lparr>i_addrs := i_addrs (itable t i)\<rparr>"
    "i_dev (itable t j) = i_dev (itable s j)" "i_type (itable t j) = i_type (itable s j)" "i_size (itable t j) = i_size (itable s j)"
    "i_inum (itable t j) = i_inum (itable s j)"
proof -
  from assms obtain a where f: "fs_touched (s\<lparr>itable := itable t\<rparr>) t" and a: "itable t = (itable s)(i := (itable s i)\<lparr>i_addrs := a\<rparr>)"
    unfolding moved_def by blast
  show "geom (sb t) = geom (sb s)" "disk t = disk s" "lg_start (lg t) = lg_start (lg s)" "mem t = mem s" "myproc t = myproc s"
    using fs_touchedD[OF f] by (simp_all add: myproc_def)
  show "j \<noteq> i \<Longrightarrow> itable t j = itable s j" "itable t i = (itable s i)\<lparr>i_addrs := i_addrs (itable t i)\<rparr>"
    "i_dev (itable t j) = i_dev (itable s j)" "i_type (itable t j) = i_type (itable s j)" "i_size (itable t j) = i_size (itable s j)"
    "i_inum (itable t j) = i_inum (itable s j)"
    by (simp_all add: a)
qed

lemma extendsD:
  assumes "extends c i s t"
  shows "moved i s t" "used_blocks s \<subseteq> used_blocks t" "card (used_blocks t) \<le> card (used_blocks s) + c"
    "used_inodes t = used_inodes s"
    "valid p \<Longrightarrow> fmap i s p \<noteq> 0 \<Longrightarrow> fmap i t p = fmap i s p"
    "valid p \<Longrightarrow> fmap i s p = 0 \<Longrightarrow> fmap i t p = 0 \<or> unat (fmap i t p) \<notin> used_blocks s"
    "\<not> is_meta (sb s) b \<Longrightarrow> unat b \<in> used_blocks s \<Longrightarrow> (\<And>p. valid p \<Longrightarrow> fmap i s p \<noteq> b) \<Longrightarrow> lview t b = lview s b"
    "n < unat (sb_ninodes (sb s)) \<Longrightarrow> lview t (IBLOCK (of_nat n) (sb s)) = lview s (IBLOCK (of_nat n) (sb s))"
  using assms unfolding extends_def by blast+

lemma growsD:
  assumes "grows c i s t"
  shows "extends c i s t" "bn < MAXFILE \<Longrightarrow> j < BSIZE \<Longrightarrow> fblock i t bn j = fblock i s bn j"
  using assms by (simp_all add: grows_def)

lemma extends_trans:
  assumes 1: "extends c i s t" and 2: "extends d i t u"
  shows "extends (c + d) i s u"
proof -
  note A = extendsD[OF 1] and B = extendsD[OF 2]
  note g = movedD(1)[OF A(1)]
  have m: "is_meta (sb t) b = is_meta (sb s) b" "IBLOCK b (sb t) = IBLOCK b (sb s)" "sb_ninodes (sb t) = sb_ninodes (sb s)" for b
    using is_meta_geom[OF g] geom_eqD[OF g] by auto
  have f: "(fmap i s p \<noteq> 0 \<longrightarrow> fmap i u p = fmap i s p) \<and>
      (fmap i s p = 0 \<longrightarrow> fmap i u p = 0 \<or> unat (fmap i u p) \<notin> used_blocks s)"
    if "valid p" for p using A(2) A(5,6)[OF that] B(5,6)[OF that] by (cases "fmap i s p = 0"; cases "fmap i t p = 0") auto
  have l: "lview u b = lview s b"
    if b: "\<not> is_meta (sb s) b" "unat b \<in> used_blocks s" "\<And>p. valid p \<Longrightarrow> fmap i s p \<noteq> b" for b
  proof -
    have "b \<noteq> 0" using b(1) by (auto simp: is_meta_def)
    then have "fmap i t p \<noteq> b" if "valid p" for p using A(5,6)[OF that] b(2,3) that by metis
    then have "lview u b = lview t b" using B(7)[of b] b(1,2) A(2) m(1) by blast
    then show ?thesis using A(7)[OF b] by simp
  qed
  have n: "lview u (IBLOCK (of_nat n) (sb s)) = lview s (IBLOCK (of_nat n) (sb s))" if "n < unat (sb_ninodes (sb s))" for n
    using A(8)[OF that] B(8)[of n] that by (simp add: m)
  have "card (used_blocks u) \<le> card (used_blocks s) + (c + d)" using A(3) B(3) by linarith
  then show ?thesis
    unfolding extends_def using moved_trans[OF A(1) B(1)] A(2,4) B(2,4) f l n by (intro conjI) blast+
qed

lemma grows_trans: "grows c i s t \<Longrightarrow> grows d i t u \<Longrightarrow> grows (c + d) i s u"
  using extends_trans[of c i s t d u] by (simp add: grows_def)

lemma grows_0: "fs_touched s t \<Longrightarrow> lview t = lview s \<Longrightarrow> grows 0 i s t"
proof -
  assume f: "fs_touched s t" and l: "lview t = lview s"
  note F = fs_touchedD[OF f]
  have u: "in_use lim blk t = in_use lim blk s" if "lim (sb t) = lim (sb s)" "\<And>b. blk b (sb t) = blk b (sb s)" for lim blk
    using that by (simp add: in_use_def l)
  have ub: "used_blocks t = used_blocks s" "used_inodes t = used_inodes s"
    by (rule u; use geom_eqD[OF F(1)] in \<open>simp add: BBLOCK_def IBBLOCK_def\<close>)+
  have "fmap i t p = fmap i s p" for p by (simp add: fmap_def l F(4))
  then show ?thesis by (simp add: grows_def extends_def moved_touched[OF f] ub l fblock_def Let_def)
qed

text \<open>
  The effect of one allocation: a fresh zeroed block at a position that had none.  The only
  used data blocks that changed are pointer blocks of the file.
\<close>

definition added :: "nat \<Rightarrow> place \<Rightarrow> nat \<Rightarrow> 'a fs_st_scheme \<Rightarrow> 'a fs_st_scheme \<Rightarrow> bool" where
  "added i p n s t \<longleftrightarrow> moved i s t \<and> valid p \<and> fmap i s p = 0 \<and> n < unat (sb_size (sb s)) \<and> n \<notin> used_blocks s \<and>
     used_blocks t = insert n (used_blocks s) \<and> used_inodes t = used_inodes s \<and> \<not> is_meta (sb s) (of_nat n) \<and>
     (\<forall>q. valid q \<longrightarrow> fmap i t q = (if q = p then of_nat n else fmap i s q)) \<and> (\<forall>j<BSIZE. lview t (of_nat n) j = 0) \<and>
     (\<forall>b. \<not> is_meta (sb s) b \<longrightarrow> unat b \<in> used_blocks s \<longrightarrow>
        (\<forall>q. valid q \<longrightarrow> fmap i s q = b \<longrightarrow> leaf q) \<longrightarrow> lview t b = lview s b) \<and>
     (\<forall>k<unat (sb_ninodes (sb s)). lview t (IBLOCK (of_nat k) (sb s)) = lview s (IBLOCK (of_nat k) (sb s)))"

lemma addedD:
  assumes "added i p n s t"
  shows "moved i s t" "valid p" "fmap i s p = 0" "n < unat (sb_size (sb s))" "n \<notin> used_blocks s"
    "used_blocks t = insert n (used_blocks s)" "used_inodes t = used_inodes s" "\<not> is_meta (sb s) (of_nat n)"
    "valid q \<Longrightarrow> fmap i t q = (if q = p then of_nat n else fmap i s q)" "j < BSIZE \<Longrightarrow> lview t (of_nat n) j = 0"
    "\<not> is_meta (sb s) b \<Longrightarrow> unat b \<in> used_blocks s \<Longrightarrow> (\<And>q. valid q \<Longrightarrow> fmap i s q = b \<Longrightarrow> leaf q) \<Longrightarrow> lview t b = lview s b"
    "k < unat (sb_ninodes (sb s)) \<Longrightarrow> lview t (IBLOCK (of_nat k) (sb s)) = lview s (IBLOCK (of_nat k) (sb s))"
  using assms unfolding added_def by blast+

lemma added_grows:
  assumes a: "added i p n s t" and tr: "tree_ok i s" and lay: "layout_ok (sb s)"
  shows "grows 1 i s t" "tree_ok i t"
proof -
  note A = addedD[OF a]
  have un: "unat (of_nat n :: u32) = n" using A(4) layout_okD(1)[OF lay] by (intro unat_small) simp
  have nz: "(of_nat n :: u32) \<noteq> 0" using A(8) by (auto simp: is_meta_def)
  have m: "is_meta (sb t) b = is_meta (sb s) b" for b by (rule is_meta_geom[OF movedD(1)[OF A(1)]])
  have old: "unat (fmap i s q) \<noteq> n" if "valid q" "fmap i s q \<noteq> 0" for q using tree_okD(1)[OF tr that] A(5) by auto
  show "tree_ok i t"
    unfolding tree_ok_def
  proof (intro conjI allI impI)
    fix q q' assume q: "valid q" "valid q'" "fmap i t q \<noteq> 0" "fmap i t q = fmap i t q'"
    then show "q = q'"
      using A(9)[of q] A(9)[of q'] tree_okD(3)[OF tr q(1) _ q(2)] old[OF q(1)] old[OF q(2)] un nz by (metis (full_types))
  next
    fix q assume q: "valid q" "fmap i t q \<noteq> 0"
    show "unat (fmap i t q) \<in> used_blocks t" using A(6) A(9)[OF q(1)] tree_okD(1)[OF tr q(1)] un q(2) by (auto split: if_splits)
    show "\<not> is_meta (sb t) (fmap i t q)" unfolding m using A(8) A(9)[OF q(1)] tree_okD(2)[OF tr q(1)] q(2) by (auto split: if_splits)
  qed
  have f: "fblock i t bn j = fblock i s bn j" if bn: "bn < MAXFILE" and j: "j < BSIZE" for bn j
  proof -
    have v: "valid (pos bn)" using pos_leaf[OF bn] by (simp add: leaf_def)
    show ?thesis
    proof (cases "fmap i s (pos bn) = 0")
      case True
      then show ?thesis using A(9)[OF v] A(10)[OF j] nz by (auto simp: fblock_def Let_def)
    next
      case False
      have "leaf q" if "valid q" "fmap i s q = fmap i s (pos bn)" for q
        using tree_okD(3)[OF tr v False that(1)] that(2) pos_leaf[OF bn] by simp
      then have "lview t (fmap i s (pos bn)) = lview s (fmap i s (pos bn))"
        using A(11) tree_okD(1,2)[OF tr v False] by blast
      moreover have "pos bn \<noteq> p" using False A(3) by auto
      ultimately show ?thesis using A(9)[OF v] False by (simp add: fblock_def)
    qed
  qed
  have l: "lview t b = lview s b" if "\<not> is_meta (sb s) b" "unat b \<in> used_blocks s" "\<forall>p. valid p \<longrightarrow> fmap i s p \<noteq> b" for b
    using A(11)[OF that(1,2)] that(3) by blast
  have g: "fmap i t q = fmap i s q" if "valid q" "fmap i s q \<noteq> 0" for q using A(9)[OF that(1)] that(2) A(3) by auto
  have z: "fmap i t q = 0 \<or> unat (fmap i t q) \<notin> used_blocks s" if "valid q" "fmap i s q = 0" for q
    using A(9)[OF that(1)] that(2) A(5) un by auto
  have c: "card (used_blocks t) \<le> card (used_blocks s) + 1" unfolding A(6) using card_insert_le_m1[of "card (used_blocks s) + 1" "used_blocks s" n] by simp
  have u: "used_blocks s \<subseteq> used_blocks t" using A(6) by blast
  show "grows 1 i s t"
    unfolding grows_def extends_def using A(1,7,12) u c f l g z by (intro conjI) blast+
qed

section \<open>One entry\<close>

text \<open>Storing the block \<open>n\<close> at a position, on the level of the pointers.\<close>

lemma child_update:
  assumes z: "\<And>k. k < NINDIRECT \<Longrightarrow> get32 (v' n) (4 * k) = 0" and n: "n \<noteq> 0"
    and p: "child v (a (fst p)) (snd p) = 0" "\<And>r ks k. p = (r, ks @ [k]) \<Longrightarrow> child v (a r) ks \<noteq> 0"
    and a': "\<And>r. a' r = (if p = (r, []) then n else a r)"
    and v': "\<And>r ks k c. valid (r, ks @ [k]) \<Longrightarrow> c = child v (a r) ks \<Longrightarrow> c \<noteq> 0 \<Longrightarrow>
      get32 (v' c) (4 * k) = (if p = (r, ks @ [k]) then n else get32 (v c) (4 * k))"
  shows "valid (r, ks) \<Longrightarrow> child v' (a' r) ks = (if p = (r, ks) then n else child v (a r) ks)"
proof (induction ks rule: rev_induct)
  case Nil
  then show ?case by (simp add: a')
next
  case (snoc k ks)
  then have k: "k < NINDIRECT" and v: "valid (r, ks)" by (auto simp: valid_def)
  note IH = snoc.IH[OF v]
  consider "p = (r, ks)" | "p \<noteq> (r, ks)" "child v (a r) ks = 0" | "p \<noteq> (r, ks)" "child v (a r) ks \<noteq> 0" by blast
  then show ?case
  proof cases
    case 1
    then show ?thesis using IH p(1) z[OF k] n by (simp add: child_append)
  next
    case 2
    then have "p \<noteq> (r, ks @ [k])" using p(2) by blast
    then show ?thesis using IH 2 by (simp add: child_append)
  next
    case 3
    then show ?thesis using IH v'[OF snoc.prems refl] by (simp add: child_append)
  qed
qed

definition room :: "nat \<Rightarrow> 'a fs_st_scheme \<Rightarrow> bool" where
  "room m s \<longleftrightarrow> card (used_blocks s) + m \<le> unat (sb_size (sb s))"

lemma room_free: "room (Suc m) s \<Longrightarrow> \<exists>n<unat (sb_size (sb s)). n \<notin> used_blocks s"
proof (rule ccontr)
  assume r: "room (Suc m) s" and n: "\<not> (\<exists>n<unat (sb_size (sb s)). n \<notin> used_blocks s)"
  then have "{..<unat (sb_size (sb s))} \<subseteq> used_blocks s" by auto
  from card_mono[OF in_use_finite(1) this] show False using r by (simp add: room_def)
qed

lemma room_extends: "room (m + c) s \<Longrightarrow> extends c i s t \<Longrightarrow> room m t"
  using extendsD(3)[of c i s t] geom_eqD(1)[OF movedD(1)[OF extendsD(1)[of c i s t]]] by (simp add: room_def)

lemma room_grows: "room (m + c) s \<Longrightarrow> grows c i s t \<Longrightarrow> room m t"
  using room_extends growsD(1) by blast

lemma grows_mono: "grows c i s t \<Longrightarrow> c \<le> d \<Longrightarrow> grows d i s t"
  unfolding grows_def extends_def by auto

text \<open>The state in which \<open>bmap\<close> works: a file of the root device with pointers, inside a transaction.\<close>

definition file_ok :: "nat \<Rightarrow> 'a fs_st_scheme \<Rightarrow> bool" where
  "file_ok i s \<longleftrightarrow> fs_ok {} s \<and> meta_used s \<and> i_dev (itable s i) = ROOTDEV \<and> i_type (itable s i) \<noteq> T_EXTENT \<and> tree_ok i s"

lemma file_okD:
  assumes "file_ok i s"
  shows "fs_ok {} s" "meta_used s" "i_dev (itable s i) = ROOTDEV" "i_type (itable s i) \<noteq> T_EXTENT" "tree_ok i s"
  using assms by (simp_all add: file_ok_def)

lemma file_ok_moved: "file_ok i s \<Longrightarrow> moved i s t \<Longrightarrow> fs_ok {} t \<Longrightarrow> meta_used t \<Longrightarrow> tree_ok i t \<Longrightarrow> file_ok i t"
  using movedD(8,9)[of i s t i] by (simp add: file_ok_def)

text \<open>A data block is neither the superblock nor a block of the bitmap.\<close>

lemma data_block:
  assumes "layout_ok (sb s)" "\<not> is_meta (sb s) b" "n < unat (sb_size (sb s))"
  shows "b \<noteq> 0" "b \<noteq> 1" "b \<noteq> BBLOCK (of_nat n) (sb s)" "b \<notin> log_area (sb_logstart (sb s))"
  using assms(2) blocks_meta[OF assms(1)] assms(3) by (auto simp: is_meta_def)

text \<open>What is left to show after \<open>balloc\<close> and the store of the pointer.\<close>

lemma added_intro:
  fixes s :: "'a fs_st_scheme"
  assumes ok: "fs_ok H s" and tr: "tree_ok i s" and p: "valid p" "fmap i s p = 0" "\<And>r ks k. p = (r, ks @ [k]) \<Longrightarrow> fmap i s (r, ks) \<noteq> 0"
    and n: "n < unat (sb_size (sb s))" "n \<notin> used_blocks s" "\<not> is_meta (sb s) (of_nat n)"
    and t: "moved i s t" "used_blocks t = insert n (used_blocks s)" "used_inodes t = used_inodes s"
    and z: "\<And>j. j < BSIZE \<Longrightarrow> lview t (of_nat n) j = 0"
    and a: "\<And>r. i_addrs (itable t i) r = (if p = (r, []) then of_nat n else i_addrs (itable s i) r)"
    and same: "\<And>b. b \<noteq> 1 \<Longrightarrow> b \<noteq> BBLOCK (of_nat n) (sb s) \<Longrightarrow> b \<noteq> of_nat n \<Longrightarrow>
      (\<And>r ks k. p = (r, ks @ [k]) \<Longrightarrow> b \<noteq> fmap i s (r, ks)) \<Longrightarrow> lview t b = lview s b"
    and par: "\<And>r ks k j. p = (r, ks @ [k]) \<Longrightarrow> j < NINDIRECT \<Longrightarrow>
      get32 (lview t (fmap i s (r, ks))) (4 * j) = (if j = k then of_nat n else get32 (lview s (fmap i s (r, ks))) (4 * j))"
  shows "added i p n s t"
proof -
  note D = fs_okD[OF ok]
  have un: "unat (of_nat n :: u32) = n" using n(1) layout_okD(1)[OF D(2)] by (intro unat_small) simp
  have same': "lview t b = lview s b"
    if b: "\<not> is_meta (sb s) b" "unat b \<in> used_blocks s" "\<And>r ks k. p = (r, ks @ [k]) \<Longrightarrow> b \<noteq> fmap i s (r, ks)" for b
    using same[of b] b data_block[OF D(2) b(1) n(1)] n(2) un by metis
  have f: "child (lview t) (i_addrs (itable t i) r) ks = (if p = (r, ks) then of_nat n else child (lview s) (i_addrs (itable s i) r) ks)"
    if "valid (r, ks)" for r ks
  proof (rule child_update[OF _ _ _ _ a _ that])
    show "get32 (lview t (of_nat n)) (4 * k) = 0" if "k < NINDIRECT" for k
      using z that get_cong(2)[of "4 * k" "lview t (of_nat n)" "\<lambda>_. 0"] by (simp add: params get32_def getLE_num)
    show "(of_nat n :: u32) \<noteq> 0" using data_block(1)[OF D(2) n(3) n(1)] .
    show "child (lview s) (i_addrs (itable s i) (fst p)) (snd p) = 0" using p(2) by (simp add: fmap_def)
    show "child (lview s) (i_addrs (itable s i) r) ks \<noteq> 0" if "p = (r, ks @ [k])" for r ks k
      using p(3)[OF that] by (simp add: fmap_def)
    show "get32 (lview t c) (4 * k) = (if p = (r, ks @ [k]) then of_nat n else get32 (lview s c) (4 * k))"
      if v: "valid (r, ks @ [k])" and c: "c = child (lview s) (i_addrs (itable s i) r) ks" "c \<noteq> 0" for r ks k c
    proof -
      have k: "k < NINDIRECT" and v': "valid (r, ks)" using v by (auto simp: valid_def)
      have c': "c = fmap i s (r, ks)" using c(1) by (simp add: fmap_def)
      have c2: "fmap i s (r, ks) \<noteq> 0" using c c' by simp
      show ?thesis
      proof (cases "\<exists>r' ks' k'. p = (r', ks' @ [k']) \<and> c = fmap i s (r', ks')")
        case True
        then obtain r' ks' k' where p': "p = (r', ks' @ [k'])" "c = fmap i s (r', ks')" by blast
        have "valid (r', ks')" using p(1) p'(1) valid_prefix by simp
        then have "(r, ks) = (r', ks')" using tree_okD(3)[OF tr v' c2, of "(r', ks')"] c' p'(2) by simp
        then show ?thesis using par[OF p'(1) k] p' by auto
      next
        case False
        then have "lview t c = lview s c" using same'[of c] tree_okD(1,2)[OF tr v' c2] c' by blast
        then show ?thesis using False c' by auto
      qed
    qed
  qed
  have g: "fmap i t q = (if q = p then of_nat n else fmap i s q)" if "valid q" for q
    using f[of "fst q" "snd q"] that by (auto simp: fmap_def)
  have l: "lview t b = lview s b" if b: "\<not> is_meta (sb s) b" "unat b \<in> used_blocks s" "\<forall>q. valid q \<longrightarrow> fmap i s q = b \<longrightarrow> leaf q" for b
  proof (rule same'[OF b(1,2)])
    fix r ks k assume e: "p = (r, ks @ [k])"
    then have "\<not> leaf (r, ks)" "valid (r, ks)" using p(1) not_leaf valid_prefix by auto
    then show "b \<noteq> fmap i s (r, ks)" using b(3) by blast
  qed
  have ib: "lview t (IBLOCK (of_nat k) (sb s)) = lview s (IBLOCK (of_nat k) (sb s))" if k: "k < unat (sb_ninodes (sb s))" for k
  proof (rule same)
    have m: "is_meta (sb s) (IBLOCK (of_nat k) (sb s))" by (rule blocks_meta(3)[OF D(2) k])
    show "IBLOCK (of_nat k) (sb s) \<noteq> 1" "IBLOCK (of_nat k) (sb s) \<noteq> BBLOCK (of_nat n) (sb s)"
      using layout_okD(6,8)[OF D(2) k] n(1) by metis+
    show "IBLOCK (of_nat k) (sb s) \<noteq> of_nat n" using m n(3) by metis
    show "IBLOCK (of_nat k) (sb s) \<noteq> fmap i s (r, ks)" if "p = (r, ks @ [j])" for r ks j
      using m tree_okD(2)[OF tr _ p(3)[OF that]] p(1) that valid_prefix by metis
  qed
  show ?thesis unfolding added_def using t p(1,2) n z g l ib by (intro conjI) blast+
qed

lemma memset_zero: "j < n \<Longrightarrow> memset d 0 0 n j = 0"
  by (simp add: memset_eq)

lemma addr_entry_ok:
  fixes s :: "'a fs_st_scheme"
  assumes ok: "file_ok i s" and r: "r < NDIRECT + 3" and sp: "space (k + 3) s" and rm: "room 1 s"
  obtains b t where "addr_entry i r s = Ok (b, t)" "b = fmap i t (r, [])" "b \<noteq> 0" "file_ok i t" "grows 1 i s t" "space k t"
proof (cases "i_addrs (itable s i) r = 0")
  case False
  have "grows 1 i s s" by (rule grows_mono[OF grows_0[OF fs_touched_refl]]) simp_all
  moreover have "space k s" by (rule space_mono[OF sp]) simp
  moreover have "addr_entry i r s = Ok (i_addrs (itable s i) r, s)" using False by (simp add: addr_entry_def)
  ultimately show ?thesis using that False ok by simp
next
  case True
  note F = file_okD[OF ok] and D = fs_okD[OF file_okD(1)[OF ok]]
  obtain n0 where n0: "n0 < unat (sb_size (sb s))" "n0 \<notin> used_blocks s" using room_free[of 0 s] rm by auto
  obtain n u d d' where u: "balloc ROOTDEV s = Ok (of_nat n, u)" "n < unat (sb_size (sb s))" "n \<notin> used_blocks s"
    "\<forall>m<n. m \<in> used_blocks s" "fs_ok {} u" "used_blocks u = insert n (used_blocks s)" "used_inodes u = used_inodes s" "meta_used u"
    "lview u = (lview s)(BBLOCK (of_nat n) (sb s) := d, 1 := d', of_nat n := memset (lview s (of_nat n)) 0 0 BSIZE)"
    "sb u = sb_freeblocks_update (\<lambda>c. c - 1) (sb s)" "space k u" "fs_touched s u"
    "\<forall>c\<in>{}. slot (bufs u) c = slot (bufs s) c" "\<not> is_meta (sb s) (of_nat n)"
    by (rule balloc_ok[OF F(1,2) _ n0 sp]) simp_all
  let ?t = "set_addr i r (of_nat n) u"
  have m: "moved i s ?t" by (rule moved_trans[OF moved_touched[OF u(12)] moved_set_addr])
  have e: "itable u = itable s" by (rule fs_touchedD(4)[OF u(12)])
  have "added i (r, []) n s ?t"
  proof (rule added_intro[OF F(1,5) _ _ _ u(2,3,14) m])
    show "valid (r, [])" using r by (simp add: valid_def)
    show "fmap i s (r, []) = 0" using True by simp
    show "used_blocks ?t = insert n (used_blocks s)" "used_inodes ?t = used_inodes s" using u(6,7) by (simp_all add: set_addr_eq)
    show "lview ?t (of_nat n) j = 0" if "j < BSIZE" for j using that by (simp add: set_addr_eq u(9) memset_zero)
    show "lview ?t b = lview s b" if "b \<noteq> 1" "b \<noteq> BBLOCK (of_nat n) (sb s)" "b \<noteq> of_nat n" for b
      using that by (simp add: set_addr_eq u(9))
  qed (auto simp: set_addr_eq e)
  note g = added_grows[OF this F(5) D(2)]
  show ?thesis
  proof (rule that[OF _ _ _ file_ok_moved[OF ok m _ _ g(2)] g(1)])
    show "addr_entry i r s = Ok (of_nat n, ?t)" using True u(1) F(3) by (simp add: addr_entry_def)
    show "(of_nat n :: u32) \<noteq> 0" using data_block(1)[OF D(2) u(14,2)] .
  qed (use u(5,8,11) in \<open>simp_all add: set_addr_eq\<close>)
qed

text \<open>Reading, releasing and changing a data block.\<close>

lemma data_bread:
  fixes s :: "'a fs_st_scheme"
  assumes ok: "fs_ok {} s" and b: "\<not> is_meta (sb s) b"
  obtains bp t where "bread ROOTDEV b s = Ok (bp, t)" "fs_ok {b} t" "slot (bufs t) b = Some bp" "lview t = lview s"
    "bdata bp t = lview s b" "t = s\<lparr>bufs := bufs t\<rparr>" "b \<in> logged t \<or> lview t b = disk t b"
proof -
  note D = fs_okD[OF ok]
  have "b \<notin> log_area (lg_start (lg s))" using b D(3) by (simp add: is_meta_def)
  moreover have "nat (lh_n (lg s)) < NBUF" using log_okD(4,5)[OF D(1)] by linarith
  ultimately obtain bp t where 1: "bread ROOTDEV b s = Ok (bp, t)" "log_ok (insert b {}) t" "slot (bufs t) b = Some bp"
    "\<forall>c\<in>{}. slot (bufs t) c = slot (bufs s) c" "lview t = lview s" "bdata bp t = lview s b" "t = s\<lparr>bufs := bufs t\<rparr>" "logged t = logged s"
    by (auto intro: log_bread_ok[OF D(1), of b])
  have e: "sb t = sb s" "lg t = lg s" using bufs_fs[OF 1(7)] by auto
  have "disk t = disk s" by (subst 1(7)) simp
  then have "b \<in> logged t \<or> lview t b = disk t b"
    using bio_ok_clean[OF log_okD(1)[OF D(1)], of b] by (auto simp: 1(5,8))
  moreover have "fs_ok {b} t" using 1(2) D(2,3) b by (simp add: fs_ok_def e)
  ultimately show ?thesis using that 1 by blast
qed

lemma data_brelse:
  fixes s :: "'a fs_st_scheme"
  assumes ok: "fs_ok {b} s" and b: "slot (bufs s) b = Some bp" "b \<in> logged s \<or> lview s b = disk s b"
  obtains t where "brelse bp s = Ok t" "fs_ok {} t" "lview t = lview s" "t = s\<lparr>bufs := bufs t\<rparr>"
proof -
  note D = fs_okD[OF ok]
  from log_brelse_ok[OF D(1) insertI1 b] obtain t where 2: "brelse bp s = Ok t" "log_ok ({b} - {b}) t"
    "slot (bufs t) = slot (bufs s)" "lview t = lview s" "t = s\<lparr>bufs := bufs t\<rparr>" "logged t = logged s" by blast
  have "sb t = sb s" "lg t = lg s" using bufs_fs[OF 2(5)] by auto
  then have "fs_ok {} t" using 2(2) D(2,3) by (simp add: fs_ok_def)
  then show ?thesis using that 2 by blast
qed

lemma data_update:
  fixes s :: "'a fs_st_scheme"
  assumes ok: "fs_ok {b} s" and b: "slot (bufs s) b = Some bp" and sp: "space (Suc k) s"
  obtains t where "rbind (log_write bp (set_bdata bp d s)) (brelse bp) = Ok t" "fs_ok {} t" "lview t = (lview s)(b := d)"
    "space k t" "touched s t" "sb t = sb s" "used_blocks t = used_blocks s" "used_inodes t = used_inodes s" "meta_used t = meta_used s"
proof -
  note D = fs_okD[OF ok]
  obtain t where t: "rbind (log_write bp (set_bdata bp d s)) (brelse bp) = Ok t" "log_ok {} t"
    "lview t = (lview s)(b := d)" "space k t" "touched s t" "logged t = insert b (logged s)" "slot (bufs t) = slot (bufs s)"
    by (rule log_update_held[OF D(1) _ b sp]) simp
  have e: "sb t = sb s" by (rule touched_same_sb[OF t(5)])
  have "lview t (BBLOCK (of_nat m) (sb s)) = lview s (BBLOCK (of_nat m) (sb s))" if "m < unat (sb_size (sb s))" for m
    using D(4)[of b] blocks_meta(1)[OF D(2) that] by (auto simp: t(3))
  then have ub: "used_blocks t = used_blocks s" by (intro blocks_unchanged[OF D(2)]) (simp_all add: e)
  have "lview t (IBBLOCK (of_nat m) (sb s)) = lview s (IBBLOCK (of_nat m) (sb s))" if "m < unat (sb_ninodes (sb s))" for m
    using D(4)[of b] blocks_meta(2)[OF D(2) that] by (auto simp: t(3))
  then have ui: "used_inodes t = used_inodes s" by (intro inodes_unchanged[OF D(2)]) (simp_all add: e)
  have "fs_ok {} t" by (rule fs_ok_touched[OF t(2) touched_fs[OF t(5)] ok]) simp
  then show ?thesis using that t e ub ui by (simp add: meta_used_def)
qed

lemma cache_only:
  fixes s :: "'a fs_st_scheme"
  assumes t: "t = s\<lparr>bufs := bufs t\<rparr>" "lview t = lview s"
  shows "used_blocks t = used_blocks s" "used_inodes t = used_inodes s" "meta_used t = meta_used s" "fmap i t = fmap i s"
    "grows 0 i s t" "tree_ok i t = tree_ok i s" "space k t = space k s" "sb t = sb s" "itable t = itable s" "lg t = lg s"
    "fs_ok {} t \<Longrightarrow> file_ok i s \<Longrightarrow> file_ok i t"
proof -
  show e: "sb t = sb s" "itable t = itable s" "lg t = lg s" using bufs_fs[OF t(1)] by auto
  show u: "used_blocks t = used_blocks s" "used_inodes t = used_inodes s" "meta_used t = meta_used s"
    by (simp_all add: meta_used_def in_use_def e t(2))
  show f: "fmap i t = fmap i s" by (rule ext) (simp add: fmap_def e t(2))
  show "space k t = space k s" by (simp add: space_def e)
  show tr: "tree_ok i t = tree_ok i s" by (simp add: tree_ok_def e u f)
  show "fs_ok {} t \<Longrightarrow> file_ok i s \<Longrightarrow> file_ok i t" by (simp add: file_ok_def e u tr)
  show "grows 0 i s t" by (rule grows_0[OF touched_fs[OF touched_bufs[OF t(1)]] t(2)])
qed

lemma block_entry_old:
  fixes s :: "'a fs_st_scheme"
  assumes ok: "fs_ok {} s" and b: "\<not> is_meta (sb s) b" "get32 (lview s b) (4 * k) \<noteq> 0"
  obtains t where "block_entry ROOTDEV b k s = Ok (get32 (lview s b) (4 * k), t)" "fs_ok {} t" "t = s\<lparr>bufs := bufs t\<rparr>" "lview t = lview s"
proof -
  obtain bp s1 where 1: "bread ROOTDEV b s = Ok (bp, s1)" "fs_ok {b} s1" "slot (bufs s1) b = Some bp" "lview s1 = lview s"
    "bdata bp s1 = lview s b" "s1 = s\<lparr>bufs := bufs s1\<rparr>" "b \<in> logged s1 \<or> lview s1 b = disk s1 b" by (rule data_bread[OF ok b(1)])
  obtain t where 2: "brelse bp s1 = Ok t" "fs_ok {} t" "lview t = lview s1" "t = s1\<lparr>bufs := bufs t\<rparr>" by (rule data_brelse[OF 1(2,3,7)])
  show ?thesis
  proof (rule that[OF _ 2(2)])
    show "t = s\<lparr>bufs := bufs t\<rparr>" by (subst 2(4), subst 1(6)) simp
  qed (use 1(1,4,5) 2(1,3) b(2) in \<open>simp_all add: block_entry_def\<close>)
qed

lemma entry_other: "j \<noteq> k \<Longrightarrow> get32 (put32 d (4 * k) x) (4 * j) = get32 d (4 * j)"
  by (rule get_put32_other(2)) arith

lemma block_entry_new:
  fixes s :: "'a fs_st_scheme"
  assumes ok: "file_ok i s" and v: "valid (r, ks @ [k])" and b: "b = fmap i s (r, ks)" "b \<noteq> 0" "fmap i s (r, ks @ [k]) = 0"
    and sp: "space (j + 4) s" and rm: "room 1 s"
  obtains n t where "block_entry ROOTDEV b k s = Ok (of_nat n, t)" "added i (r, ks @ [k]) n s t" "fs_ok {} t" "meta_used t" "space j t"
proof -
  note F = file_okD[OF ok] and D = fs_okD[OF file_okD(1)[OF ok]]
  note T = tree_okD[OF F(5) valid_prefix[OF v], folded b(1), OF b(2)]
  obtain bp s1 where 1: "bread ROOTDEV b s = Ok (bp, s1)" "fs_ok {b} s1" "slot (bufs s1) b = Some bp" "lview s1 = lview s"
    "bdata bp s1 = lview s b" "s1 = s\<lparr>bufs := bufs s1\<rparr>" "b \<in> logged s1 \<or> lview s1 b = disk s1 b" by (rule data_bread[OF F(1) T(2)])
  note C = cache_only[OF 1(6,4)]
  obtain n0 where n0: "n0 < unat (sb_size (sb s1))" "n0 \<notin> used_blocks s1" using room_free[of 0 s] rm by (auto simp: C(1,8))
  have sp1: "space (Suc j + 3) s1" unfolding C(7) by (rule space_mono[OF sp]) simp
  obtain n u d d' where u: "balloc ROOTDEV s1 = Ok (of_nat n, u)" "n < unat (sb_size (sb s1))" "n \<notin> used_blocks s1"
    "\<forall>m<n. m \<in> used_blocks s1" "fs_ok {b} u" "used_blocks u = insert n (used_blocks s1)" "used_inodes u = used_inodes s1" "meta_used u"
    "lview u = (lview s1)(BBLOCK (of_nat n) (sb s1) := d, 1 := d', of_nat n := memset (lview s1 (of_nat n)) 0 0 BSIZE)"
    "sb u = sb_freeblocks_update (\<lambda>c. c - 1) (sb s1)" "space (Suc j) u" "fs_touched s1 u"
    "\<forall>c\<in>{b}. slot (bufs u) c = slot (bufs s1) c" "\<not> is_meta (sb s1) (of_nat n)"
    by (rule balloc_ok[OF 1(2) _ _ n0 sp1]) (use T(1) F(2) C(1,3) in auto)
  have n: "n < unat (sb_size (sb s))" "n \<notin> used_blocks s" "\<not> is_meta (sb s) (of_nat n)" using u(2,3,14) by (simp_all add: C(1,8))
  have "unat (of_nat n :: u32) = n" using n(1) layout_okD(1)[OF D(2)] by (intro unat_small) simp
  then have bn: "b \<noteq> of_nat n" using T(1) n(2) by auto
  have sl: "slot (bufs u) b = Some bp" using u(13) 1(3) by simp
  have bd: "bdata bp u = lview s b"
    using bdata_lview[OF log_okD(1)[OF fs_okD(1)[OF u(5)]] _ sl] data_block[OF D(2) T(2) n(1)] bn by (simp add: u(9) 1(4) C(8))
  obtain t where t: "rbind (log_write bp (set_bdata bp (put32 (lview s b) (4 * k) (of_nat n)) u)) (brelse bp) = Ok t" "fs_ok {} t"
    "lview t = (lview u)(b := put32 (lview s b) (4 * k) (of_nat n))" "space j t" "touched u t" "sb t = sb u"
    "used_blocks t = used_blocks u" "used_inodes t = used_inodes u" "meta_used t = meta_used u" by (rule data_update[OF u(5) sl u(11)])
  have f: "fs_touched s t"
    by (rule fs_touched_trans[OF touched_fs[OF touched_bufs[OF 1(6)]] fs_touched_trans[OF u(12) touched_fs[OF t(5)]]])
  have lv: "lview t = (lview s)(BBLOCK (of_nat n) (sb s) := d, 1 := d', of_nat n := memset (lview s (of_nat n)) 0 0 BSIZE,
      b := put32 (lview s b) (4 * k) (of_nat n))" by (simp add: t(3) u(9) 1(4) C(8))
  have "used_blocks t = insert n (used_blocks s)" "used_inodes t = used_inodes s" using t(7,8) u(6,7) C(1,2) by simp_all
  then have "added i (r, ks @ [k]) n s t"
    by (intro added_intro[OF F(1,5) v b(3) _ n moved_touched[OF f]])
      (use b bn in \<open>auto simp: lv fs_touchedD(4)[OF f] memset_zero entry_other\<close>)
  moreover have "get32 (lview s b) (4 * k) = 0" using b by (simp add: fmap_snoc)
  then have "block_entry ROOTDEV b k s = Ok (of_nat n, t)" using 1(1,5) u(1) t(1) by (auto simp: block_entry_def bd)
  ultimately show ?thesis using that t(2,4,9) u(8) by blast
qed

lemma block_entry_ok:
  fixes s :: "'a fs_st_scheme"
  assumes ok: "file_ok i s" and v: "valid (r, ks @ [k])" and b: "b = fmap i s (r, ks)" "b \<noteq> 0"
    and sp: "space (j + 4) s" and rm: "room 1 s"
  obtains c t where "block_entry ROOTDEV b k s = Ok (c, t)" "c = fmap i t (r, ks @ [k])" "c \<noteq> 0" "file_ok i t"
    "grows 1 i s t" "space j t"
proof (cases "fmap i s (r, ks @ [k]) = 0")
  case False
  note F = file_okD[OF ok]
  have c: "fmap i s (r, ks @ [k]) = get32 (lview s b) (4 * k)" using b by (simp add: fmap_snoc)
  have m: "\<not> is_meta (sb s) b" using tree_okD(2)[OF F(5) valid_prefix[OF v]] b by simp
  obtain t where t: "block_entry ROOTDEV b k s = Ok (get32 (lview s b) (4 * k), t)" "fs_ok {} t" "t = s\<lparr>bufs := bufs t\<rparr>" "lview t = lview s"
    by (rule block_entry_old[OF F(1) m]) (use False c in simp)
  note C = cache_only[OF t(3,4)]
  have "grows 1 i s t" by (rule grows_mono[OF C(5)]) simp
  moreover have "space j t" using space_mono[OF sp, of j] by (simp add: C(7))
  ultimately show ?thesis using that t(1) C(4) C(11)[OF t(2) ok] c False by simp
next
  case True
  note F = file_okD[OF ok]
  obtain n t where t: "block_entry ROOTDEV b k s = Ok (of_nat n, t)" "added i (r, ks @ [k]) n s t" "fs_ok {} t" "meta_used t" "space j t"
    by (rule block_entry_new[OF ok v b True sp rm])
  note A = addedD[OF t(2)]
  note g = added_grows[OF t(2) F(5) fs_okD(2)[OF F(1)]]
  have "(of_nat n :: u32) \<noteq> 0" using data_block(1)[OF fs_okD(2)[OF F(1)] A(8,4)] .
  then show ?thesis
    using that[OF t(1) _ _ file_ok_moved[OF ok A(1) t(3,4) g(2)] g(1) t(5)] A(9)[OF v] by simp
qed

section \<open>\<open>bmap\<close>\<close>

text \<open>The way down from an entry of \<open>addrs\<close>.\<close>

fun descend :: "u32 \<Rightarrow> u32 \<Rightarrow> nat list \<Rightarrow> 'a fs_st_scheme \<Rightarrow> (u32 \<times> 'a fs_st_scheme) res" where
  "descend dev b [] s = Ok (b, s)"
| "descend dev b (k # ks) s = rbind (block_entry dev b k s) (\<lambda>(b, s). descend dev b ks s)"

lemma rbind_Ok_right [simp]: "rbind r Ok = r"
  by (cases r) auto

lemma bmap_tree_descend:
  assumes "unat bn < MAXFILE"
  shows "bmap_tree i bn s = rbind (addr_entry i (fst (pos (unat bn))) s) (\<lambda>(b, t). descend (i_dev (itable s i)) b (snd (pos (unat bn))) t)"
  using assms by (auto simp: bmap_tree_def pos_def Let_def MAXFILE_def split_def)

lemma descend_ok:
  fixes s :: "'a fs_st_scheme"
  assumes "file_ok i s" "valid (r, ls @ ks)" "b = fmap i s (r, ls)" "b \<noteq> 0" "space (j + 4 * length ks) s" "room (length ks) s"
  shows "\<exists>c t. descend ROOTDEV b ks s = Ok (c, t) \<and> c = fmap i t (r, ls @ ks) \<and> c \<noteq> 0 \<and> file_ok i t \<and>
    grows (length ks) i s t \<and> space j t"
  using assms
proof (induction ks arbitrary: ls b s)
  case Nil
  then show ?case using grows_0[OF fs_touched_refl, of s] by simp
next
  case (Cons k ks)
  have v: "valid (r, ls @ [k])" using Cons.prems(2) valid_prefix[of r "ls @ [k]" ks] by simp
  have sp: "space ((j + 4 * length ks) + 4) s" by (rule space_mono[OF Cons.prems(5)]) simp
  have rm: "room 1 s" using Cons.prems(6) by (simp add: room_def)
  obtain c t where t: "block_entry ROOTDEV b k s = Ok (c, t)" "c = fmap i t (r, ls @ [k])" "c \<noteq> 0" "file_ok i t"
    "grows 1 i s t" "space (j + 4 * length ks) t" by (rule block_entry_ok[OF Cons.prems(1) v Cons.prems(3,4) sp rm])
  have "room (length ks) t" by (rule room_grows[OF _ t(5)]) (use Cons.prems(6) in simp)
  from Cons.IH[OF t(4) _ t(2,3,6) this] Cons.prems(2) obtain d u where u: "descend ROOTDEV c ks t = Ok (d, u)"
    "d = fmap i u (r, ls @ k # ks)" "d \<noteq> 0" "file_ok i u" "grows (length ks) i t u" "space j u" by auto
  then show ?case using t(1) grows_trans[OF t(5) u(5)] by simp
qed

text \<open>The blocks that \<open>bmap\<close> may have to log to make a block of the file available.\<close>

definition cost :: "nat \<Rightarrow> nat" where
  "cost bn = 3 + 4 * length (snd (pos bn))"

lemma bmap_ok:
  fixes s :: "'a fs_st_scheme"
  assumes ok: "file_ok i s" and bn: "unat bn < MAXFILE" and sp: "space (j + cost (unat bn)) s" and rm: "room 4 s"
  obtains c t where "bmap i bn s = Ok (c, t)" "c = fmap i t (pos (unat bn))" "c \<noteq> 0" "file_ok i t" "grows 4 i s t" "space j t"
proof -
  note F = file_okD[OF ok]
  obtain r ks where p: "pos (unat bn) = (r, ks)" by force
  have v: "valid (r, ks)" "length ks \<le> 3" "r < NDIRECT + 3"
    using pos_leaf[OF bn] by (auto simp: p leaf_def valid_def level_def params)
  have sp1: "space ((j + 4 * length ks) + 3) s" by (rule space_mono[OF sp]) (simp add: cost_def p)
  have rm1: "room 1 s" using rm by (simp add: room_def)
  obtain b t where t: "addr_entry i r s = Ok (b, t)" "b = fmap i t (r, [])" "b \<noteq> 0" "file_ok i t" "grows 1 i s t" "space (j + 4 * length ks) t"
    by (rule addr_entry_ok[OF ok v(3) sp1 rm1])
  have rm2: "room (length ks) t" by (rule room_grows[OF _ t(5)]) (use v(2) rm in \<open>simp add: room_def\<close>)
  from descend_ok[OF t(4), of r "[]" ks, OF _ t(2,3,6) rm2] v(1) obtain c u where u: "descend ROOTDEV b ks t = Ok (c, u)"
    "c = fmap i u (r, ks)" "c \<noteq> 0" "file_ok i u" "grows (length ks) i t u" "space j u" by auto
  have "grows 4 i s u" by (rule grows_mono[OF grows_trans[OF t(5) u(5)]]) (use v(2) in simp)
  moreover have "bmap i bn s = Ok (c, u)"
    using F(3,4) t(1) u(1) by (simp add: bmap_def bmap_tree_descend[OF bn] p)
  ultimately show ?thesis using that u p by simp
qed

text \<open>A block that is there is found without a change of anything but the cache.\<close>

lemma descend_old:
  fixes s :: "'a fs_st_scheme"
  assumes "fs_ok {} s" "tree_ok i s" "valid (r, ls @ ks)" "b = fmap i s (r, ls)" "fmap i s (r, ls @ ks) \<noteq> 0"
  shows "\<exists>t. descend ROOTDEV b ks s = Ok (fmap i s (r, ls @ ks), t) \<and> fs_ok {} t \<and> t = s\<lparr>bufs := bufs t\<rparr> \<and> lview t = lview s"
  using assms
proof (induction ks arbitrary: ls b s)
  case Nil
  then show ?case by simp
next
  case (Cons k ks)
  have v: "valid (r, ls)" by (rule valid_prefix[OF Cons.prems(3)])
  have b: "b \<noteq> 0" using fmap_prefix[OF Cons.prems(5)] Cons.prems(4) by simp
  have c: "fmap i s (r, ls @ [k]) = get32 (lview s b) (4 * k)" using b Cons.prems(4) by (simp add: fmap_snoc)
  have nz: "get32 (lview s b) (4 * k) \<noteq> 0" using fmap_prefix[of i s r "ls @ [k]" ks] Cons.prems(5) c by simp
  have m: "\<not> is_meta (sb s) b" using tree_okD(2)[OF Cons.prems(2) v] Cons.prems(4) b by simp
  obtain t where t: "block_entry ROOTDEV b k s = Ok (get32 (lview s b) (4 * k), t)" "fs_ok {} t" "t = s\<lparr>bufs := bufs t\<rparr>" "lview t = lview s"
    by (rule block_entry_old[OF Cons.prems(1) m nz])
  note C = cache_only[OF t(3,4)]
  from Cons.IH[OF t(2), of "ls @ [k]" "get32 (lview s b) (4 * k)"] Cons.prems(2,3,5) C(4,6) c
  obtain u where u: "descend ROOTDEV (get32 (lview s b) (4 * k)) ks t = Ok (fmap i s (r, ls @ k # ks), u)" "fs_ok {} u"
    "u = t\<lparr>bufs := bufs u\<rparr>" "lview u = lview t" by auto
  have "u = s\<lparr>bufs := bufs u\<rparr>" by (subst u(3), subst t(3)) simp
  then show ?case using t(1,4) u(1,2,4) by simp
qed

lemma bmap_old:
  fixes s :: "'a fs_st_scheme"
  assumes ok: "fs_ok {} s" "tree_ok i s" "i_dev (itable s i) = ROOTDEV" "i_type (itable s i) \<noteq> T_EXTENT"
    and bn: "unat bn < MAXFILE" "fmap i s (pos (unat bn)) \<noteq> 0"
  obtains t where "bmap i bn s = Ok (fmap i s (pos (unat bn)), t)" "fs_ok {} t" "t = s\<lparr>bufs := bufs t\<rparr>" "lview t = lview s"
proof -
  obtain r ks where p: "pos (unat bn) = (r, ks)" by force
  have v: "valid (r, ks)" using pos_leaf[OF bn(1)] by (simp add: p leaf_def)
  have "fmap i s (r, []) \<noteq> 0" using fmap_prefix[of i s r "[]" ks] bn(2) p by simp
  then have "addr_entry i r s = Ok (fmap i s (r, []), s)" by (simp add: addr_entry_def)
  then show ?thesis
    using that descend_old[OF ok(1,2), of r "[]" ks "fmap i s (r, [])"] v bn(2) ok(3,4)
    by (auto simp: bmap_def bmap_tree_descend[OF bn(1)] p)
qed

end
