(* ===== verification/Content.thy ===== *)
theory Content
  imports Filemap
begin

text \<open>
  The content of a file: \<open>readi\<close>, \<open>writei\<close> and \<open>iupdate\<close> of \<open>kernel/fs.c\<close> on files with pointers.

  \<open>fbyte i s k\<close> is byte \<open>k\<close> of the file of inode \<open>i\<close>.  \<open>readi\<close> delivers a range of these bytes to
  its destination (user memory, physical memory or an object of the kernel) and changes
  nothing else; \<open>writei\<close> changes a range of them to the bytes of its source, allocates the
  blocks that are missing, leaves the other files alone and writes the inode to its block.
\<close>

section \<open>Sources and destinations\<close>

text \<open>
  \<open>sendable\<close>: \<open>either_copyout\<close> to this location succeeds for \<open>n\<close> bytes.  \<open>sent\<close>: the bytes \<open>xs\<close> are
  there, in the object of the kernel \<open>kb'\<close> or in the memory of \<open>t\<close>.
\<close>

fun sendable :: "loc \<Rightarrow> nat \<Rightarrow> 'a kmach_scheme \<Rightarrow> bool" where
  "sendable (User a) n s = deliverable (p_pagetable (myproc s)) a n s"
| "sendable (Phys a) n s = (unat a + n < 2 ^ 64)"
| "sendable (Obj i) n s = True"

fun sent :: "loc \<Rightarrow> byte list \<Rightarrow> bytes \<Rightarrow> 'a kmach_scheme \<Rightarrow> bytes \<Rightarrow> 'a kmach_scheme \<Rightarrow> bool" where
  "sent (User a) xs kb s kb' t = (kb' = kb \<and> delivered (p_pagetable (myproc s)) a xs s t)"
| "sent (Phys a) xs kb s kb' t = (kb' = kb \<and> mem t = put_bytes (mem s) (unat a) xs)"
| "sent (Obj i) xs kb s kb' t = (kb' = put_bytes kb i xs \<and> mem t = mem s)"

lemma put_bytes_append: "put_bytes (put_bytes d i xs) (i + length xs) ys = put_bytes d i (xs @ ys)"
  by (auto simp: put_bytes_def fun_eq_iff nth_append)

lemma put_bytes_Nil [simp]: "put_bytes d i [] = d"
  by (auto simp: put_bytes_def fun_eq_iff)

lemma copy_bytes_eq: "copy_bytes a xs s = s\<lparr>mem := put_bytes (mem s) a xs\<rparr>"
  by (simp add: copy_bytes_def put_bytes_def)

lemma unat_plus: "unat (a :: u64) + m < 2 ^ 64 \<Longrightarrow> unat (a + of_nat m) = unat a + m"
  by (simp add: unat_word_ariths unat_of_nat)

lemma either_copyout_ok:
  assumes "sendable dst n s" "length xs \<le> n"
  shows "\<exists>kb' t. either_copyout dst xs kb s = (0, kb', t) \<and> t = s\<lparr>mem := mem t\<rparr> \<and> sent dst xs kb s kb' t"
proof (cases dst)
  case (User a)
  then show ?thesis using copyout_delivers[of "p_pagetable (myproc s)" a n s xs] assms by auto
qed (auto simp: copy_bytes_eq put_bytes_def)

lemma sendable_next:
  assumes "sendable dst n s" "sent dst xs kb s kb' t" "length xs \<le> n" "myproc t = myproc s"
  shows "sendable (loc_plus dst (length xs)) (n - length xs) t"
  using assms deliverable_next[of "p_pagetable (myproc s)" _ n s xs t] by (cases dst) (auto simp: unat_plus)

lemma sent_append:
  assumes "sendable dst (length xs + length ys) s" "sent dst xs kb s kb1 t" "sent (loc_plus dst (length xs)) ys kb1 t kb2 u"
    and "myproc t = myproc s"
  shows "sent dst (xs @ ys) kb s kb2 u"
  using assms delivered_append[of "p_pagetable (myproc s)" _ xs ys s t u]
  by (cases dst) (auto simp: unat_plus put_bytes_append)

lemma sendable_mem: "mem t = mem s \<Longrightarrow> myproc t = myproc s \<Longrightarrow> sendable dst n s \<Longrightarrow> sendable dst n t"
  using deliverable_mem[of s t] by (cases dst) auto

lemma sent_mem:
  "mem s' = mem s \<Longrightarrow> myproc s' = myproc s \<Longrightarrow> mem t' = mem t \<Longrightarrow> sent dst xs kb s kb' t \<Longrightarrow> sent dst xs kb s' kb' t'"
  using delivered_mem[of s s' t t'] by (cases dst) auto

lemma sent_Nil: "mem t = mem s \<Longrightarrow> sent dst [] kb s kb t"
  by (cases dst) (auto simp: delivered_Nil)

text \<open>A part of what can be read from a source can be read.\<close>

fun receivable :: "loc \<Rightarrow> nat \<Rightarrow> bool" where
  "receivable (Phys a) n = (unat a + n < 2 ^ 64)"
| "receivable _ n = True"

lemma either_copyin_length: "either_copyin src n kb s = (0, xs) \<Longrightarrow> length xs = n"
  by (cases src) (auto simp: copyin_iff read_bytes_def)

lemma either_copyin_part:
  assumes x: "either_copyin src n kb s = (0, xs)" and k: "k + m \<le> n" and r: "receivable src n"
  shows "either_copyin (loc_plus src k) m kb s = (0, take m (drop k xs))"
proof (cases src)
  case (User a)
  then have u: "length xs = n" "\<forall>j<n. ubyte (p_pagetable (myproc s)) s (a + of_nat j) = Some (xs ! j)" using x by (auto simp: copyin_iff)
  have "ubyte (p_pagetable (myproc s)) s (a + of_nat k + of_nat j) = Some (xs ! (k + j))" if "j < m" for j
    using u(2)[rule_format, of "k + j"] k that by (simp add: add.assoc)
  then show ?thesis using User u(1) k by (auto simp: copyin_iff)
next
  case (Phys a)
  then have "xs = read_bytes (unat a) n s" "unat (a + of_nat k) = unat a + k" using x r k by (auto simp: unat_plus)
  then show ?thesis using Phys k by (auto simp: read_bytes_def take_map drop_map)
next
  case (Obj i)
  then have "xs = map kb [i..<i + n]" using x by simp
  then show ?thesis using Obj k by (auto simp: take_map drop_map)
qed

lemma either_copyin_mem: "mem t = mem s \<Longrightarrow> myproc t = myproc s \<Longrightarrow> either_copyin src n kb t = either_copyin src n kb s"
  using copyin_mem[of t s] by (cases src) (auto simp: read_bytes_def)

section \<open>The bytes of a file\<close>

definition fbyte :: "nat \<Rightarrow> 'a fs_st_scheme \<Rightarrow> nat \<Rightarrow> byte" where
  "fbyte i s k = fblock i s (k div BSIZE) (k mod BSIZE)"

text \<open>The first \<open>n\<close> bytes of the file have their blocks.\<close>

definition dense :: "nat \<Rightarrow> 'a fs_st_scheme \<Rightarrow> nat \<Rightarrow> bool" where
  "dense i s n \<longleftrightarrow> (\<forall>k<n. fmap i s (pos (k div BSIZE)) \<noteq> 0)"

definition readable :: "nat \<Rightarrow> 'a fs_st_scheme \<Rightarrow> bool" where
  "readable i s \<longleftrightarrow> fs_ok {} s \<and> tree_ok i s \<and> i_dev (itable s i) = ROOTDEV \<and> i_type (itable s i) \<noteq> T_EXTENT"

text \<open>Only the cache and the memory changed.\<close>

definition only_read :: "'a fs_st_scheme \<Rightarrow> 'a fs_st_scheme \<Rightarrow> bool" where
  "only_read s t \<longleftrightarrow> t = s\<lparr>bufs := bufs t, mem := mem t\<rparr> \<and> lview t = lview s"

lemma only_read_trans: "only_read s t \<Longrightarrow> only_read t u \<Longrightarrow> only_read s u"
  unfolding only_read_def by (cases s, cases t, cases u) auto

lemma only_read_bufs: "t = s\<lparr>bufs := bufs t\<rparr> \<Longrightarrow> lview t = lview s \<Longrightarrow> only_read s t"
  unfolding only_read_def by (cases s, cases t) auto

lemma only_read_refl: "only_read s s"
  by (simp add: only_read_def)

lemma only_readD:
  assumes "only_read s t"
  shows "sb t = sb s" "itable t = itable s" "lg t = lg s" "myproc t = myproc s" "fmap i t = fmap i s" "fbyte i t = fbyte i s"
    "dense i t = dense i s" "in_use lim blk t = in_use lim blk s" "fs_ok {} t \<Longrightarrow> readable i s \<Longrightarrow> readable i t" "disk t = disk s"
proof -
  have t: "t = s\<lparr>bufs := bufs t, mem := mem t\<rparr>" and l: "lview t = lview s" using assms by (simp_all add: only_read_def)
  show e: "sb t = sb s" "itable t = itable s" "lg t = lg s" "myproc t = myproc s" "disk t = disk s" by (subst t, simp add: myproc_def)+
  show f: "fmap i t = fmap i s" by (rule ext) (simp add: fmap_def e l)
  show "fbyte i t = fbyte i s" by (rule ext) (simp add: fbyte_def fblock_def Let_def f l)
  show "dense i t = dense i s" by (rule ext) (simp add: dense_def f)
  show u: "in_use lim blk t = in_use lim blk s" for lim :: "superblock \<Rightarrow> u32" and blk by (simp add: in_use_def e l)
  show "fs_ok {} t \<Longrightarrow> readable i s \<Longrightarrow> readable i t" by (simp add: readable_def tree_ok_def e f u)
qed

lemma views_mem [simp]:
  "lview (s\<lparr>mem := x\<rparr>) = lview s" "logged (s\<lparr>mem := x\<rparr>) = logged s" "log_ok H (s\<lparr>mem := x\<rparr>) = log_ok H s"
  by (rule log_ok_cong; simp add: myproc_def)+

lemma fs_ok_mem [simp]: "fs_ok H (s\<lparr>mem := x\<rparr>) = fs_ok H s"
  by (simp add: fs_ok_def)

section \<open>Reading\<close>

declare readi_loop.simps [simp del] writei_loop.simps [simp del]

lemma block_number: "off < MAXFILE * BSIZE \<Longrightarrow> unat (of_nat (off div BSIZE) :: u32) = off div BSIZE \<and> off div BSIZE < MAXFILE"
  by (simp add: unat_of_nat MAXFILE_def params less_mult_imp_div_less)

lemma pos_valid: "k < MAXFILE * BSIZE \<Longrightarrow> valid (pos (k div BSIZE))"
  using pos_leaf[of "k div BSIZE"] block_number[of k] by (simp add: leaf_def)

lemma div_mod_add: "x < b \<Longrightarrow> (q * b + x) div b = q \<and> (q * b + x) mod b = (x :: nat)"
  by simp

lemma div_mod_same_block:
  assumes "k < BSIZE - off mod BSIZE"
  shows "(off + k) div BSIZE = off div BSIZE \<and> (off + k) mod BSIZE = off mod BSIZE + k"
proof -
  have e: "off div BSIZE * BSIZE + (off mod BSIZE + k) = off + k" using div_mult_mod_eq[of off BSIZE] by linarith
  have "off mod BSIZE + k < BSIZE" using assms by simp
  from div_mod_add[OF this, of "off div BSIZE"] show ?thesis unfolding e .
qed

text \<open>The bytes of one round lie in one block.\<close>

lemma round_bytes:
  assumes "m \<le> BSIZE - off mod BSIZE" "fmap i s (pos (off div BSIZE)) \<noteq> 0"
  shows "map (lview s (fmap i s (pos (off div BSIZE)))) [off mod BSIZE..<off mod BSIZE + m] = map (fbyte i s) [off..<off + m]"
proof -
  have "(off + k) div BSIZE = off div BSIZE \<and> (off + k) mod BSIZE = off mod BSIZE + k" if "k < m" for k
    by (rule div_mod_same_block[OF order_less_le_trans[OF that assms(1)]])
  then show ?thesis using assms(2) by (intro nth_equalityI) (auto simp: fbyte_def fblock_def)
qed

lemma readi_round:
  fixes s :: "'a fs_st_scheme"
  assumes R: "readable i s" and off: "off < MAXFILE * BSIZE" "fmap i s (pos (off div BSIZE)) \<noteq> 0"
    and m: "m = min (n - tot) (BSIZE - off mod BSIZE)" "tot < n" and snd: "sendable dst (n - tot) s"
  obtains kb' t where "readi_loop i dst kb off n tot s = readi_loop i (loc_plus dst m) kb' (off + m) n (tot + m) t"
    "readable i t" "only_read s t" "sent dst (map (fbyte i s) [off..<off + m]) kb s kb' t"
proof -
  note F = R[unfolded readable_def]
  let ?b = "fmap i s (pos (off div BSIZE))"
  have nb: "unat (of_nat (off div BSIZE) :: u32) = off div BSIZE" "off div BSIZE < MAXFILE" using block_number[OF off(1)] by auto
  have v: "valid (pos (off div BSIZE))" using pos_leaf[OF nb(2)] by (simp add: leaf_def)
  obtain s1 where 1: "bmap i (of_nat (off div BSIZE)) s = Ok (?b, s1)" "fs_ok {} s1" "s1 = s\<lparr>bufs := bufs s1\<rparr>" "lview s1 = lview s"
    using bmap_old[of s i "of_nat (off div BSIZE)"] F off(2) nb by auto
  have o1: "only_read s s1" by (rule only_read_bufs[OF 1(3,4)])
  note E1 = only_readD[OF o1]
  have "\<not> is_meta (sb s1) ?b" using tree_okD(2)[of i s "pos (off div BSIZE)"] F v off(2) E1(1) by simp
  then obtain bp s2 where 2: "bread ROOTDEV ?b s1 = Ok (bp, s2)" "fs_ok {?b} s2" "slot (bufs s2) ?b = Some bp" "lview s2 = lview s1"
    "bdata bp s2 = lview s1 ?b" "s2 = s1\<lparr>bufs := bufs s2\<rparr>" "?b \<in> logged s2 \<or> lview s2 ?b = disk s2 ?b" by (rule data_bread[OF 1(2)])
  have o2: "only_read s s2" by (rule only_read_trans[OF o1 only_read_bufs[OF 2(6,4)]])
  have m2: "mem s2 = mem s" by (subst 2(6), subst 1(3)) simp
  let ?xs = "map (fbyte i s) [off..<off + m]"
  have xs: "map (bdata bp s2) [off mod BSIZE..<off mod BSIZE + m] = ?xs"
    unfolding 2(5) 1(4) by (rule round_bytes[OF _ off(2)]) (simp add: m(1))
  have "sendable dst (n - tot) s2" by (rule sendable_mem[OF m2 only_readD(4)[OF o2] snd])
  from either_copyout_ok[OF this, of ?xs kb] m obtain kb' s3 where 3: "either_copyout dst ?xs kb s2 = (0, kb', s3)"
    "s3 = s2\<lparr>mem := mem s3\<rparr>" "sent dst ?xs kb s2 kb' s3" by auto
  have s3: "bufs s3 = bufs s2" "disk s3 = disk s2" "lview s3 = lview s2" "logged s3 = logged s2" "fs_ok {?b} s3"
    by (subst 3(2), simp add: 2(2))+
  have o3: "only_read s s3" using o2 s3(1,3) 3(2) unfolding only_read_def by (cases s, cases s2, cases s3) auto
  obtain t where 4: "brelse bp s3 = Ok t" "fs_ok {} t" "lview t = lview s3" "t = s3\<lparr>bufs := bufs t\<rparr>"
    by (rule data_brelse[OF s3(5)]) (use 2(3,7) s3 in auto)
  have ot: "only_read s t" by (rule only_read_trans[OF o3 only_read_bufs[OF 4(4,3)]])
  have "mem t = mem s3" by (subst 4(4)) simp
  then have "sent dst ?xs kb s kb' t" using sent_mem[OF _ _ _ 3(3), of s t] m2 only_readD(4)[OF o2] by simp
  moreover have "readi_loop i dst kb off n tot s = readi_loop i (loc_plus dst m) kb' (off + m) n (tot + m) t"
    using m(2) 1(1) 2(1) F E1(2) 3(1) 4(1) by (subst readi_loop.simps) (simp add: Let_def xs flip: m(1))
  ultimately show ?thesis using that only_readD(9)[OF ot 4(2) R] ot by blast
qed

lemma readi_loop_ok:
  fixes s :: "'a fs_st_scheme"
  assumes "tot \<le> n" "readable i s" "off + (n - tot) \<le> MAXFILE * BSIZE" "dense i s (off + (n - tot))" "sendable dst (n - tot) s"
  shows "\<exists>kb' t. readi_loop i dst kb off n tot s = Ok (sint (of_nat n :: u32), kb', t) \<and> readable i t \<and> only_read s t \<and>
    sent dst (map (fbyte i s) [off..<off + (n - tot)]) kb s kb' t"
  using assms
proof (induction "n - tot" arbitrary: tot off dst kb s rule: less_induct)
  case less
  show ?case
  proof (cases "tot < n")
    case False
    then show ?thesis using less.prems only_read_refl[of s] by (subst readi_loop.simps) (auto simp: sent_Nil)
  next
    case True
    define m where "m = min (n - tot) (BSIZE - off mod BSIZE)"
    have m: "0 < m" "m \<le> n - tot" using True by (auto simp: m_def params)
    then have l: "tot + m \<le> n" "n - (tot + m) < n - tot" using True by linarith+
    have o': "off < MAXFILE * BSIZE" "fmap i s (pos (off div BSIZE)) \<noteq> 0"
      using less.prems(3,4) True by (auto simp: dense_def)
    obtain kb1 t where t: "readi_loop i dst kb off n tot s = readi_loop i (loc_plus dst m) kb1 (off + m) n (tot + m) t"
      "readable i t" "only_read s t" "sent dst (map (fbyte i s) [off..<off + m]) kb s kb1 t"
      by (rule readi_round[OF less.prems(2) o' m_def True less.prems(5)])
    note E = only_readD[OF t(3)]
    have "sendable (loc_plus dst m) (n - tot - m) t"
      using sendable_next[OF less.prems(5) t(4) _ E(4)] m by simp
    then obtain kb2 u where u: "readi_loop i (loc_plus dst m) kb1 (off + m) n (tot + m) t = Ok (sint (of_nat n :: u32), kb2, u)"
      "readable i u" "only_read t u" "sent (loc_plus dst m) (map (fbyte i t) [off + m..<off + m + (n - (tot + m))]) kb1 t kb2 u"
      using less.hyps[of "tot + m" t "off + m" "loc_plus dst m" kb1] m l less.prems(3,4) t(2) E(7) by (auto simp: diff_diff_left)
    have "off + m + (n - (tot + m)) = off + (n - tot)" using m by simp
    then have c: "map (fbyte i s) [off..<off + m] @ map (fbyte i t) [off + m..<off + m + (n - (tot + m))] =
      map (fbyte i s) [off..<off + (n - tot)]"
      using upt_add_eq_append[of off "off + m" "n - tot - m"] m by (simp add: E(6))
    have "sent dst (map (fbyte i s) [off..<off + m] @ map (fbyte i t) [off + m..<off + m + (n - (tot + m))]) kb s kb2 u"
      by (rule sent_append[OF _ t(4) _ E(4)]) (use u(4) m less.prems(5) in simp_all)
    then have "sent dst (map (fbyte i s) [off..<off + (n - tot)]) kb s kb2 u" unfolding c .
    then show ?thesis using t(1) u(1,2) only_read_trans[OF t(3) u(3)] by simp
  qed
qed

lemma sint_small: "m < 2 ^ 31 \<Longrightarrow> sint (of_nat m :: u32) = int m"
  by (simp add: signed_of_nat signed_take_bit_int_eq_self)

text \<open>The first bytes up to the size of the file are what \<open>readi\<close> can deliver.\<close>

lemma readi_ok:
  fixes s :: "'a fs_st_scheme"
  assumes R: "readable i s" and d: "dense i s (unat (i_size (itable s i)))"
    and off: "off \<le> i_size (itable s i)" "off \<le> off + n"
    and m: "m = min (unat n) (unat (i_size (itable s i)) - unat off)" "m < 2 ^ 31" and snd: "sendable dst m s"
  obtains kb' t where "readi i dst kb off n s = Ok (int m, kb', t)" "readable i t" "only_read s t"
    "sent dst (map (fbyte i s) [unat off..<unat off + m]) kb s kb' t"
proof -
  let ?sz = "i_size (itable s i)"
  let ?n = "if off + n > ?sz then ?sz - off else n"
  have u: "unat (off + n) = unat off + unat n"
    using off(2) unfolding no_olen_add_nat by (simp add: unat_word_ariths)
  have n: "unat ?n = m"
    using off(1) u by (auto simp: m(1) word_less_nat_alt word_le_nat_alt unat_sub)
  have b: "unat off + m \<le> unat ?sz" using m(1) off(1) by (auto simp: word_le_nat_alt)
  moreover have "4294967296 \<le> MAXFILE * BSIZE" by (simp add: MAXFILE_def params)
  ultimately have "unat off + (m - 0) \<le> MAXFILE * BSIZE" using unat_bounds(3)[of ?sz] by linarith
  moreover have "dense i s (unat off + (m - 0))" using d b by (auto simp: dense_def)
  moreover have "sendable dst (m - 0) s" using snd by simp
  ultimately obtain kb' t where t: "readi_loop i dst kb (unat off) m 0 s = Ok (sint (of_nat m :: u32), kb', t)" "readable i t" "only_read s t"
    "sent dst (map (fbyte i s) [unat off..<unat off + (m - 0)]) kb s kb' t"
    using readi_loop_ok[OF le0 R] by blast
  have "sint (of_nat m :: u32) = int m" by (rule sint_small[OF m(2)])
  moreover have "readi i dst kb off n s = readi_loop i dst kb (unat off) (unat ?n) 0 s"
    using leD[OF off(1)] leD[OF off(2)] by (simp only: readi_def Let_def simp_thms if_False)
  ultimately have "readi i dst kb off n s = Ok (int m, kb', t)" using t(1) unfolding n by simp
  then show ?thesis using that t(2-4) by simp
qed

section \<open>Writing\<close>

text \<open>The positions of a file stay where they are when its pointer blocks do not change.\<close>

lemma fmap_same:
  assumes "\<And>q. valid q \<Longrightarrow> \<not> leaf q \<Longrightarrow> fmap i s q \<noteq> 0 \<Longrightarrow> lview t (fmap i s q) = lview s (fmap i s q)"
    and "i_addrs (itable t i) = i_addrs (itable s i)"
  shows "valid (r, ks) \<Longrightarrow> fmap i t (r, ks) = fmap i s (r, ks)"
proof (induction ks rule: rev_induct)
  case Nil
  then show ?case using assms(2) by simp
next
  case (snoc k ks)
  note v = valid_prefix[OF snoc.prems]
  show ?case using snoc.IH[OF v] assms(1)[OF v not_leaf[OF snoc.prems]] by (simp add: fmap_snoc)
qed

lemma fmap_same': 
  assumes "\<And>q. valid q \<Longrightarrow> \<not> leaf q \<Longrightarrow> fmap i s q \<noteq> 0 \<Longrightarrow> lview t (fmap i s q) = lview s (fmap i s q)"
    and "i_addrs (itable t i) = i_addrs (itable s i)" "valid q"
  shows "fmap i t q = fmap i s q"
  using fmap_same[OF assms(1,2), of "fst q" "snd q"] assms(3) by simp

text \<open>A change of one data block of a file.\<close>

lemma leaf_write:
  fixes s :: "'a fs_st_scheme"
  assumes ok: "file_ok i s" and p: "leaf p" "fmap i s p \<noteq> 0"
    and t: "lview t = (lview s)(fmap i s p := d)" "touched s t" "fs_ok {} t" "used_blocks t = used_blocks s"
      "used_inodes t = used_inodes s" "meta_used t"
  shows "file_ok i t" "extends 0 i s t" "valid q \<Longrightarrow> fmap i t q = fmap i s q"
    "bn < MAXFILE \<Longrightarrow> fblock i t bn = (if pos bn = p then d else fblock i s bn)"
proof -
  note F = file_okD[OF ok]
  have v: "valid p" using p(1) by (simp add: leaf_def)
  note T = tree_okD[OF F(5) v p(2)]
  have e: "sb t = sb s" "itable t = itable s" using touched_same_sb[OF t(2)] touched_same_itable[OF t(2)] by auto
  have o': "lview t b = lview s b" if "b \<noteq> fmap i s p" for b using that by (simp add: t(1))
  have f: "fmap i t q = fmap i s q" if q: "valid q" for q
  proof (rule fmap_same'[OF _ _ q])
    fix q' assume q': "valid q'" "\<not> leaf q'" "fmap i s q' \<noteq> 0"
    then have "fmap i s p \<noteq> fmap i s q'" using T(3)[OF q'(1)] p(1) by blast
    then show "lview t (fmap i s q') = lview s (fmap i s q')" using o' by metis
  qed (simp add: e)
  then show "valid q \<Longrightarrow> fmap i t q = fmap i s q" .
  have m: "moved i s t" by (rule moved_touched[OF touched_fs[OF t(2)]])
  have tr: "tree_ok i t" unfolding tree_ok_def using F(5)[unfolded tree_ok_def] by (auto simp: f e t(4))
  show "file_ok i t" by (rule file_ok_moved[OF ok m t(3,6) tr])
  have n: "lview t (IBLOCK (of_nat n) (sb s)) = lview s (IBLOCK (of_nat n) (sb s))" if "n < unat (sb_ninodes (sb s))" for n
    using blocks_meta(3)[OF fs_okD(2)[OF F(1)] that] T(2) by (intro o') metis
  have l: "lview t b = lview s b" if "\<forall>q. valid q \<longrightarrow> fmap i s q \<noteq> b" for b using o'[of b] that[rule_format, OF v] by auto
  show "extends 0 i s t"
    unfolding extends_def t(4,5)
  proof (intro conjI)
    show "\<forall>p. valid p \<longrightarrow> fmap i s p = 0 \<longrightarrow> fmap i t p = 0 \<or> unat (fmap i t p) \<notin> used_blocks s" using f by metis
  qed (use m f l n in \<open>fast | simp\<close>)+
  show "fblock i t bn = (if pos bn = p then d else fblock i s bn)" if bn: "bn < MAXFILE"
  proof -
    have w: "valid (pos bn)" using pos_leaf[OF bn] by (simp add: leaf_def)
    have "fmap i s (pos bn) \<noteq> fmap i s p" if "pos bn \<noteq> p" using T(3)[OF w] that by metis
    then show ?thesis using p(2) f[OF w] by (auto simp: fblock_def Let_def t(1))
  qed
qed

text \<open>The bytes of the file that one round of the loop is about.\<close>

lemma in_round:
  assumes "m \<le> BSIZE - off mod BSIZE"
  shows "off \<le> k \<and> k < off + m \<longleftrightarrow> k div BSIZE = off div BSIZE \<and> off mod BSIZE \<le> k mod BSIZE \<and> k mod BSIZE < off mod BSIZE + m"
    "off \<le> k \<Longrightarrow> k div BSIZE = off div BSIZE \<Longrightarrow> k mod BSIZE - off mod BSIZE = k - off"
proof -
  have d: "k div BSIZE * BSIZE + k mod BSIZE = k" "off div BSIZE * BSIZE + off mod BSIZE = off" by simp_all
  have k: "off div BSIZE * BSIZE + k mod BSIZE = k" if "k div BSIZE = off div BSIZE" using d(1) unfolding that .
  show 1: "k mod BSIZE - off mod BSIZE = k - off" if "off \<le> k" "k div BSIZE = off div BSIZE" using k[OF that(2)] d(2) by linarith
  show "off \<le> k \<and> k < off + m \<longleftrightarrow> k div BSIZE = off div BSIZE \<and> off mod BSIZE \<le> k mod BSIZE \<and> k mod BSIZE < off mod BSIZE + m"
  proof
    assume a: "off \<le> k \<and> k < off + m"
    then have "k - off < BSIZE - off mod BSIZE" using assms by linarith
    then have "k div BSIZE = off div BSIZE" "k mod BSIZE = off mod BSIZE + (k - off)"
      using div_mod_same_block[of "k - off" off] a by simp_all
    then show "k div BSIZE = off div BSIZE \<and> off mod BSIZE \<le> k mod BSIZE \<and> k mod BSIZE < off mod BSIZE + m" using a by linarith
  next
    assume a: "k div BSIZE = off div BSIZE \<and> off mod BSIZE \<le> k mod BSIZE \<and> k mod BSIZE < off mod BSIZE + m"
    then have "off div BSIZE * BSIZE + k mod BSIZE = k" using k by blast
    then show "off \<le> k \<and> k < off + m" using a d(2) by linarith
  qed
qed

lemma writei_round:
  fixes s :: "'a fs_st_scheme"
  assumes ok: "file_ok i s" and off: "off < MAXFILE * BSIZE" and m: "m = min (n - tot) (BSIZE - off mod BSIZE)" "tot < n"
    and sp: "space (j + (cost (off div BSIZE) + 1)) s" and rm: "room 4 s" and xs: "either_copyin src m kb s = (0, xs)"
  obtains t where "writei_loop i src kb off n tot s = writei_loop i (loc_plus src m) kb (off + m) n (tot + m) t"
    "file_ok i t" "extends 4 i s t" "space j t" "fmap i t (pos (off div BSIZE)) \<noteq> 0"
    "\<forall>k<MAXFILE * BSIZE. fbyte i t k = (if off \<le> k \<and> k < off + m then xs ! (k - off) else fbyte i s k)"
proof -
  define bn where "bn = off div BSIZE"
  have nb: "unat (of_nat bn :: u32) = bn" "bn < MAXFILE" using block_number[OF off] by (auto simp: bn_def)
  have sp1: "space (Suc j + cost (unat (of_nat bn :: u32))) s" by (rule space_mono[OF sp]) (simp add: nb flip: bn_def)
  obtain b s1 where 1: "bmap i (of_nat bn) s = Ok (b, s1)" "b = fmap i s1 (pos (unat (of_nat bn :: u32)))" "b \<noteq> 0" "file_ok i s1"
    "grows 4 i s s1" "space (Suc j) s1" by (rule bmap_ok[OF ok _ sp1 rm]) (use nb in simp)
  note F = file_okD[OF 1(4)]
  have b: "b = fmap i s1 (pos bn)" using 1(2) nb by simp
  have lf: "leaf (pos bn)" "valid (pos bn)" using pos_leaf[OF nb(2)] by (auto simp: leaf_def)
  have "\<not> is_meta (sb s1) b" using tree_okD(2)[OF F(5) lf(2)] 1(3) b by simp
  then obtain bp s2 where 2: "bread ROOTDEV b s1 = Ok (bp, s2)" "fs_ok {b} s2" "slot (bufs s2) b = Some bp" "lview s2 = lview s1"
    "bdata bp s2 = lview s1 b" "s2 = s1\<lparr>bufs := bufs s2\<rparr>" "b \<in> logged s2 \<or> lview s2 b = disk s2 b" by (rule data_bread[OF F(1)])
  note C = cache_only[OF 2(6,4)]
  note mv = movedD[OF extendsD(1)[OF growsD(1)[OF 1(5)]]]
  have "mem s2 = mem s1" "myproc s2 = myproc s1" by (subst 2(6), simp)+
  then have x2: "either_copyin src m kb s2 = (0, xs)" using either_copyin_mem[of s2 s] mv(4,5) xs by simp
  let ?d = "put_bytes (lview s1 b) (off mod BSIZE) xs"
  obtain t where t: "rbind (log_write bp (set_bdata bp ?d s2)) (brelse bp) = Ok t" "fs_ok {} t" "lview t = (lview s2)(b := ?d)"
    "space j t" "touched s2 t" "sb t = sb s2" "used_blocks t = used_blocks s2" "used_inodes t = used_inodes s2" "meta_used t = meta_used s2"
    by (rule data_update[OF 2(2,3)]) (use 1(6) C(7) in simp)
  have tt: "touched s1 t" by (rule touched_trans[OF touched_bufs[OF 2(6)] t(5)])
  note L = leaf_write[OF 1(4) lf(1), folded b, OF 1(3) _ tt t(2), of ?d]
  have L': "file_ok i t" "extends 0 i s1 t" "valid q \<Longrightarrow> fmap i t q = fmap i s1 q"
    "bn' < MAXFILE \<Longrightarrow> fblock i t bn' = (if pos bn' = pos bn then ?d else fblock i s1 bn')" for q bn'
    by (rule L; use t(3,7-9) C(1-3) 2(4) F(2) in simp)+
  have len: "length xs = m" using either_copyin_length[OF xs] .
  have fb: "fbyte i t k = (if off \<le> k \<and> k < off + m then xs ! (k - off) else fbyte i s k)" if k: "k < MAXFILE * BSIZE" for k
  proof -
    have kn: "k div BSIZE < MAXFILE" "k mod BSIZE < BSIZE" using block_number[OF k] by (auto simp: params)
    have m': "m \<le> BSIZE - off mod BSIZE" using m(1) by simp
    show ?thesis
      using in_round[OF m', of k] L'(4)[OF kn(1)] growsD(2)[OF 1(5) kn] pos_inj[of "k div BSIZE" bn] 1(3) b
      by (auto simp: fbyte_def put_bytes_def len bn_def fblock_def)
  qed
  have eq: "writei_loop i src kb off n tot s = writei_loop i (loc_plus src m) kb (off + m) n (tot + m) t"
    using m(2) 1(1) 2(1,5) F(3) x2 t(1) by (subst writei_loop.simps) (auto simp: Let_def simp flip: m(1) bn_def)
  have "extends 4 i s t" using extends_trans[OF growsD(1)[OF 1(5)] L'(2)] by simp
  then show ?thesis using that[OF eq L'(1) _ t(4)] fb L'(3)[OF lf(2)] 1(3) b by (simp add: bn_def)
qed

text \<open>The blocks of the file that a range of bytes touches, and the blocks they may cost in the log.\<close>

definition touch :: "nat \<Rightarrow> nat \<Rightarrow> nat set" where
  "touch off n = (\<lambda>k. (off + k) div BSIZE) ` {..<n}"

definition wcost :: "nat \<Rightarrow> nat \<Rightarrow> nat" where
  "wcost off n = (\<Sum>bn\<in>touch off n. cost bn + 1)"

lemma touch_round:
  assumes m: "m = min n (BSIZE - off mod BSIZE)" and n: "0 < n"
  shows "touch off n = insert (off div BSIZE) (touch (off + m) (n - m))" "off div BSIZE \<notin> touch (off + m) (n - m)"
proof -
  have lo: "(off + k) div BSIZE = off div BSIZE" if "k < m" for k
    using div_mod_same_block[of k off] that m by simp
  have m0: "0 < m" "m \<le> n" using m n by (auto simp: params)
  have split: "{..<n} = {..<m} \<union> (\<lambda>k. m + k) ` {..<n - m}"
  proof -
    have "k \<in> (\<lambda>k. m + k) ` {..<n - m}" if "k < n" "\<not> k < m" for k using that by (intro image_eqI[of _ _ "k - m"]) auto
    then show ?thesis using m0 by auto
  qed
  have "(\<lambda>k. (off + k) div BSIZE) ` {..<m} = {off div BSIZE}" using lo m0 by auto
  then show "touch off n = insert (off div BSIZE) (touch (off + m) (n - m))"
    unfolding touch_def split image_Un image_image by (simp add: add.assoc)
  have "off div BSIZE < (off + m + k) div BSIZE" if "k < n - m" for k
  proof -
    have "m = BSIZE - off mod BSIZE" using m that by simp
    moreover have "off mod BSIZE < BSIZE" by (simp add: params)
    moreover have "(off div BSIZE + 1) * BSIZE = off div BSIZE * BSIZE + BSIZE" by simp
    ultimately have "off + m = (off div BSIZE + 1) * BSIZE" using div_mult_mod_eq[of off BSIZE] by linarith
    then have "(off + m) div BSIZE = off div BSIZE + 1" by (simp add: params)
    then show ?thesis using div_le_mono[of "off + m" "off + m + k" BSIZE] by simp
  qed
  then show "off div BSIZE \<notin> touch (off + m) (n - m)" unfolding touch_def by force
qed

lemma touch_finite [simp]: "finite (touch off n)"
  by (simp add: touch_def)

lemma wcost_round:
  assumes "m = min n (BSIZE - off mod BSIZE)" "0 < n"
  shows "wcost off n = cost (off div BSIZE) + 1 + wcost (off + m) (n - m)"
    "card (touch off n) = Suc (card (touch (off + m) (n - m)))"
  using touch_round[OF assms] by (simp_all add: wcost_def)

lemma writei_loop_ok:
  fixes s :: "'a fs_st_scheme"
  assumes "tot \<le> n" "file_ok i s" "off + (n - tot) \<le> MAXFILE * BSIZE" "space (j + wcost off (n - tot)) s"
    "room (4 * card (touch off (n - tot))) s" "either_copyin src (n - tot) kb s = (0, xs)" "receivable src (n - tot)"
  shows "\<exists>t. writei_loop i src kb off n tot s = Ok (off + (n - tot), n, t) \<and> file_ok i t \<and>
    extends (4 * card (touch off (n - tot))) i s t \<and> space j t \<and>
    (\<forall>bn\<in>touch off (n - tot). fmap i t (pos bn) \<noteq> 0) \<and>
    (\<forall>k<MAXFILE * BSIZE. fbyte i t k = (if off \<le> k \<and> k < off + (n - tot) then xs ! (k - off) else fbyte i s k))"
  using assms
proof (induction "n - tot" arbitrary: tot off src s xs rule: less_induct)
  case less
  show ?case
  proof (cases "tot < n")
    case False
    then show ?thesis
      using less.prems grows_0[OF fs_touched_refl refl, of i s] by (subst writei_loop.simps) (auto simp: grows_def touch_def wcost_def)
  next
    case True
    define m where "m = min (n - tot) (BSIZE - off mod BSIZE)"
    have m: "0 < m" "m \<le> n - tot" using True by (auto simp: m_def params)
    then have l: "tot + m \<le> n" "n - (tot + m) < n - tot" "n - tot - m = n - (tot + m)" using True by linarith+
    have p: "0 < n - tot" using True by simp
    note W = wcost_round[OF m_def p, unfolded l(3)] and R = touch_round[OF m_def p, unfolded l(3)]
    have len: "length xs = n - tot" by (rule either_copyin_length[OF less.prems(6)])
    have x1: "either_copyin src m kb s = (0, take m xs)"
      using either_copyin_part[OF less.prems(6), of 0 m] m less.prems(7) by (cases src) auto
    have x2: "either_copyin (loc_plus src m) (n - (tot + m)) kb s = (0, drop m xs)"
      using either_copyin_part[OF less.prems(6), of m "n - (tot + m)"] m l(3) less.prems(7) len by simp
    have o': "off < MAXFILE * BSIZE" using less.prems(3) True by simp
    have sp: "space (j + wcost (off + m) (n - (tot + m)) + (cost (off div BSIZE) + 1)) s"
      by (rule space_mono[OF less.prems(4)]) (simp add: W(1))
    have rm: "room 4 s" "room (4 * card (touch (off + m) (n - (tot + m))) + 4) s" using less.prems(5) W(2) by (simp_all add: room_def)
    obtain t where t: "writei_loop i src kb off n tot s = writei_loop i (loc_plus src m) kb (off + m) n (tot + m) t"
      "file_ok i t" "extends 4 i s t" "space (j + wcost (off + m) (n - (tot + m))) t" "fmap i t (pos (off div BSIZE)) \<noteq> 0"
      "\<forall>k<MAXFILE * BSIZE. fbyte i t k = (if off \<le> k \<and> k < off + m then take m xs ! (k - off) else fbyte i s k)"
      by (rule writei_round[OF less.prems(2) o' m_def True sp rm(1) x1])
    note mv = movedD[OF extendsD(1)[OF t(3)]]
    have b: "off + m + (n - (tot + m)) \<le> MAXFILE * BSIZE" using less.prems(3) l by linarith
    have x3: "either_copyin (loc_plus src m) (n - (tot + m)) kb t = (0, drop m xs)" using either_copyin_mem[of t s] mv(4,5) x2 by simp
    have rc: "receivable (loc_plus src m) (n - (tot + m))" using less.prems(7) m l by (cases src) (auto simp: unat_plus)
    from less.hyps[OF l(2,1) t(2) b t(4) room_extends[OF rm(2) t(3)] x3 rc]
    obtain u where u: "writei_loop i (loc_plus src m) kb (off + m) n (tot + m) t = Ok (off + m + (n - (tot + m)), n, u)" "file_ok i u"
      "extends (4 * card (touch (off + m) (n - (tot + m)))) i t u" "space j u" "\<forall>bn\<in>touch (off + m) (n - (tot + m)). fmap i u (pos bn) \<noteq> 0"
      "\<forall>k<MAXFILE * BSIZE. fbyte i u k = (if off + m \<le> k \<and> k < off + m + (n - (tot + m)) then drop m xs ! (k - (off + m)) else fbyte i t k)"
      by blast
    have e: "off + m + (n - (tot + m)) = off + (n - tot)" using l by linarith
    have "valid (pos (off div BSIZE))" by (rule pos_valid[OF o'])
    then have z: "\<forall>bn\<in>touch off (n - tot). fmap i u (pos bn) \<noteq> 0" using u(5) extendsD(5)[OF u(3) _ t(5)] t(5) by (auto simp: R(1))
    have f: "fbyte i u k = (if off \<le> k \<and> k < off + (n - tot) then xs ! (k - off) else fbyte i s k)" if "k < MAXFILE * BSIZE" for k
      using u(6)[rule_format, OF that] t(6)[rule_format, OF that] len m unfolding e by (auto simp: nth_drop)
    have "4 + 4 * card (touch (off + m) (n - (tot + m))) = 4 * card (touch off (n - tot))" by (simp add: W(2))
    then show ?thesis using t(1) u(1,2,4) z f extends_trans[OF t(3) u(3)] unfolding e by simp
  qed
qed

section \<open>The inode on the disk\<close>

definition dinode_of :: "'a fs_st_scheme \<Rightarrow> u32 \<Rightarrow> dinode" where
  "dinode_of s n = get_dinode (lview s (IBLOCK n (sb s))) (dip_off n)"

text \<open>What \<open>iupdate\<close> stores; beyond the \<open>NDIRECT + 3\<close> pointers there is nothing.\<close>

definition stored :: "inode \<Rightarrow> dinode" where
  "stored x = (to_dinode x)\<lparr>d_addrs := (\<lambda>k. if k < NDIRECT + 3 then i_addrs x k else 0)\<rparr>"

lemma put_words_cong: "(\<And>k. k < n \<Longrightarrow> a k = b k) \<Longrightarrow> put_words n d o' a = put_words n d o' b"
  by (induction n) auto

lemma get_stored: "get_dinode (put_dinode d o' (to_dinode x)) o' = stored x"
proof -
  have "put_words (NDIRECT + 3) e p (i_addrs x) = put_words (NDIRECT + 3) e p (\<lambda>k. if k < NDIRECT + 3 then i_addrs x k else 0)" for e p
    by (rule put_words_cong) simp
  then have "put_dinode d o' (to_dinode x) = put_dinode d o' (stored x)" by (simp add: put_dinode_def stored_def to_dinode_def)
  then show ?thesis using get_put_dinode[of "stored x" d o'] by (simp add: stored_def)
qed

lemma inode_slots:
  assumes "n < 2 ^ 31" "m < 2 ^ 31" "n \<noteq> m" "IBLOCK (of_nat n) x = IBLOCK (of_nat m) x"
  shows "dip_off (of_nat n) + DINODE_SIZE \<le> dip_off (of_nat m) \<or> dip_off (of_nat m) + DINODE_SIZE \<le> dip_off (of_nat n)"
proof -
  have i: "IPB = 8" by (simp add: IPB_def params DINODE_SIZE_def)
  have u: "unat (of_nat n :: u32) = n" "unat (of_nat m :: u32) = m" using unat_small assms(1,2) by blast+
  have "unat ((of_nat n :: u32) div of_nat IPB) = unat ((of_nat m :: u32) div of_nat IPB)" using assms(4) by (simp add: IBLOCK_def)
  then have d: "n div 8 = m div 8" by (simp add: unat_div u i)
  then have "n mod 8 \<noteq> m mod 8" using assms(3) div_mod_unique[of n 8 m] by blast
  then show ?thesis by (auto simp: dip_off_def u i DINODE_SIZE_def)
qed

lemma iupdate_ok:
  fixes s :: "'a fs_st_scheme"
  assumes ok: "fs_ok {} s" and i: "i_dev (itable s i) = ROOTDEV" "unat (i_inum (itable s i)) < unat (sb_ninodes (sb s))"
    and sp: "space (Suc j) s"
  obtains t where "iupdate i s = Ok t" "fs_ok {} t" "touched s t" "space j t" "used_blocks t = used_blocks s"
    "used_inodes t = used_inodes s" "\<forall>b. \<not> is_meta (sb s) b \<longrightarrow> lview t b = lview s b"
    "\<forall>n<unat (sb_ninodes (sb s)). dinode_of t (of_nat n) =
       (if of_nat n = i_inum (itable s i) then stored (itable s i) else dinode_of s (of_nat n))"
proof -
  note D = fs_okD[OF ok]
  define k where "k = unat (i_inum (itable s i))"
  have k: "i_inum (itable s i) = of_nat k" "k < unat (sb_ninodes (sb s))" using i(2) by (simp_all add: k_def)
  note L = layout_okD[OF D(2)]
  let ?b = "IBLOCK (of_nat k) (sb s)" and ?f = "\<lambda>d. put_dinode d (dip_off (of_nat k)) (to_dinode (itable s i))"
  obtain t where t: "bupdate ROOTDEV ?b ?f s = Ok t" "log_ok {} t" "lview t = (lview s)(?b := ?f (lview s ?b))" "space j t"
    "touched s t" "logged t = insert ?b (logged s)" "\<forall>c\<in>{}. slot (bufs t) c = slot (bufs s) c"
    by (rule bupdate_ok[OF D(1) _ _ sp, of ?b ?f]) (use L(6)[OF k(2)] D(3) in simp_all)
  have e: "sb t = sb s" by (rule touched_same_sb[OF t(5)])
  have ub: "used_blocks t = used_blocks s"
    by (rule blocks_unchanged[OF D(2)]) (use L(8)[OF k(2)] in \<open>auto simp: e t(3)\<close>)
  have ui: "used_inodes t = used_inodes s"
    by (rule inodes_unchanged[OF D(2)]) (use L(9)[OF k(2)] in \<open>auto simp: e t(3)\<close>)
  have m: "\<not> is_meta (sb s) b \<longrightarrow> lview t b = lview s b" for b using blocks_meta(3)[OF D(2) k(2)] by (auto simp: t(3))
  have d: "dinode_of t (of_nat n) = (if of_nat n = (of_nat k :: u32) then stored (itable s i) else dinode_of s (of_nat n))"
    if n: "n < unat (sb_ninodes (sb s))" for n
  proof -
    have n31: "n < 2 ^ 31" "k < 2 ^ 31" using n k(2) L(2) by linarith+
    then have "of_nat n = (of_nat k :: u32) \<longleftrightarrow> n = k" using unat_small[of n] unat_small[of k] by metis
    moreover have "get_dinode (?f (lview s ?b)) (dip_off (of_nat n)) = get_dinode (lview s ?b) (dip_off (of_nat n))"
      if "n \<noteq> k" "IBLOCK (of_nat n) (sb s) = ?b"
      using get_put_dinode_other inode_slots[OF n31(2,1) _ that(2)[symmetric]] that(1) by metis
    ultimately show ?thesis by (auto simp: dinode_of_def e t(3) get_stored)
  qed
  have "iupdate i s = Ok t" using t(1) by (simp add: iupdate_def i(1) k(1))
  moreover have "fs_ok {} t" by (rule fs_ok_touched[OF t(2) touched_fs[OF t(5)] ok]) simp
  ultimately show ?thesis using that t(4,5) ub ui m d by (simp add: k(1))
qed

lemma iupdate_file:
  fixes s :: "'a fs_st_scheme"
  assumes ok: "file_ok i s" and t: "touched s t" "fs_ok {} t" "used_blocks t = used_blocks s"
      "\<forall>b. \<not> is_meta (sb s) b \<longrightarrow> lview t b = lview s b"
  shows "file_ok i t" "k < MAXFILE * BSIZE \<Longrightarrow> fbyte i t k = fbyte i s k" "valid q \<Longrightarrow> fmap i t q = fmap i s q"
proof -
  note F = file_okD[OF ok]
  have e: "sb t = sb s" "itable t = itable s" using touched_same_sb[OF t(1)] touched_same_itable[OF t(1)] by auto
  have l: "lview t (fmap i s q) = lview s (fmap i s q)" if "valid q" "fmap i s q \<noteq> 0" for q
    using t(4) tree_okD(2)[OF F(5) that] by blast
  show f: "valid q \<Longrightarrow> fmap i t q = fmap i s q" for q by (rule fmap_same') (use l e in auto)
  have tr: "tree_ok i t" unfolding tree_ok_def using F(5)[unfolded tree_ok_def] by (auto simp: f e t(3))
  have mu: "meta_used t" using F(2) by (simp add: meta_used_def e t(3))
  show "file_ok i t" by (rule file_ok_moved[OF ok moved_touched[OF touched_fs[OF t(1)]] t(2) mu tr])
  show "fbyte i t k = fbyte i s k" if k: "k < MAXFILE * BSIZE"
  proof -
    have v: "valid (pos (k div BSIZE))" by (rule pos_valid[OF k])
    show ?thesis using f[OF v] l[OF v] by (auto simp: fbyte_def fblock_def Let_def)
  qed
qed

section \<open>\<open>writei\<close>\<close>

text \<open>
  The effect of writing the bytes \<open>xs\<close> at position \<open>off\<close> of file \<open>i\<close>: the content and the size of
  the file, its inode in memory and on the disk; and what did not change: the other inodes in
  memory and on the disk, the data blocks of the other files and the memory.
\<close>

definition rewritten :: "nat \<Rightarrow> nat \<Rightarrow> byte list \<Rightarrow> 'a fs_st_scheme \<Rightarrow> 'a fs_st_scheme \<Rightarrow> bool" where
  "rewritten i off xs s t \<longleftrightarrow>
     (\<forall>k<MAXFILE * BSIZE. fbyte i t k = (if off \<le> k \<and> k < off + length xs then xs ! (k - off) else fbyte i s k)) \<and>
     itable t = (itable s)(i := (itable s i)\<lparr>i_addrs := i_addrs (itable t i),
       i_size := of_nat (max (unat (i_size (itable s i))) (off + length xs))\<rparr>) \<and>
     (\<forall>n<unat (sb_ninodes (sb s)). dinode_of t (of_nat n) =
        (if of_nat n = i_inum (itable s i) then stored (itable t i) else dinode_of s (of_nat n))) \<and>
     (\<forall>b. \<not> is_meta (sb s) b \<longrightarrow> unat b \<in> used_blocks s \<longrightarrow> (\<forall>p. valid p \<longrightarrow> fmap i s p \<noteq> b) \<longrightarrow> lview t b = lview s b) \<and>
     used_blocks s \<subseteq> used_blocks t \<and> used_inodes t = used_inodes s \<and> fs_touched (s\<lparr>itable := itable t\<rparr>) t"

lemma rewrittenD:
  assumes "rewritten i off xs s t"
  shows "k < MAXFILE * BSIZE \<Longrightarrow> fbyte i t k = (if off \<le> k \<and> k < off + length xs then xs ! (k - off) else fbyte i s k)"
    "i_size (itable t i) = of_nat (max (unat (i_size (itable s i))) (off + length xs))"
    "j \<noteq> i \<Longrightarrow> itable t j = itable s j" "itable t i = (itable s i)\<lparr>i_addrs := i_addrs (itable t i), i_size := i_size (itable t i)\<rparr>"
    "n < unat (sb_ninodes (sb s)) \<Longrightarrow> dinode_of t (of_nat n) =
        (if of_nat n = i_inum (itable s i) then stored (itable t i) else dinode_of s (of_nat n))"
    "fs_touched (s\<lparr>itable := itable t\<rparr>) t" "used_inodes t = used_inodes s"
proof -
  show "n < unat (sb_ninodes (sb s)) \<Longrightarrow> dinode_of t (of_nat n) =
        (if of_nat n = i_inum (itable s i) then stored (itable t i) else dinode_of s (of_nat n))"
    "fs_touched (s\<lparr>itable := itable t\<rparr>) t" "used_inodes t = used_inodes s"
    using assms unfolding rewritten_def by blast+
  show "k < MAXFILE * BSIZE \<Longrightarrow> fbyte i t k = (if off \<le> k \<and> k < off + length xs then xs ! (k - off) else fbyte i s k)"
    using assms unfolding rewritten_def by blast
  have e: "itable t = (itable s)(i := (itable s i)\<lparr>i_addrs := i_addrs (itable t i),
      i_size := of_nat (max (unat (i_size (itable s i))) (off + length xs))\<rparr>)" using assms unfolding rewritten_def by blast
  show "i_size (itable t i) = of_nat (max (unat (i_size (itable s i))) (off + length xs))"
    "j \<noteq> i \<Longrightarrow> itable t j = itable s j" by (subst e, simp)+
  then show "itable t i = (itable s i)\<lparr>i_addrs := i_addrs (itable t i), i_size := i_size (itable t i)\<rparr>" by (subst e) simp
qed

lemma resize:
  fixes s :: "'a fs_st_scheme"
  assumes t: "t = set_inode i (\<lambda>x. x\<lparr>i_size := z\<rparr>) s"
  shows "file_ok i t = file_ok i s" "fmap i t = fmap i s" "fbyte i t = fbyte i s" "dinode_of t = dinode_of s"
    "lview t = lview s" "sb t = sb s" "in_use lim blk t = in_use lim blk s" "space k t = space k s" "mem t = mem s" "myproc t = myproc s"
    "itable t = (itable s)(i := (itable s i)\<lparr>i_size := z\<rparr>)"
proof -
  have e: "t = s\<lparr>itable := (itable s)(i := (itable s i)\<lparr>i_size := z\<rparr>)\<rparr>" by (simp add: t set_inode_def)
  show v: "lview t = lview s" "sb t = sb s" "in_use lim blk t = in_use lim blk s" "space k t = space k s" "mem t = mem s"
    "myproc t = myproc s" "itable t = (itable s)(i := (itable s i)\<lparr>i_size := z\<rparr>)"
    for k and lim :: "superblock \<Rightarrow> u32" and blk by (simp_all add: e myproc_def)
  show f: "fmap i t = fmap i s" by (rule ext) (simp add: fmap_def v)
  show "file_ok i t = file_ok i s" by (simp add: file_ok_def tree_ok_def f v(2,3,7)) (simp add: e)
  show "fbyte i t = fbyte i s" "dinode_of t = dinode_of s" by (rule ext, simp add: fbyte_def fblock_def dinode_of_def f v Let_def)+
qed

lemma new_size:
  assumes "n < 2 ^ 32" "i_size (itable t i) = z"
  shows "(if of_nat n > z then set_inode i (\<lambda>x. x\<lparr>i_size := of_nat n\<rparr>) t else t) =
    set_inode i (\<lambda>x. x\<lparr>i_size := of_nat (max (unat z) n)\<rparr>) t"
proof -
  have u: "unat (of_nat n :: u32) = n" using assms(1) by (simp add: unat_of_nat)
  show ?thesis
  proof (cases "unat z < n")
    case True
    then show ?thesis using u by (simp add: word_less_nat_alt max_def)
  next
    case False
    have "itable t = (itable t)(i := (itable t i)\<lparr>i_size := z\<rparr>)" using assms(2) by (simp add: fun_eq_iff)
    then have "set_inode i (\<lambda>x. x\<lparr>i_size := z\<rparr>) t = t" by (simp add: set_inode_def)
    then show ?thesis using False u by (simp add: word_less_nat_alt max_def)
  qed
qed

text \<open>The end of \<open>writei\<close>: the new size and the inode on the disk.\<close>

lemma write_back:
  fixes s :: "'a fs_st_scheme"
  assumes X: "extends c i s s1" and ok: "file_ok i s1" and sp: "space (Suc j) s1"
    and inum: "unat (i_inum (itable s i)) < unat (sb_ninodes (sb s))"
    and fb: "\<forall>k<MAXFILE * BSIZE. fbyte i s1 k = (if off \<le> k \<and> k < off + length xs then xs ! (k - off) else fbyte i s k)"
    and z: "z = of_nat (max (unat (i_size (itable s i))) (off + length xs))"
  obtains t where "iupdate i (set_inode i (\<lambda>x. x\<lparr>i_size := z\<rparr>) s1) = Ok t" "file_ok i t" "space j t" "rewritten i off xs s t"
    "\<forall>q. valid q \<longrightarrow> fmap i t q = fmap i s1 q" "i_size (itable t i) = z"
proof -
  note X = extendsD[OF X]
  note mv = movedD[OF X(1)] and G = geom_eqD[OF movedD(1)[OF X(1)]]
  define s2 where "s2 = set_inode i (\<lambda>x. x\<lparr>i_size := z\<rparr>) s1"
  note R = resize[OF s2_def]
  obtain a where a: "itable s1 = (itable s)(i := (itable s i)\<lparr>i_addrs := a\<rparr>)" using X(1) unfolding moved_def by blast
  have it2: "itable s2 = (itable s)(i := (itable s i)\<lparr>i_addrs := a, i_size := z\<rparr>)" by (simp add: R(11) a)
  have ok2: "file_ok i s2" using ok R(1) by simp
  obtain t where t: "iupdate i s2 = Ok t" "fs_ok {} t" "touched s2 t" "space j t" "used_blocks t = used_blocks s2"
    "used_inodes t = used_inodes s2" "\<forall>b. \<not> is_meta (sb s2) b \<longrightarrow> lview t b = lview s2 b"
    "\<forall>n<unat (sb_ninodes (sb s2)). dinode_of t (of_nat n) =
       (if of_nat n = i_inum (itable s2 i) then stored (itable s2 i) else dinode_of s2 (of_nat n))"
    by (rule iupdate_ok[of s2 i j]) (use file_okD(1,3)[OF ok2] sp inum R(6,8) it2 G(2) in simp_all)
  note U = iupdate_file[OF ok2 t(3,2,5,7)]
  have itt: "itable t = itable s2" by (rule touched_same_itable[OF t(3)])
  have d1: "dinode_of s1 (of_nat n) = dinode_of s (of_nat n)" if "n < unat (sb_ninodes (sb s))" for n
    using X(8)[OF that] by (simp add: dinode_of_def G)
  have rw: "rewritten i off xs s t"
    unfolding rewritten_def
  proof (intro conjI allI impI)
    fix k assume "k < MAXFILE * BSIZE"
    then show "fbyte i t k = (if off \<le> k \<and> k < off + length xs then xs ! (k - off) else fbyte i s k)" using U(2) fb by (simp add: R(3))
  next
    show "itable t = (itable s)(i := (itable s i)\<lparr>i_addrs := i_addrs (itable t i), i_size := of_nat (max (unat (i_size (itable s i))) (off + length xs))\<rparr>)"
      using it2 by (simp add: itt z)
  next
    fix n assume "n < unat (sb_ninodes (sb s))"
    then show "dinode_of t (of_nat n) = (if of_nat n = i_inum (itable s i) then stored (itable t i) else dinode_of s (of_nat n))"
      using t(8) d1 by (simp add: R(4,6) G(2) itt) (simp add: it2)
  next
    fix c assume c: "\<not> is_meta (sb s) c" "unat c \<in> used_blocks s" "\<forall>p. valid p \<longrightarrow> fmap i s p \<noteq> c"
    then have "lview s1 c = lview s c" using X(7) by blast
    then show "lview t c = lview s c" using t(7) c(1) is_meta_geom[OF mv(1)] by (simp add: R(5,6))
  next
    have "fs_touched (s\<lparr>itable := itable s1, itable := itable s2\<rparr>) (s1\<lparr>itable := itable s2\<rparr>)"
      using X(1) unfolding moved_def by (intro fs_touched_itable) blast
    then have "fs_touched (s\<lparr>itable := itable s2\<rparr>) s2" by (simp add: s2_def set_inode_def)
    from fs_touched_trans[OF this touched_fs[OF t(3)]] show "fs_touched (s\<lparr>itable := itable t\<rparr>) t" by (simp add: itt)
  qed (use X(2,4) t(5,6) R(7) in simp_all)
  have "i_size (itable t i) = z" by (simp add: itt it2)
  then show ?thesis using that[OF t(1)[unfolded s2_def] U(1) t(4) rw] U(3) by (simp add: R(2))
qed

lemma dense_extends:
  assumes X: "extends c i s t" and d: "dense i s m" and new: "\<forall>bn\<in>touch off n. fmap i t (pos bn) \<noteq> 0"
    and off: "off \<le> m" "m \<le> MAXFILE * BSIZE" "off + n \<le> MAXFILE * BSIZE"
  shows "dense i t (max m (off + n))"
  unfolding dense_def
proof (intro allI impI)
  fix k assume k: "k < max m (off + n)"
  then have "k < MAXFILE * BSIZE" using off by auto
  then have v: "valid (pos (k div BSIZE))" by (rule pos_valid)
  show "fmap i t (pos (k div BSIZE)) \<noteq> 0"
  proof (cases "k < m")
    case True
    then have "fmap i s (pos (k div BSIZE)) \<noteq> 0" using d by (simp add: dense_def)
    then show ?thesis using extendsD(5)[OF X v] by simp
  next
    case False
    then have "k - off < n" "k = off + (k - off)" using k off(1) by auto
    then have "k div BSIZE \<in> touch off n" unfolding touch_def by (metis imageI lessThan_iff)
    then show ?thesis using new by blast
  qed
qed

lemma writei_ok:
  fixes s :: "'a fs_st_scheme"
  assumes ok: "file_ok i s" and off: "off \<le> i_size (itable s i)" "unat off + length xs < 2 ^ 32" "length xs < 2 ^ 31"
    and inum: "unat (i_inum (itable s i)) < unat (sb_ninodes (sb s))"
    and sp: "space (Suc j + wcost (unat off) (length xs)) s" and rm: "room (4 * card (touch (unat off) (length xs))) s"
    and src: "either_copyin src (length xs) kb s = (0, xs)" "receivable src (length xs)"
  obtains t where "writei i src kb off (of_nat (length xs)) s = Ok (int (length xs), t)" "file_ok i t" "space j t"
    "rewritten i (unat off) xs s t" "dense i s (unat (i_size (itable s i))) \<longrightarrow> dense i t (unat (i_size (itable t i)))"
proof -
  let ?n = "length xs" and ?sz = "i_size (itable s i)"
  have un: "unat (of_nat ?n :: u32) = ?n" by (rule unat_small) (use off(3) in simp)
  have mx: "4294967296 \<le> MAXFILE * BSIZE" by (simp add: MAXFILE_def params)
  have uo: "unat (off + of_nat ?n) = unat off + ?n" using off(2) by (simp add: unat_word_ariths un)
  have g: "\<not> (off > ?sz \<or> off + of_nat ?n < off)" "\<not> MAXFILE * BSIZE < unat (off + of_nat ?n)"
    using off(1) uo mx off(2) by (auto simp: word_less_nat_alt word_le_nat_alt)
  have b: "unat off + (?n - 0) \<le> MAXFILE * BSIZE" using off(2) mx by simp
  from writei_loop_ok[OF le0 ok b, of "Suc j" src kb xs] sp rm src obtain s1 where 1:
    "writei_loop i src kb (unat off) ?n 0 s = Ok (unat off + ?n, ?n, s1)" "file_ok i s1"
    "extends (4 * card (touch (unat off) ?n)) i s s1" "space (Suc j) s1" "\<forall>bn\<in>touch (unat off) ?n. fmap i s1 (pos bn) \<noteq> 0"
    "\<forall>k<MAXFILE * BSIZE. fbyte i s1 k = (if unat off \<le> k \<and> k < unat off + ?n then xs ! (k - unat off) else fbyte i s k)" by auto
  define z where "z = (of_nat (max (unat ?sz) (unat off + ?n)) :: u32)"
  have z: "unat z = max (unat ?sz) (unat off + ?n)" using off(2) unat_bounds(3)[of ?sz] by (simp add: z_def unat_of_nat)
  have s2: "(if of_nat (unat off + ?n) > i_size (itable s1 i) then set_inode i (\<lambda>x. x\<lparr>i_size := of_nat (unat off + ?n)\<rparr>) s1 else s1) =
      set_inode i (\<lambda>x. x\<lparr>i_size := z\<rparr>) s1"
    unfolding movedD(10)[OF extendsD(1)[OF 1(3)]] z_def by (rule new_size[OF off(2) movedD(10)[OF extendsD(1)[OF 1(3)]]])
  obtain t where t: "iupdate i (set_inode i (\<lambda>x. x\<lparr>i_size := z\<rparr>) s1) = Ok t" "file_ok i t" "space j t" "rewritten i (unat off) xs s t"
    "\<forall>q. valid q \<longrightarrow> fmap i t q = fmap i s1 q" "i_size (itable t i) = z" by (rule write_back[OF 1(3,2,4) inum 1(6) z_def])
  have w: "writei i src kb off (of_nat ?n) s = Ok (int ?n, t)"
    unfolding writei_def if_not_P[OF g(1)] if_not_P[OF g(2)] un 1(1) rbind_simps prod.case Let_def s2 t(1)
    by (simp add: sint_small[OF off(3)])
  have zm: "unat z \<le> MAXFILE * BSIZE" using unat_bounds(3)[of z] mx by linarith
  have "dense i s1 (unat z)" if "dense i s (unat ?sz)"
    unfolding z by (rule dense_extends[OF 1(3) that 1(5)]) (use off zm z mx unat_bounds(3)[of ?sz] in \<open>auto simp: word_le_nat_alt\<close>)
  moreover have "fmap i t (pos (k div BSIZE)) = fmap i s1 (pos (k div BSIZE))" if "k < unat z" for k
    using t(5)[rule_format, OF pos_valid[of k]] that zm by linarith
  then have "dense i t (unat z) = dense i s1 (unat z)" by (simp add: dense_def)
  ultimately show ?thesis using that[OF w t(2-4)] t(6) by simp
qed

section \<open>An example\<close>

text \<open>The file system of \<open>some_fs\<close> with an empty file in the first entry of the inode table.\<close>

definition some_inode :: inode where
  "some_inode = zero_inode\<lparr>i_dev := ROOTDEV, i_inum := 1, i_ref := 1, i_valid := True, i_type := T_FILE, i_nlink := 1,
     i_rwmode := RW, i_showmode := 1\<rparr>"

definition some_file :: "'a \<Rightarrow> 'a fs_st_scheme" where
  "some_file m = (some_fs m)\<lparr>itable := (\<lambda>_. zero_inode)(0 := some_inode)\<rparr>"

lemma some_file_fmap: "fmap 0 (some_file m) p = 0"
  by (simp add: fmap_def some_file_def some_inode_def zero_inode_def)

lemma some_file_ok:
  "file_ok 0 (some_file m)" "space 44 (some_file m)" "room 10 (some_file m)" "i_size (itable (some_file m) 0) = 0"
  "unat (i_inum (itable (some_file m) 0)) < unat (sb_ninodes (sb (some_file m)))" "dense 0 (some_file m) 0"
  using some_fs_ok[of m] some_fs_inv(1)[of m] some_fs_sb[of m] some_used[of m]
  by (simp_all add: file_ok_def tree_ok_def some_file_fmap room_def dense_def)
    (simp_all add: some_file_def some_inode_def zero_inode_def T_FILE_def T_EXTENT_def)

lemma touch_first: "0 < n \<Longrightarrow> n \<le> BSIZE \<Longrightarrow> touch 0 n = {0}" "0 < n \<Longrightarrow> n \<le> BSIZE \<Longrightarrow> wcost 0 n = 4"
proof -
  show t: "touch 0 n = {0}" if "0 < n" "n \<le> BSIZE" using that by (auto simp: touch_def)
  show "wcost 0 n = 4" if "0 < n" "n \<le> BSIZE" using t[OF that] by (simp add: wcost_def cost_def pos_def NDIRECT_def)
qed

section \<open>Properties\<close>

text \<open>
  (C15) \<open>bmap\<close> on a file with pointers finds the block of the disk for a block of the file, at any
  of the four levels.  If there is none yet it allocates one, with the pointer blocks on the
  way; no block then belongs to two places, the content of the file is the same, and the
  blocks of all other files and of the inodes are as before.
\<close>

theorem bmap_spec:
  assumes "file_ok i s" "unat bn < MAXFILE" "space (j + cost (unat bn)) s" "room 4 s"
  shows "\<exists>b t. bmap i bn s = Ok (b, t) \<and> b \<noteq> 0 \<and> b = fmap i t (pos (unat bn)) \<and> file_ok i t \<and> space j t \<and>
    (fmap i s (pos (unat bn)) \<noteq> 0 \<longrightarrow> b = fmap i s (pos (unat bn))) \<and> grows 4 i s t"
proof -
  obtain b t where t: "bmap i bn s = Ok (b, t)" "b = fmap i t (pos (unat bn))" "b \<noteq> 0" "file_ok i t" "grows 4 i s t" "space j t"
    by (rule bmap_ok[OF assms])
  have "valid (pos (unat bn))" using pos_leaf[OF assms(2)] by (simp add: leaf_def)
  then show ?thesis using t extendsD(5)[OF growsD(1)[OF t(5)]] by auto
qed

text \<open>Block 100000 of the empty file, below three pointer blocks.\<close>

theorem bmap_spec_witness:
  "\<exists>b t. bmap 0 100000 (some_file ()) = Ok (b, t) \<and> b \<noteq> 0 \<and> b = fmap 0 t (14, [0, 133, 148]) \<and> file_ok 0 t"
proof -
  have p: "pos (unat (100000 :: u32)) = (14, [0, 133, 148])" by (simp add: pos_def params)
  have "unat (100000 :: u32) < MAXFILE" by (simp add: MAXFILE_def params)
  moreover have "space (0 + cost (unat (100000 :: u32))) (some_file ())"
    unfolding cost_def p by (rule space_mono[OF some_file_ok(2)]) simp
  moreover have "room 4 (some_file ())" using some_file_ok(3)[of "()"] by (simp add: room_def)
  ultimately show ?thesis using bmap_spec[OF some_file_ok(1), of 100000 0 "()"] unfolding p by blast
qed

text \<open>
  (C14) \<open>writei\<close> of the bytes \<open>xs\<close> at a position within the file or at its end returns their number.
  The file then has these bytes there and all its other bytes as before, its size covers them,
  and the inode on the disk is the one in memory; the other inodes and files are unchanged.
\<close>

theorem writei_spec:
  assumes "file_ok i s" "off \<le> i_size (itable s i)" "unat off + length xs < 2 ^ 32" "length xs < 2 ^ 31"
    and "unat (i_inum (itable s i)) < unat (sb_ninodes (sb s))"
    and "space (Suc j + wcost (unat off) (length xs)) s" "room (4 * card (touch (unat off) (length xs))) s"
    and "either_copyin src (length xs) kb s = (0, xs)" "receivable src (length xs)"
  shows "\<exists>t. writei i src kb off (of_nat (length xs)) s = Ok (int (length xs), t) \<and> file_ok i t \<and> space j t \<and>
    rewritten i (unat off) xs s t"
proof -
  obtain t where "writei i src kb off (of_nat (length xs)) s = Ok (int (length xs), t)" "file_ok i t" "space j t"
    "rewritten i (unat off) xs s t" "dense i s (unat (i_size (itable s i))) \<longrightarrow> dense i t (unat (i_size (itable t i)))"
    by (rule writei_ok[OF assms])
  then show ?thesis by blast
qed

text \<open>Writing two bytes to the empty file.\<close>

lemma some_write:
  "0 \<le> i_size (itable (some_file ()) 0)" "unat (0 :: u32) + length [104, 105 :: byte] < 2 ^ 32" "length [104, 105 :: byte] < 2 ^ 31"
  "unat (i_inum (itable (some_file ()) 0)) < unat (sb_ninodes (sb (some_file ())))"
  "space (Suc 0 + wcost (unat (0 :: u32)) (length [104, 105 :: byte])) (some_file ())"
  "room (4 * card (touch (unat (0 :: u32)) (length [104, 105 :: byte]))) (some_file ())"
  "either_copyin (Obj 0) (length [104, 105 :: byte]) (cstr [104, 105]) (some_file ()) = (0, [104, 105])"
  "receivable (Obj 0) (length [104, 105 :: byte])"
proof -
  have t: "touch 0 (length [104, 105 :: byte]) = {0}" "wcost 0 (length [104, 105 :: byte]) = 4"
    by (rule touch_first; simp add: BSIZE_def)+
  show "space (Suc 0 + wcost (unat (0 :: u32)) (length [104, 105 :: byte])) (some_file ())"
    using t(2) by (intro space_mono[OF some_file_ok(2)]) simp
  show "room (4 * card (touch (unat (0 :: u32)) (length [104, 105 :: byte]))) (some_file ())"
    using some_file_ok(3)[of "()"] t(1) by (simp add: room_def)
  show "either_copyin (Obj 0) (length [104, 105 :: byte]) (cstr [104, 105]) (some_file ()) = (0, [104, 105])"
    by (simp add: cstr_def upt_rec)
qed (use some_file_ok(5)[of "()"] in simp_all)

theorem writei_spec_witness:
  "\<exists>t. writei 0 (Obj 0) (cstr [104, 105]) 0 2 (some_file ()) = Ok (2, t) \<and> file_ok 0 t \<and>
     fbyte 0 t 0 = 104 \<and> fbyte 0 t 1 = 105 \<and> i_size (itable t 0) = 2"
proof -
  obtain t where t: "writei 0 (Obj 0) (cstr [104, 105]) 0 (of_nat (length [104, 105 :: byte])) (some_file ()) =
      Ok (int (length [104, 105 :: byte]), t)" "file_ok 0 t" "rewritten 0 (unat (0 :: u32)) [104, 105] (some_file ()) t"
    using writei_spec[OF some_file_ok(1) some_write] by blast
  have "(0 :: nat) < MAXFILE * BSIZE" "(1 :: nat) < MAXFILE * BSIZE" by (simp_all add: MAXFILE_def params)
  then show ?thesis using t(1,2) rewrittenD[OF t(3)] some_file_ok(4)[of "()"] by simp
qed



end
