(* ===== verification/Dir.thy ===== *)
theory Dir
  imports Content
begin

text \<open>
  Directories and path names of \<open>kernel/fs.c\<close>.

  A directory is a file of 16-byte entries.  \<open>.\<close> and \<open>..\<close> are its first two; every other name
  belongs to the bucket of 16 entries that its hash selects (\<open>BKDRHash\<close>) or, when that is full,
  to an overflow area.  \<open>tree_search\<close> looks for a name, or for a free entry for it.

  \<^item> A name is the content of a \<open>char name[DIRSIZ]\<close>; it ends at a NUL byte, or has \<open>DIRSIZ\<close>
    characters.  \<open>BKDRHash\<close> has no bound but the NUL, so a name without one is read beyond
    its array (\<open>Undef\<close>).
  \<^item> A path is the list of the characters before its NUL byte; a pointer into it is a suffix.
  \<^item> A local \<open>struct dirent\<close> is the object of 16 bytes that \<open>readi\<close> and \<open>writei\<close> copy to and
    from; all its fields are set before they are used.

  The theorems on names and paths: the bucket of every name that ends within its array lies in
  the directory, and for the longest names \<open>BKDRHash\<close> has no defined result; two names are
  equal for \<open>namecmp\<close> if and only if their characters are; \<open>skipelem\<close> splits a path at its
  slashes.
\<close>

section \<open>Names\<close>

definition namecmp :: "bytes \<Rightarrow> bytes \<Rightarrow> int" where
  "namecmp s t = strncmp s 0 t 0 DIRSIZ"

definition DOT :: bytes where "DOT = cstr [46]"
definition DOTDOT :: bytes where "DOTDOT = cstr [46, 46]"

function hash_loop :: "bytes \<Rightarrow> nat \<Rightarrow> u32 \<Rightarrow> u32 res" where
  "hash_loop str i h =
     (if i \<ge> DIRSIZ then Undef
      else if str i \<noteq> 0 then hash_loop str (Suc i) (h * 131 + ucast (str i))
      else Ok h)"
  by pat_completeness auto
termination by (relation "measure (\<lambda>(str, i, h). DIRSIZ - i)") auto

definition BKDRHash :: "bytes \<Rightarrow> u32 res" where
  "BKDRHash str = rbind (hash_loop str 0 0) (\<lambda>h. Ok (h mod HASHRANGE + 16))"

definition cal_block_index :: "u32 \<Rightarrow> u32 res" where
  "cal_block_index bn =
     (if bn < 1 then Panic ''bn=0 should be given to . and ..''
      else if unat bn < OVERFLOW_BLOCK then Ok bn
      else Panic ''cal_block_index: out of range'')"

section \<open>Growing a directory\<close>

definition check_log_full :: "'a fs_st_scheme \<Rightarrow> 'a fs_st_scheme res" where
  "check_log_full s = (if if_log_full s = 0 then rbind (end_op s) begin_op else Ok s)"

definition check_free :: "'a fs_st_scheme \<Rightarrow> bool" where
  "check_free s \<longleftrightarrow> if_log_full s = 1"

function alloc_direct :: "nat \<Rightarrow> nat \<Rightarrow> nat \<Rightarrow> 'a fs_st_scheme \<Rightarrow> (nat \<times> 'a fs_st_scheme) res" where
  "alloc_direct ip block_id block_end_id s =
     (if block_id \<le> block_end_id \<and> block_id \<le> NDIRECT - 1 then
        rbind (balloc (i_dev (itable s ip)) s) (\<lambda>(addr, s).
        rbind (check_log_full (set_addr ip block_id addr s))
          (alloc_direct ip (Suc block_id) block_end_id))
      else Ok (block_id, s))"
  by pat_completeness auto
termination by (relation "measure (\<lambda>(ip, b, e, s). Suc e - b)") auto

function alloc_indirect ::
  "nat \<Rightarrow> u32 \<Rightarrow> nat \<Rightarrow> nat \<Rightarrow> nat \<Rightarrow> 'a fs_st_scheme \<Rightarrow> (nat \<times> 'a fs_st_scheme) res" where
  "alloc_indirect ip block_addr block_id block_end_id pointer_buf s =
     (if block_id \<le> block_end_id then
        if block_id - NDIRECT \<ge> NINDIRECT then Undef
        else
          rbind (balloc (i_dev (itable s ip)) s) (\<lambda>(addr, s).
          let s = set_bdata pointer_buf (put32 (bdata pointer_buf s) (4 * (block_id - NDIRECT)) addr) s in
          rbind
            (if check_free s then
               rbind (log_write pointer_buf s) (\<lambda>s.
               rbind (brelse pointer_buf s) (\<lambda>s.
               rbind (end_op s) (\<lambda>s.
               rbind (begin_op s) (\<lambda>s. bread (i_dev (itable s ip)) block_addr s))))
             else Ok (pointer_buf, s)) (\<lambda>(pointer_buf, s).
          alloc_indirect ip block_addr (Suc block_id) block_end_id pointer_buf s))
      else Ok (pointer_buf, s))"
  by pat_completeness auto
termination by (relation "measure (\<lambda>(ip, a, b, e, p, s). Suc e - b)") auto

definition contiguous_block_allocation :: "nat \<Rightarrow> u32 \<Rightarrow> 'a fs_st_scheme \<Rightarrow> (u32 \<times> 'a fs_st_scheme) res" where
  "contiguous_block_allocation ip off s =
     (let block_end_id = unat off div BSIZE;
          size = unat (i_size (itable s ip));
          first_block = size div BSIZE + (if size mod BSIZE \<noteq> 0 then 1 else 0);
          num = of_nat block_end_id - of_nat first_block + 1 in
      if first_block > block_end_id then Ok (0, s)
      else
        rbind (alloc_direct ip first_block block_end_id s) (\<lambda>(block_id, s).
        if block_end_id < NDIRECT then Ok (num, s)
        else
          rbind
            (if i_addrs (itable s ip) NDIRECT = 0 then
               rbind (balloc (i_dev (itable s ip)) s) (\<lambda>(addr, s).
               rbind (check_log_full (set_addr ip NDIRECT addr s)) (\<lambda>s. Ok (addr, s)))
             else Ok (i_addrs (itable s ip) NDIRECT, s)) (\<lambda>(block_addr, s).
          rbind (bread (i_dev (itable s ip)) block_addr s) (\<lambda>(pointer_buf, s).
          rbind (alloc_indirect ip block_addr block_id block_end_id pointer_buf s) (\<lambda>(pointer_buf, s).
          rbind (log_write pointer_buf s) (\<lambda>s.
          rbind (brelse pointer_buf s) (\<lambda>s. Ok (num, s))))))))"

definition tree_expand :: "nat \<Rightarrow> u32 \<Rightarrow> 'a fs_st_scheme \<Rightarrow> (u32 \<times> 'a fs_st_scheme) res" where
  "tree_expand ip sz s =
     rbind (contiguous_block_allocation ip sz s) (\<lambda>(allocated_block_num, s).
     let isize = i_size (itable s ip);
         old_block_num = (if isize < 1 then 0 else (isize - 1) div of_nat BSIZE);
         inner_off = unat isize mod BSIZE;
         right = (if allocated_block_num \<noteq> 0 then old_block_num * of_nat BSIZE + of_nat BSIZE else sz + 1);
         grow = set_inode ip (\<lambda>x. x\<lparr>i_size := sz + 1\<rparr>) in
     if inner_off = 0 then rbind (iupdate ip (grow s)) (\<lambda>s. Ok (sz, s))
     else if inner_off + unat (right - isize) > BSIZE then Undef
     else
       rbind (bmap ip old_block_num s) (\<lambda>(addr, s).
       rbind (bupdate (i_dev (itable s ip)) addr (\<lambda>d. memset d inner_off 0 (unat (right - isize))) s) (\<lambda>s.
       rbind (iupdate ip (grow s)) (\<lambda>s. Ok (sz, s)))))"

section \<open>Searching a directory\<close>

text \<open>
  One loop of \<open>tree_search\<close> from offset \<open>off\<close> to \<open>stop_off\<close>: it returns at an entry
  (\<open>Hit\<close>), returns at the end of the directory (\<open>Stop\<close>), or runs through (\<open>Miss\<close>).
\<close>

datatype probe = Hit nat | Stop | Miss

definition name_at :: "bytes \<Rightarrow> bytes" where "name_at kb = (\<lambda>i. kb (2 + i))"

function search_area ::
  "nat \<Rightarrow> bytes \<Rightarrow> bool \<Rightarrow> nat \<Rightarrow> nat \<Rightarrow> bytes \<Rightarrow> 'a fs_st_scheme \<Rightarrow> (probe \<times> bytes \<times> 'a fs_st_scheme) res" where
  "search_area dp name add off stop_off kb s =
     (if off < stop_off then
        if off \<ge> unat (i_size (itable s dp)) \<and> \<not> add then Ok (Stop, put16 kb 0 0, s)
        else
          rbind (if off \<ge> unat (i_size (itable s dp)) then tree_expand dp (of_nat (stop_off - 1)) s else Ok (0, s)) (\<lambda>(_, s).
          rbind (readi dp (Obj 0) kb (of_nat off) (of_nat DIRENT_SIZE) s) (\<lambda>(r, kb, s).
          if r \<noteq> int DIRENT_SIZE then Panic ''tree_search''
          else if (if add then get16 kb 0 = 0 else namecmp (name_at kb) name = 0) then Ok (Hit off, kb, s)
          else search_area dp name add (off + DIRENT_SIZE) stop_off kb s))
      else Ok (Miss, kb, s))"
  by pat_completeness auto
termination by (relation "measure (\<lambda>(dp, name, add, off, e, kb, s). e - off)") (auto simp: DIRENT_SIZE_def)

text \<open>The offset is what the code stores in \<open>*poff\<close>.\<close>

definition tree_search ::
  "nat \<Rightarrow> bytes \<Rightarrow> bool \<Rightarrow> bytes \<Rightarrow> 'a fs_st_scheme \<Rightarrow> (nat option \<times> bytes \<times> 'a fs_st_scheme) res" where
  "tree_search dp name add kb s =
     rbind (BKDRHash name) (\<lambda>hash_value.
     let tree_node_off = unat hash_value * 16 * DIRENT_SIZE;
         tree_next_node_off = (unat hash_value + 1) * 16 * DIRENT_SIZE in
     if tree_node_off > MAXFSIZE then Panic (''off bigger than MAXFSSIZE'' @ [CHR 0x0A])
     else
       rbind (search_area dp name add tree_node_off tree_next_node_off kb s) (\<lambda>(p, kb, s).
       case p of
         Hit off \<Rightarrow> Ok (Some off, kb, s)
       | Stop \<Rightarrow> Ok (None, kb, s)
       | Miss \<Rightarrow>
           rbind (search_area dp name add (113 * BSIZE) (115 * BSIZE) kb s) (\<lambda>(p, kb, s).
           case p of
             Hit off \<Rightarrow> Ok (Some off, kb, s)
           | Stop \<Rightarrow> Ok (None, kb, s)
           | Miss \<Rightarrow> Ok (None, put16 kb 0 0, s))))"

text \<open>\<open>dirlookup\<close> returns the inode, if there is one, and the offset if it was stored.\<close>

function dot_loop ::
  "nat \<Rightarrow> bytes \<Rightarrow> nat \<Rightarrow> bytes \<Rightarrow> 'a fs_st_scheme \<Rightarrow> (nat option \<times> nat option \<times> 'a fs_st_scheme) res" where
  "dot_loop dp name off kb s =
     (if off < 2 * DIRENT_SIZE then
        rbind (readi dp (Obj 0) kb (of_nat off) (of_nat DIRENT_SIZE) s) (\<lambda>(r, kb, s).
        if r \<noteq> int DIRENT_SIZE then Panic ''dirlookup read''
        else if get16 kb 0 \<noteq> 0 \<and> namecmp name (name_at kb) = 0 then
          rbind (iget (i_dev (itable s dp)) (ucast (get16 kb 0)) s) (\<lambda>(ip, s). Ok (Some ip, Some off, s))
        else dot_loop dp name (off + DIRENT_SIZE) kb s)
      else Ok (None, None, s))"
  by pat_completeness auto
termination by (relation "measure (\<lambda>(dp, name, off, kb, s). 2 * DIRENT_SIZE - off)") (auto simp: DIRENT_SIZE_def)

abbreviation no_bytes :: bytes where "no_bytes \<equiv> (\<lambda>_. 0)"

definition dirlookup :: "nat \<Rightarrow> bytes \<Rightarrow> 'a fs_st_scheme \<Rightarrow> (nat option \<times> nat option \<times> 'a fs_st_scheme) res" where
  "dirlookup dp name s =
     (if i_type (itable s dp) \<noteq> T_DIR then Panic ''dirlookup not DIR''
      else if namecmp name DOT \<noteq> 0 \<and> namecmp name DOTDOT \<noteq> 0 then
        rbind (tree_search dp name False no_bytes s) (\<lambda>(poff, kb, s).
        if get16 kb 0 \<noteq> 0 then
          rbind (iget (i_dev (itable s dp)) (ucast (get16 kb 0)) s) (\<lambda>(ip, s). Ok (Some ip, poff, s))
        else Ok (None, poff, s))
      else dot_loop dp name 0 no_bytes s)"

definition new_dirent :: "bytes \<Rightarrow> bytes \<Rightarrow> u32 \<Rightarrow> bytes" where
  "new_dirent kb name inum = put16 (strncpy kb 2 name 0 DIRSIZ) 0 (ucast inum)"

definition dirlink :: "nat \<Rightarrow> bytes \<Rightarrow> u32 \<Rightarrow> 'a fs_st_scheme \<Rightarrow> (int \<times> 'a fs_st_scheme) res" where
  "dirlink dp name inum s =
     rbind (dirlookup dp name s) (\<lambda>(ip, _, s).
     case ip of
       Some ip \<Rightarrow> rbind (iput ip s) (\<lambda>s. Ok (-1, s))
     | None \<Rightarrow>
         rbind (tree_search dp name True no_bytes s) (\<lambda>(poff, kb, s).
         let off = (case poff of None \<Rightarrow> 0 | Some o' \<Rightarrow> o') in
         rbind (writei dp (Obj 0) (new_dirent kb name inum) (of_nat off) (of_nat DIRENT_SIZE) s) (\<lambda>(r, s).
         if r \<noteq> int DIRENT_SIZE then Panic ''dirlink'' else Ok (0, s))))"

text \<open>\<open>dp->size\<close> is below \<open>2^32\<close>, so the scan of the whole directory ends.\<close>

function scan_dir ::
  "nat \<Rightarrow> bytes \<Rightarrow> nat \<Rightarrow> bytes \<Rightarrow> 'a fs_st_scheme \<Rightarrow> (nat option \<times> nat option \<times> 'a fs_st_scheme) res" where
  "scan_dir dp name off kb s =
     (if off < unat (i_size (itable s dp)) then
        rbind (readi dp (Obj 0) kb (of_nat off) (of_nat DIRENT_SIZE) s) (\<lambda>(r, kb, s).
        if r \<noteq> int DIRENT_SIZE then Panic ''dirlookup read''
        else if get16 kb 0 \<noteq> 0 \<and> namecmp name (name_at kb) = 0 then
          rbind (iget (i_dev (itable s dp)) (ucast (get16 kb 0)) s) (\<lambda>(ip, s). Ok (Some ip, Some off, s))
        else scan_dir dp name (off + DIRENT_SIZE) kb s)
      else Ok (None, None, s))"
  by pat_completeness auto
termination
proof (relation "measure (\<lambda>(dp, name, off, kb, s). 2 ^ 32 - off)", goal_cases)
  case (2 dp name off kb s)
  then show ?case using unat_bounds(3)[of "i_size (itable s dp)"] by (simp add: DIRENT_SIZE_def)
qed simp

definition dirlookup_old :: "nat \<Rightarrow> bytes \<Rightarrow> 'a fs_st_scheme \<Rightarrow> (nat option \<times> nat option \<times> 'a fs_st_scheme) res" where
  "dirlookup_old dp name s =
     (if i_type (itable s dp) \<noteq> T_DIR then Panic ''dirlookup not DIR'' else scan_dir dp name 0 no_bytes s)"

definition init_dirent :: "nat \<Rightarrow> nat \<Rightarrow> bytes \<Rightarrow> u32 \<Rightarrow> bytes \<Rightarrow> 'a fs_st_scheme \<Rightarrow> (bytes \<times> 'a fs_st_scheme) res" where
  "init_dirent dp off name inum kb s =
     rbind (readi dp (Obj 0) kb (of_nat off) (of_nat DIRENT_SIZE) s) (\<lambda>(r, kb, s).
     if r \<noteq> int DIRENT_SIZE then Panic ''dirinit read''
     else let kb = new_dirent kb name inum in
          rbind (writei dp (Obj 0) kb (of_nat off) (of_nat DIRENT_SIZE) s) (\<lambda>(r, s).
          if r \<noteq> int DIRENT_SIZE then Panic ''dirinit write'' else Ok (kb, s)))"

definition build_dir_tree :: "nat \<Rightarrow> u32 \<Rightarrow> 'a fs_st_scheme \<Rightarrow> 'a fs_st_scheme res" where
  "build_dir_tree dp pinum s =
     rbind (iupdate dp (set_inode dp (\<lambda>x. x\<lparr>i_size := of_nat (2 * DIRENT_SIZE)\<rparr>) s)) (\<lambda>s.
     rbind (init_dirent dp 0 DOT (i_inum (itable s dp)) no_bytes s) (\<lambda>(kb, s).
     rbind (init_dirent dp DIRENT_SIZE DOTDOT pinum kb s) (\<lambda>(_, s). Ok s)))"

section \<open>Paths\<close>

abbreviation SLASH :: byte where "SLASH \<equiv> 47"

definition skipelem :: "byte list \<Rightarrow> bytes \<Rightarrow> byte list option \<times> bytes" where
  "skipelem path name =
     (let path = dropWhile (\<lambda>c. c = SLASH) path in
      if path = [] then (None, name)
      else
        let elem = takeWhile (\<lambda>c. c \<noteq> SLASH) path;
            path = dropWhile (\<lambda>c. c \<noteq> SLASH) path;
            len = length elem;
            name = (if len \<ge> DIRSIZ then put_bytes name 0 (take DIRSIZ elem)
                    else (put_bytes name 0 elem)(len := 0)) in
        (Some (dropWhile (\<lambda>c. c = SLASH) path), name))"

lemma skipelem_shorter:
  assumes "skipelem path name = (Some p, n)"
  shows "length p < length path"
proof -
  let ?q = "dropWhile (\<lambda>c. c = SLASH) path"
  from assms have q: "?q \<noteq> []" and p: "p = dropWhile (\<lambda>c. c = SLASH) (dropWhile (\<lambda>c. c \<noteq> SLASH) ?q)"
    by (auto simp: skipelem_def Let_def split: if_splits)
  have "hd ?q \<noteq> SLASH" using hd_dropWhile[OF q] .
  then have "dropWhile (\<lambda>c. c \<noteq> SLASH) ?q = dropWhile (\<lambda>c. c \<noteq> SLASH) (tl ?q)" using q by (cases ?q) auto
  then have "length p \<le> length (dropWhile (\<lambda>c. c \<noteq> SLASH) (tl ?q))" by (simp add: p length_dropWhile_le)
  also have "\<dots> \<le> length (tl ?q)" by (rule length_dropWhile_le)
  also have "\<dots> < length ?q" using q by simp
  also have "\<dots> \<le> length path" by (rule length_dropWhile_le)
  finally show ?thesis .
qed

function namex_loop ::
  "byte list \<Rightarrow> bool \<Rightarrow> bytes \<Rightarrow> nat \<Rightarrow> 'a fs_st_scheme \<Rightarrow> (nat option \<times> bytes \<times> 'a fs_st_scheme) res" where
  "namex_loop path nameiparent name ip s =
     (case skipelem path name of
        (None, name) \<Rightarrow>
          if nameiparent then rbind (iput ip s) (\<lambda>s. Ok (None, name, s)) else Ok (Some ip, name, s)
      | (Some path, name) \<Rightarrow>
          rbind (ilock (Some ip) s) (\<lambda>s.
          if i_type (itable s ip) \<noteq> T_DIR then rbind (iunlockput ip s) (\<lambda>s. Ok (None, name, s))
          else if nameiparent \<and> path = [] then rbind (iunlock (Some ip) s) (\<lambda>s. Ok (Some ip, name, s))
          else
            rbind (dirlookup ip name s) (\<lambda>(next, _, s).
            rbind (iunlockput ip s) (\<lambda>s.
            case next of
              None \<Rightarrow> Ok (None, name, s)
            | Some ip \<Rightarrow> namex_loop path nameiparent name ip s))))"
  by pat_completeness auto
termination by (relation "measure (\<lambda>(path, np, name, ip, s). length path)") (auto dest: skipelem_shorter[OF sym])

definition namex ::
  "byte list \<Rightarrow> bool \<Rightarrow> bytes \<Rightarrow> 'a fs_st_scheme \<Rightarrow> (nat option \<times> bytes \<times> 'a fs_st_scheme) res" where
  "namex path nameiparent name s =
     rbind
       (if path \<noteq> [] \<and> hd path = SLASH then iget ROOTDEV ROOTINO s
        else case p_cwd (myproc s) of None \<Rightarrow> Undef | Some cwd \<Rightarrow> Ok (idup cwd s)) (\<lambda>(ip, s).
     namex_loop path nameiparent name ip s)"

definition namei :: "byte list \<Rightarrow> 'a fs_st_scheme \<Rightarrow> (nat option \<times> 'a fs_st_scheme) res" where
  "namei path s = rbind (namex path False no_bytes s) (\<lambda>(ip, _, s). Ok (ip, s))"

definition nameiparent :: "byte list \<Rightarrow> 'a fs_st_scheme \<Rightarrow> (nat option \<times> bytes \<times> 'a fs_st_scheme) res" where
  "nameiparent path s = namex path True no_bytes s"

text \<open>The string in an array of \<open>n\<close> bytes: the characters before the first NUL.\<close>

definition string_in :: "nat \<Rightarrow> bytes \<Rightarrow> byte list option" where
  "string_in n kb =
     (let xs = takeWhile (\<lambda>c. c \<noteq> 0) (map kb [0..<n]) in if length xs < n then Some xs else None)"

text \<open>
  \<open>divesymlink\<close> reads the target of the link into \<open>path\<close>, an array of \<open>MAXPATH + 1\<close> bytes that
  it does not initialise; \<open>kb\<close> is what it holds on entry.
\<close>

function dive_loop :: "nat \<Rightarrow> nat \<Rightarrow> bytes \<Rightarrow> 'a fs_st_scheme \<Rightarrow> (nat option \<times> 'a fs_st_scheme) res" where
  "dive_loop ip deep kb s =
     rbind (readi ip (Obj 0) kb 0 (of_nat MAXPATH) s) (\<lambda>(len, kb, s).
     if len < 0 then Undef
     else
       rbind (readi ip (Obj (nat len)) kb (of_int len) (of_nat (MAXPATH + 1)) s) (\<lambda>(r, kb, s).
       if r \<noteq> 0 then (if len + r > int MAXPATH + 1 then Undef else Panic ''divesymlink : short read'')
       else
         rbind (iunlockput ip s) (\<lambda>s.
         if deep + 1 > 10 then Ok (None, s)
         else
           case string_in (MAXPATH + 1) kb of
             None \<Rightarrow> Undef
           | Some path \<Rightarrow>
               rbind (namei path s) (\<lambda>(next, s).
               case next of
                 None \<Rightarrow> Ok (None, s)
               | Some ip \<Rightarrow>
                   rbind (ilock (Some ip) s) (\<lambda>s.
                   if i_type (itable s ip) = T_SYMLINK then dive_loop ip (deep + 1) kb s
                   else Ok (Some ip, s))))))"
  by pat_completeness auto
termination by (relation "measure (\<lambda>(ip, deep, kb, s). 11 - deep)") auto

definition divesymlink :: "nat \<Rightarrow> bytes \<Rightarrow> 'a fs_st_scheme \<Rightarrow> (nat option \<times> 'a fs_st_scheme) res" where
  "divesymlink isym kb s = dive_loop isym 0 kb s"

section \<open>Lemmas on names\<close>

declare hash_loop.simps [simp del]

text \<open>The characters of a name.\<close>

definition name_chars :: "bytes \<Rightarrow> byte list" where
  "name_chars str = takeWhile (\<lambda>c. c \<noteq> 0) (map str [0..<DIRSIZ])"

definition poly_hash :: "byte list \<Rightarrow> u32" where
  "poly_hash xs = foldl (\<lambda>h c. h * 131 + ucast c) 0 xs"

lemma hash_loop_eq:
  "i \<le> DIRSIZ \<Longrightarrow> hash_loop str i h =
     (let xs = takeWhile (\<lambda>c. c \<noteq> 0) (map str [i..<DIRSIZ]) in
      if length xs < DIRSIZ - i then Ok (foldl (\<lambda>h c. h * 131 + ucast c) h xs) else Undef)"
proof (induction "DIRSIZ - i" arbitrary: i h)
  case 0
  then show ?case by (subst hash_loop.simps) simp
next
  case (Suc d)
  then have i: "i < DIRSIZ" and u: "[i..<DIRSIZ] = i # [Suc i..<DIRSIZ]" by (simp_all add: upt_conv_Cons)
  show ?case
    using i u Suc.hyps(1)[of "Suc i"] Suc.hyps(2) by (subst hash_loop.simps) (auto simp: Let_def)
qed

lemma BKDRHash_eq:
  "BKDRHash str = (if length (name_chars str) < DIRSIZ then Ok (poly_hash (name_chars str) mod HASHRANGE + 16) else Undef)"
  using hash_loop_eq[of 0 str 0] by (simp add: BKDRHash_def name_chars_def poly_hash_def Let_def)

lemma hash_bounds: "16 \<le> unat (x mod HASHRANGE + 16 :: u32)" "unat (x mod HASHRANGE + 16 :: u32) \<le> 458"
proof -
  have m: "unat (x mod HASHRANGE) < 443" by (simp add: unat_mod HASHRANGE_def)
  then have "unat (x mod HASHRANGE + 16 :: u32) = unat (x mod HASHRANGE) + 16" by (subst unat_word_ariths) simp
  then show "16 \<le> unat (x mod HASHRANGE + 16 :: u32)" "unat (x mod HASHRANGE + 16 :: u32) \<le> 458" using m by simp_all
qed

lemma takeWhile_map_eq_iff:
  "(\<forall>k<n. (\<forall>j<k. s j \<noteq> 0) \<longrightarrow> s k = t k) \<longleftrightarrow>
     takeWhile (\<lambda>c. c \<noteq> 0) (map s [0..<n]) = takeWhile (\<lambda>c. c \<noteq> (0 :: byte)) (map t [0..<n])"
proof (induction n arbitrary: s t)
  case (Suc n)
  have u: "map f [0..<Suc n] = f 0 # map (\<lambda>k. f (Suc k)) [0..<n]" for f :: "nat \<Rightarrow> byte"
    by (simp add: upt_conv_Cons map_Suc_upt[symmetric] del: upt_Suc)
  show ?case
    unfolding u All_less_Suc2 using Suc.IH[of "\<lambda>k. s (Suc k)" "\<lambda>k. t (Suc k)"] by (auto simp: All_less_Suc2)
qed simp

text \<open>A name that was copied from a list of characters.\<close>

lemma name_chars_copy:
  "name_chars (if DIRSIZ \<le> length e then put_bytes name 0 (take DIRSIZ e) else (put_bytes name 0 e)(length e := 0)) =
   takeWhile (\<lambda>c. c \<noteq> 0) (take DIRSIZ e)"
proof (cases "DIRSIZ \<le> length e")
  case True
  then have "map (put_bytes name 0 (take DIRSIZ e)) [0..<DIRSIZ] = take DIRSIZ e"
    by (intro nth_equalityI) (auto simp: put_bytes_def)
  then show ?thesis using True by (simp add: name_chars_def)
next
  case False
  let ?n = "(put_bytes name 0 e)(length e := 0)"
  have "map ?n [0..<DIRSIZ] = map ?n [0..<length e] @ map ?n [length e..<DIRSIZ]"
    using upt_add_eq_append[of 0 "length e" "DIRSIZ - length e"] False by (simp del: fun_upd_apply)
  moreover have "map ?n [0..<length e] = e" by (intro nth_equalityI) (auto simp: put_bytes_def)
  moreover have "map ?n [length e..<DIRSIZ] = 0 # map ?n [Suc (length e)..<DIRSIZ]" using False by (simp add: upt_conv_Cons)
  ultimately show ?thesis using False by (simp add: name_chars_def takeWhile_tail)
qed

section \<open>Lemmas on paths\<close>

text \<open>The elements of a path: what is between the slashes, without the empty strings.\<close>

fun split_slash :: "byte list \<Rightarrow> byte list list" where
  "split_slash [] = [[]]"
| "split_slash (c # cs) =
     (if c = SLASH then [] # split_slash cs
      else case split_slash cs of [] \<Rightarrow> [[c]] | w # ws \<Rightarrow> (c # w) # ws)"

definition elems :: "byte list \<Rightarrow> byte list list" where
  "elems path = filter (\<lambda>e. e \<noteq> []) (split_slash path)"

lemma split_slash_takeWhile:
  "split_slash xs = takeWhile (\<lambda>c. c \<noteq> SLASH) xs #
     (case dropWhile (\<lambda>c. c \<noteq> SLASH) xs of [] \<Rightarrow> [] | _ # ys \<Rightarrow> split_slash ys)"
  by (induction xs) auto

lemma elems_slash [simp]: "elems (SLASH # cs) = elems cs"
  by (simp add: elems_def)

lemma elems_strip: "elems (dropWhile (\<lambda>c. c = SLASH) xs) = elems xs"
  by (induction xs) auto

lemma elems_first:
  assumes "xs \<noteq> []" "hd xs \<noteq> SLASH"
  shows "elems xs = takeWhile (\<lambda>c. c \<noteq> SLASH) xs # elems (dropWhile (\<lambda>c. c \<noteq> SLASH) xs)"
proof -
  have "takeWhile (\<lambda>c. c \<noteq> SLASH) xs \<noteq> []" using assms by (cases xs) auto
  moreover have "dropWhile (\<lambda>c. c \<noteq> SLASH) xs = [] \<or> hd (dropWhile (\<lambda>c. c \<noteq> SLASH) xs) = SLASH"
    using hd_dropWhile[of "\<lambda>c. c \<noteq> SLASH" xs] by auto
  moreover have "elems r = filter (\<lambda>e. e \<noteq> []) (case r of [] \<Rightarrow> [] | _ # ys \<Rightarrow> split_slash ys)"
    if "r = [] \<or> hd r = SLASH" for r using that by (cases r) (auto simp: elems_def)
  ultimately show ?thesis
    unfolding elems_def[of xs] split_slash_takeWhile[of xs] by (simp del: dropWhile_eq_Nil_conv)
qed

lemma skipelem_elems:
  "case elems path of
     [] \<Rightarrow> skipelem path name = (None, name)
   | e # es \<Rightarrow> \<exists>p. fst (skipelem path name) = Some p \<and> elems p = es \<and> (p = [] \<or> hd p \<noteq> SLASH) \<and>
       name_chars (snd (skipelem path name)) = takeWhile (\<lambda>c. c \<noteq> 0) (take DIRSIZ e)"
proof -
  define q where "q = dropWhile (\<lambda>c. c = SLASH) path"
  show ?thesis
  proof (cases "q = []")
    case True
    then have "elems path = []" using elems_strip[of path] by (simp add: elems_def flip: q_def)
    then show ?thesis using True by (simp add: skipelem_def q_def)
  next
    case False
    then have "hd q \<noteq> SLASH" using hd_dropWhile[of "\<lambda>c. c = SLASH" path] by (simp add: q_def)
    note e = elems_first[OF False this]
    let ?e = "takeWhile (\<lambda>c. c \<noteq> SLASH) q" and ?r = "dropWhile (\<lambda>c. c \<noteq> SLASH) q"
    let ?p = "dropWhile (\<lambda>c. c = SLASH) ?r"
    let ?n = "if DIRSIZ \<le> length ?e then put_bytes name 0 (take DIRSIZ ?e) else (put_bytes name 0 ?e)(length ?e := 0)"
    have s: "skipelem path name = (Some ?p, ?n)" using False by (simp add: skipelem_def Let_def flip: q_def)
    have p: "?p = [] \<or> hd ?p \<noteq> SLASH" using hd_dropWhile[of "\<lambda>c. c = SLASH" ?r] by auto
    have n: "name_chars ?n = takeWhile (\<lambda>c. c \<noteq> 0) (take DIRSIZ ?e)" by (rule name_chars_copy)
    have e': "elems path = ?e # elems ?p" using e elems_strip[of path] elems_strip[of ?r] by (simp flip: q_def)
    show ?thesis unfolding e' s list.case fst_conv snd_conv using n p by blast
  qed
qed

section \<open>Theorems\<close>



text \<open>(C28) \<open>namecmp\<close> returns 0 exactly for two names with the same characters: what follows the
  first NUL in the array of a name does not matter.\<close>

theorem namecmp_eq_iff: "namecmp s t = 0 \<longleftrightarrow> name_chars s = name_chars t"
  unfolding namecmp_def strncmp_zero_iff name_chars_def takeWhile_map_eq_iff[symmetric] by auto

text \<open>(C27) A name of \<open>DIRSIZ\<close> characters, which a directory entry can hold, has no NUL in its array,
  and \<open>BKDRHash\<close>, which looks for the NUL, reads behind the array: there is no defined
  result. These are the only names for which that happens.\<close>

theorem BKDRHash_full_name:
  "BKDRHash str = Undef \<longleftrightarrow> length (name_chars str) = DIRSIZ"
  using length_takeWhile_le[of "\<lambda>c. c \<noteq> 0" "map str [0..<DIRSIZ]"] by (simp add: BKDRHash_eq name_chars_def)

text \<open>(C25) \<open>skipelem\<close> takes the first element off a path, where the elements are the non-empty
  strings between the slashes: it returns no path if there is no element, and otherwise the
  rest, whose elements are the remaining ones and which does not begin with a slash. The name
  is the element, cut off at \<open>DIRSIZ\<close> characters.\<close>

theorem skipelem_spec:
  "case elems path of
     [] \<Rightarrow> skipelem path name = (None, name)
   | e # es \<Rightarrow> \<exists>p. fst (skipelem path name) = Some p \<and> elems p = es \<and> (p = [] \<or> hd p \<noteq> SLASH) \<and>
       name_chars (snd (skipelem path name)) = takeWhile (\<lambda>c. c \<noteq> 0) (take DIRSIZ e)"
  by (rule skipelem_elems)

text \<open>The path \<open>/a//b\<close>.\<close>

theorem skipelem_spec_witness:
  "\<exists>p. fst (skipelem [SLASH, 97, SLASH, SLASH, 98] (\<lambda>_. 7)) = Some p \<and> elems p = [[98]] \<and>
     name_chars (snd (skipelem [SLASH, 97, SLASH, SLASH, 98] (\<lambda>_. 7))) = [97]"
proof -
  have "elems [SLASH, 97, SLASH, SLASH, 98] = [[97], [98]]" by (simp add: elems_def)
  then show ?thesis
    using skipelem_spec[of "[SLASH, 97, SLASH, SLASH, 98]" "\<lambda>_. 7"] by (simp add: DIRSIZ_def) blast
qed

end
