(* ===== verification/Ringbuf.thy ===== *)
theory Ringbuf
  imports Prelude
begin

text \<open>
  Circular buffers with free-running 32-bit indices, as pipes and the console use them: index
  \<open>a\<close> stands for position \<open>a mod N\<close> of an array of \<open>N\<close> bytes, where \<open>N\<close> divides \<open>2^32\<close>, so
  that nothing happens when an index wraps around.
\<close>

definition ring :: "nat \<Rightarrow> bytes \<Rightarrow> u32 \<Rightarrow> nat \<Rightarrow> byte list" where
  "ring N d a n = map (\<lambda>i. d (unat (a + of_nat i) mod N)) [0..<n]"

lemma length_ring [simp]: "length (ring N d a n) = n"
  by (simp add: ring_def)

lemma ring_Nil [simp]: "ring N d a n = [] \<longleftrightarrow> n = 0"
  by (simp add: ring_def)

lemma ring_0 [simp]: "ring N d a 0 = []"
  by simp

lemma ring_index:
  assumes "N dvd 4294967296"
  shows "unat (x + of_nat k :: u32) mod N = (unat x + k) mod N"
proof -
  have "unat (x + of_nat k) = (unat x + k) mod 4294967296" by (simp add: unat_word_ariths unat_of_nat mod_simps)
  then show ?thesis by (simp add: mod_mod_cancel[OF assms])
qed

lemma ring_index_eq:
  assumes N: "N dvd 4294967296" and lt: "k < N" "l < N"
  shows "unat (x + of_nat k :: u32) mod N = unat (x + of_nat l :: u32) mod N \<longleftrightarrow> k = l"
proof
  have le: "i = j" if "i \<le> j" "j < N" "(unat x + i) mod N = (unat x + j) mod N" for i j
  proof -
    have "N dvd j - i" using mod_eq_dvd_iff_nat[of "unat x + i" "unat x + j" N] that(1,3) by simp
    then show ?thesis using that(1,2) by (auto dest: dvd_imp_le)
  qed
  assume "unat (x + of_nat k :: u32) mod N = unat (x + of_nat l :: u32) mod N"
  then have "(unat x + k) mod N = (unat x + l) mod N" by (simp only: ring_index[OF N])
  then show "k = l" using le[of k l] le[of l k] lt by (cases "k \<le> l") auto
qed simp

lemma ring_Suc: "ring N d a (Suc n) = ring N d a n @ [d (unat (a + of_nat n) mod N)]"
  by (simp add: ring_def)

lemma ring_append: "ring N d a (m + n) = ring N d a m @ ring N d (a + of_nat m) n"
  by (induction n) (simp_all add: ring_Suc add.assoc)

lemma ring_Cons: "ring N d a (Suc n) = d (unat a mod N) # ring N d (a + 1) n"
  using ring_append[of N d a 1 n] by (simp add: ring_def)

text \<open>Storing behind the end of a segment that is not full leaves the segment alone.\<close>

lemma ring_store:
  assumes "N dvd 4294967296" "n < N"
  shows "ring N (d(unat (a + of_nat n) mod N := c)) a n = ring N d a n"
  unfolding ring_def using ring_index_eq[OF assms(1)] assms(2) by auto

end
