(* ===== verification/Pipe.thy ===== *)
theory Pipe
  imports Dir Ringbuf
begin

text \<open>
  Pipes (\<open>kernel/pipe.c\<close>) and the state of open files (\<open>kernel/file.h\<close>).

  \<^item> \<open>ftable\<close> is the table of open files, \<open>pipes\<close> gives the \<open>struct pipe\<close> that lives in a page
    obtained from \<open>kalloc\<close>, by the address of the page.  \<open>cons\<close>, \<open>devsw\<close> and \<open>uart_out\<close> belong
    to the console.
  \<^item> A process that finds the pipe full (or, when reading, empty) sleeps until another process
    changes that; such a call does not return here (\<open>Hang\<close>).  The interleaved runs of readers
    and writers are the steps of \<open>pipe_step\<close>, one byte each.
  \<^item> \<open>nread\<close> and \<open>nwrite\<close> count bytes modulo \<open>2^32\<close>.

  The theorems: a pipe is a first-in first-out queue of at most \<open>PIPESIZE\<close> bytes, also when the
  counters wrap around; what a reader gets is what the writer put in, in order; the results
  of \<open>pipewrite\<close> and \<open>piperead\<close> in every case in which they return.
\<close>

section \<open>State\<close>

definition PIPESIZE :: nat where "PIPESIZE = 512"

record pipe =
  pi_data :: bytes
  pi_nread :: u32
  pi_nwrite :: u32
  pi_readopen :: bool
  pi_writeopen :: bool

datatype ftype = FD_NONE | FD_PIPE | FD_INODE | FD_DEVICE

record filerec =
  f_type :: ftype
  f_ref :: int
  f_readable :: bool
  f_writable :: bool
  f_pipe :: u64
  f_ip :: "nat option"
  f_off :: u32
  f_major :: u16

record console =
  c_buf :: bytes
  c_r :: u32
  c_w :: u32
  c_e :: u32

text \<open>The only device whose functions are entered in \<open>devsw\<close> is the console.\<close>

datatype device = Console_dev

record devsw =
  dev_read :: "device option"
  dev_write :: "device option"

record file_st = fs_st +
  ftable :: "nat \<Rightarrow> filerec"
  pipes :: "u64 \<Rightarrow> pipe"
  cons :: console
  devsw :: "nat \<Rightarrow> devsw"
  uart_out :: "byte list"

definition set_pipe :: "u64 \<Rightarrow> (pipe \<Rightarrow> pipe) \<Rightarrow> 'a file_st_scheme \<Rightarrow> 'a file_st_scheme" where
  "set_pipe a f s = s\<lparr>pipes := (pipes s)(a := f (pipes s a))\<rparr>"

section \<open>Operations\<close>

definition pipeclose :: "u64 \<Rightarrow> bool \<Rightarrow> 'a file_st_scheme \<Rightarrow> 'a file_st_scheme res" where
  "pipeclose pi writable s =
     (let s = set_pipe pi (if writable then pi_writeopen_update (\<lambda>_. False) else pi_readopen_update (\<lambda>_. False)) s in
      if \<not> pi_readopen (pipes s pi) \<and> \<not> pi_writeopen (pipes s pi) then kfree pi s else Ok s)"

text \<open>\<open>pi->data[pi->nwrite++ % PIPESIZE] = ch\<close> and \<open>ch = pi->data[pi->nread++ % PIPESIZE]\<close>.\<close>

definition pipe_full :: "pipe \<Rightarrow> bool" where
  "pipe_full p \<longleftrightarrow> pi_nwrite p = pi_nread p + of_nat PIPESIZE"

definition pipe_put :: "byte \<Rightarrow> pipe \<Rightarrow> pipe" where
  "pipe_put ch p =
     p\<lparr>pi_data := (pi_data p)(unat (pi_nwrite p) mod PIPESIZE := ch), pi_nwrite := pi_nwrite p + 1\<rparr>"

definition pipe_get :: "pipe \<Rightarrow> byte \<times> pipe" where
  "pipe_get p = (pi_data p (unat (pi_nread p) mod PIPESIZE), p\<lparr>pi_nread := pi_nread p + 1\<rparr>)"

function pipewrite_loop :: "u64 \<Rightarrow> u64 \<Rightarrow> nat \<Rightarrow> nat \<Rightarrow> 'a file_st_scheme \<Rightarrow> (int \<times> 'a file_st_scheme) res" where
  "pipewrite_loop pi addr n i s =
     (if i < n then
        if \<not> pi_readopen (pipes s pi) \<or> p_killed (myproc s) then Ok (-1, s)
        else if pipe_full (pipes s pi) then Hang
        else
          let (r, xs) = copyin (p_pagetable (myproc s)) (addr + of_nat i) 1 s in
          if r = -1 then Ok (int i, s)
          else pipewrite_loop pi addr n (Suc i) (set_pipe pi (pipe_put (hd xs)) s)
      else Ok (int i, s))"
  by pat_completeness auto
termination by (relation "measure (\<lambda>(pi, addr, n, i, s). n - i)") auto

definition pipewrite :: "u64 \<Rightarrow> u64 \<Rightarrow> int \<Rightarrow> 'a file_st_scheme \<Rightarrow> (int \<times> 'a file_st_scheme) res" where
  "pipewrite pi addr n s = pipewrite_loop pi addr (nat n) 0 s"

function piperead_loop :: "u64 \<Rightarrow> u64 \<Rightarrow> nat \<Rightarrow> nat \<Rightarrow> 'a file_st_scheme \<Rightarrow> int \<times> 'a file_st_scheme" where
  "piperead_loop pi addr n i s =
     (if i < n then
        if pi_nread (pipes s pi) = pi_nwrite (pipes s pi) then (int i, s)
        else
          let (ch, p) = pipe_get (pipes s pi);
              s = set_pipe pi (\<lambda>_. p) s;
              (r, s) = copyout (p_pagetable (myproc s)) (addr + of_nat i) [ch] s in
          if r = -1 then (int i, s) else piperead_loop pi addr n (Suc i) s
      else (int i, s))"
  by pat_completeness auto
termination by (relation "measure (\<lambda>(pi, addr, n, i, s). n - i)") auto

definition piperead :: "u64 \<Rightarrow> u64 \<Rightarrow> int \<Rightarrow> 'a file_st_scheme \<Rightarrow> (int \<times> 'a file_st_scheme) res" where
  "piperead pi addr n s =
     (let p = pipes s pi in
      if pi_nread p = pi_nwrite p \<and> pi_writeopen p then
        if p_killed (myproc s) then Ok (-1, s) else Hang
      else Ok (piperead_loop pi addr (nat n) 0 s))"

section \<open>Specification: a bounded queue\<close>

text \<open>
  The contract of a bounded first-in first-out queue, and what every interleaving of readers
  and writers gets from it.  \<open>qrun\<close> runs a sequence of operations, each of which is enabled
  when it is its turn; an entry \<open>Get x\<close> says that \<open>x\<close> is what was read.
\<close>

datatype 'e qop = Put 'e | Get 'e

fun qrun ::
  "('e \<Rightarrow> 'q \<Rightarrow> 'q) \<Rightarrow> ('q \<Rightarrow> 'e \<times> 'q) \<Rightarrow> ('q \<Rightarrow> bool) \<Rightarrow> ('q \<Rightarrow> bool) \<Rightarrow> 'e qop list \<Rightarrow> 'q \<Rightarrow> 'q option" where
  "qrun put get full isempty [] q = Some q"
| "qrun put get full isempty (Put x # ops) q =
     (if full q then None else qrun put get full isempty ops (put x q))"
| "qrun put get full isempty (Get x # ops) q =
     (if isempty q \<or> fst (get q) \<noteq> x then None else qrun put get full isempty ops (snd (get q)))"

fun puts :: "'e qop list \<Rightarrow> 'e list" where
  "puts [] = []"
| "puts (Put x # ops) = x # puts ops"
| "puts (Get x # ops) = puts ops"

fun gets :: "'e qop list \<Rightarrow> 'e list" where
  "gets [] = []"
| "gets (Put x # ops) = gets ops"
| "gets (Get x # ops) = x # gets ops"

locale fifo =
  fixes put :: "'e \<Rightarrow> 'q \<Rightarrow> 'q" and get :: "'q \<Rightarrow> 'e \<times> 'q"
    and full :: "'q \<Rightarrow> bool" and isempty :: "'q \<Rightarrow> bool"
    and content :: "'q \<Rightarrow> 'e list" and ok :: "'q \<Rightarrow> bool" and cap :: nat
  assumes put_law: "ok q \<Longrightarrow> \<not> full q \<Longrightarrow> ok (put x q) \<and> content (put x q) = content q @ [x]"
    and get_law: "ok q \<Longrightarrow> \<not> isempty q \<Longrightarrow> ok (snd (get q)) \<and> content q = fst (get q) # content (snd (get q))"
    and full_law: "ok q \<Longrightarrow> full q \<longleftrightarrow> length (content q) = cap"
    and empty_law: "ok q \<Longrightarrow> isempty q \<longleftrightarrow> content q = []"
    and cap_law: "ok q \<Longrightarrow> length (content q) \<le> cap"
begin

lemma qrun_content:
  "ok q \<Longrightarrow> qrun put get full isempty ops q = Some r \<Longrightarrow> ok r \<and> content q @ puts ops = gets ops @ content r"
proof (induction ops arbitrary: q)
  case (Cons op ops)
  show ?case
  proof (cases op)
    case (Put x)
    then show ?thesis using Cons.prems Cons.IH[of "put x q"] put_law[of q x] by (simp split: if_splits)
  next
    case (Get x)
    then show ?thesis using Cons.prems Cons.IH[of "snd (get q)"] get_law[of q] by (simp split: if_splits)
  qed
qed simp

lemma qrun_exists:
  "ok q \<Longrightarrow> length (content q) + length xs \<le> cap \<Longrightarrow>
   \<exists>r. qrun put get full isempty (map Put xs) q = Some r \<and> ok r \<and> content r = content q @ xs"
proof (induction xs arbitrary: q)
  case (Cons x xs)
  have "\<not> full q" using full_law[OF Cons.prems(1)] Cons.prems(2) by simp
  then show ?case using put_law[of q x] Cons.IH[of "put x q"] Cons.prems by simp
qed simp

lemma drain:
  "ok q \<Longrightarrow> content q = xs @ ys \<Longrightarrow>
   \<exists>r. qrun put get full isempty (map Get xs) q = Some r \<and> ok r \<and> content r = ys"
proof (induction xs arbitrary: q)
  case (Cons x xs)
  have e: "\<not> isempty q" using empty_law[OF Cons.prems(1)] Cons.prems(2) by simp
  then show ?case using get_law[of q] Cons.IH[of "snd (get q)"] Cons.prems by simp
qed simp

end

text \<open>The content of a pipe: the bytes from \<open>nread\<close> up to \<open>nwrite\<close>, counted modulo \<open>2^32\<close>.\<close>

definition pipe_len :: "pipe \<Rightarrow> nat" where
  "pipe_len p = unat (pi_nwrite p - pi_nread p)"

definition pipe_ok :: "pipe \<Rightarrow> bool" where
  "pipe_ok p \<longleftrightarrow> pipe_len p \<le> PIPESIZE"

definition pipe_content :: "pipe \<Rightarrow> byte list" where
  "pipe_content p = ring PIPESIZE (pi_data p) (pi_nread p) (pipe_len p)"

definition pipe_empty :: "pipe \<Rightarrow> bool" where
  "pipe_empty p \<longleftrightarrow> pi_nread p = pi_nwrite p"

lemma length_content [simp]: "length (pipe_content p) = pipe_len p"
  by (simp add: pipe_content_def)

lemma PIPESIZE_dvd: "PIPESIZE dvd 4294967296"
  by (simp add: PIPESIZE_def)

lemma pipe_full_len: "pipe_full p \<longleftrightarrow> pipe_len p = PIPESIZE"
proof -
  have "pipe_full p \<longleftrightarrow> pi_nwrite p - pi_nread p = of_nat PIPESIZE" by (auto simp: pipe_full_def algebra_simps)
  also have "\<dots> \<longleftrightarrow> pipe_len p = PIPESIZE" by (simp add: pipe_len_def word_unat_eq_iff PIPESIZE_def)
  finally show ?thesis .
qed

lemma pipe_put_len: "pipe_len p < PIPESIZE \<Longrightarrow> pipe_len (pipe_put ch p) = Suc (pipe_len p)"
proof -
  assume l: "pipe_len p < PIPESIZE"
  have "unat (pi_nwrite p - pi_nread p + 1) = Suc (unat (pi_nwrite p - pi_nread p))"
    using l by (subst unat_word_ariths) (simp add: pipe_len_def PIPESIZE_def)
  moreover have "pi_nwrite p + 1 - pi_nread p = pi_nwrite p - pi_nread p + 1" by simp
  ultimately have "unat (pi_nwrite p + 1 - pi_nread p) = Suc (unat (pi_nwrite p - pi_nread p))" by (simp only:)
  then show ?thesis by (simp add: pipe_len_def pipe_put_def)
qed

lemma pipe_put_content:
  assumes "pipe_len p < PIPESIZE"
  shows "pipe_content (pipe_put ch p) = pipe_content p @ [ch]"
proof -
  have w: "pi_nwrite p = pi_nread p + of_nat (pipe_len p)" by (simp add: pipe_len_def)
  then show ?thesis
    using pipe_put_len[OF assms] ring_store[OF PIPESIZE_dvd assms]
    by (simp add: pipe_content_def pipe_put_def ring_Suc)
qed

lemma pipe_get_content:
  assumes "pi_nread p \<noteq> pi_nwrite p"
  shows "pipe_len (snd (pipe_get p)) = pipe_len p - 1"
    and "pipe_content p = fst (pipe_get p) # pipe_content (snd (pipe_get p))"
proof -
  have n: "pi_nwrite p - pi_nread p \<noteq> 0" using assms by simp
  have "unat (pi_nwrite p - pi_nread p - 1) = unat (pi_nwrite p - pi_nread p) - 1" by (rule unat_minus_one[OF n])
  moreover have "pi_nwrite p - (pi_nread p + 1) = pi_nwrite p - pi_nread p - 1" by simp
  ultimately have "unat (pi_nwrite p - (pi_nread p + 1)) = unat (pi_nwrite p - pi_nread p) - 1" by (simp only:)
  then show l: "pipe_len (snd (pipe_get p)) = pipe_len p - 1" by (simp add: pipe_len_def pipe_get_def)
  have "pipe_len p > 0" using n by (simp add: pipe_len_def unat_gt_0)
  then have "pipe_len p = Suc (pipe_len (snd (pipe_get p)))" using l by simp
  then show "pipe_content p = fst (pipe_get p) # pipe_content (snd (pipe_get p))"
    by (simp add: pipe_content_def pipe_get_def ring_Cons)
qed

interpretation pq: fifo pipe_put pipe_get pipe_full pipe_empty pipe_content pipe_ok PIPESIZE
proof
  fix p :: pipe and ch
  assume ok: "pipe_ok p"
  show "pipe_full p \<longleftrightarrow> length (pipe_content p) = PIPESIZE" by (simp add: pipe_full_len pipe_content_def)
  show "pipe_empty p \<longleftrightarrow> pipe_content p = []" by (auto simp: pipe_empty_def pipe_content_def pipe_len_def unat_eq_0)
  show "length (pipe_content p) \<le> PIPESIZE" using ok by (simp add: pipe_ok_def pipe_content_def)
  show "pipe_ok (pipe_put ch p) \<and> pipe_content (pipe_put ch p) = pipe_content p @ [ch]" if "\<not> pipe_full p"
  proof -
    have "pipe_len p < PIPESIZE" using ok that by (simp add: pipe_ok_def pipe_full_len)
    then show ?thesis using pipe_put_len pipe_put_content by (simp add: pipe_ok_def)
  qed
  show "pipe_ok (snd (pipe_get p)) \<and> pipe_content p = fst (pipe_get p) # pipe_content (snd (pipe_get p))" if "\<not> pipe_empty p"
    using ok that pipe_get_content[of p] by (simp add: pipe_ok_def pipe_empty_def)
qed

section \<open>Writing and reading\<close>

declare pipewrite_loop.simps [simp del] piperead_loop.simps [simp del]

lemma set_pipe_simps [simp]:
  "pipes (set_pipe a f s) = (pipes s)(a := f (pipes s a))" "mem (set_pipe a f s) = mem s"
  "myproc (set_pipe a f s) = myproc s"
  by (simp_all add: set_pipe_def myproc_def)

text \<open>\<open>pipe_only pi s t\<close>: of the state, only the pipe \<open>pi\<close> and the memory changed.\<close>

definition pipe_only :: "u64 \<Rightarrow> 'a file_st_scheme \<Rightarrow> 'a file_st_scheme \<Rightarrow> bool" where
  "pipe_only pi s t \<longleftrightarrow> t = s\<lparr>mem := mem t, pipes := (pipes s)(pi := pipes t pi)\<rparr>"

lemma pipe_only_refl: "pipe_only pi s s"
  by (simp add: pipe_only_def)

lemma pipe_only_trans:
  assumes "pipe_only pi s t" "pipe_only pi t u"
  shows "pipe_only pi s u"
proof -
  have t: "t = s\<lparr>mem := mem t, pipes := (pipes s)(pi := pipes t pi)\<rparr>" using assms(1) by (simp add: pipe_only_def)
  have "u = t\<lparr>mem := mem u, pipes := (pipes t)(pi := pipes u pi)\<rparr>" using assms(2) by (simp add: pipe_only_def)
  also have "\<dots> = s\<lparr>mem := mem u, pipes := (pipes s)(pi := pipes u pi)\<rparr>" by (subst (1 2) t) simp
  finally show ?thesis by (simp add: pipe_only_def)
qed

lemma pipe_only_proc: "pipe_only pi s t \<Longrightarrow> myproc t = myproc s"
  unfolding pipe_only_def myproc_def by (erule ssubst) simp

lemma pipe_only_set: "pipe_only pi s (set_pipe pi f s)"
  by (simp add: pipe_only_def set_pipe_def)

lemma copyin_byte:
  "ubyte pt s a = Some b \<Longrightarrow> copyin pt a 1 s = (0, [b])"
  "ubyte pt s a = None \<Longrightarrow> fst (copyin pt a 1 s) = -1"
proof -
  show "ubyte pt s a = Some b \<Longrightarrow> copyin pt a 1 s = (0, [b])" using copyin_iff[of pt a 1 s "[b]"] by simp
  show "fst (copyin pt a 1 s) = -1" if "ubyte pt s a = None"
  proof -
    have "copyin pt a 1 s \<noteq> (0, xs)" for xs using copyin_iff[of pt a 1 s xs] that by auto
    then show ?thesis using copyin_cases[of pt a 1 s] by (cases "copyin pt a 1 s") auto
  qed
qed

lemma pipewrite_loop_spec:
  assumes "i \<le> n" "pipe_ok (pipes s pi)" "pi_readopen (pipes s pi)" "\<not> p_killed (myproc s)"
    and "\<forall>k. i \<le> k \<and> k < n \<longrightarrow> ubyte (p_pagetable (myproc s)) s (addr + of_nat k) = Some (f k)"
  shows "if n - i \<le> PIPESIZE - pipe_len (pipes s pi) then
      \<exists>t. pipewrite_loop pi addr n i s = Ok (int n, t) \<and> mem t = mem s \<and> pipe_only pi s t \<and>
        pipe_ok (pipes t pi) \<and> pipe_content (pipes t pi) = pipe_content (pipes s pi) @ map f [i..<n]
    else pipewrite_loop pi addr n i s = Hang"
  using assms
proof (induction "n - i" arbitrary: i s)
  case 0
  then show ?case by (subst pipewrite_loop.simps) (simp add: pipe_only_refl)
next
  case (Suc d)
  then have i: "i < n" by simp
  let ?s = "set_pipe pi (pipe_put (f i)) s"
  show ?case
  proof (cases "pipe_full (pipes s pi)")
    case True
    then have "pipewrite_loop pi addr n i s = Hang" using Suc.prems(3,4) i by (subst pipewrite_loop.simps) simp
    moreover have "pipe_len (pipes s pi) = PIPESIZE" using True by (simp add: pipe_full_len)
    ultimately show ?thesis using i by simp
  next
    case False
    then have len: "pipe_len (pipes s pi) < PIPESIZE" using Suc.prems(2) by (simp add: pipe_ok_def pipe_full_len)
    have b: "copyin (p_pagetable (myproc s)) (addr + of_nat i) 1 s = (0, [f i])"
      by (rule copyin_byte(1)) (use Suc.prems(5) i in simp)
    have step: "pipewrite_loop pi addr n i s = pipewrite_loop pi addr n (Suc i) ?s"
      using i Suc.prems(3,4) False b by (subst pipewrite_loop.simps) simp
    have p: "pipe_ok (pipe_put (f i) (pipes s pi))" "pipe_len (pipe_put (f i) (pipes s pi)) = Suc (pipe_len (pipes s pi))"
      "pipe_content (pipe_put (f i) (pipes s pi)) = pipe_content (pipes s pi) @ [f i]"
      using pipe_put_len[OF len] pipe_put_content[OF len] len by (simp_all add: pipe_ok_def)
    have u: "ubyte pt ?s a = ubyte pt s a" for pt a
      using walkaddr_mem[of ?s s] by (simp add: ubyte_def uphys_def)
    have IH: "if n - Suc i \<le> PIPESIZE - pipe_len (pipes ?s pi) then
      \<exists>t. pipewrite_loop pi addr n (Suc i) ?s = Ok (int n, t) \<and> mem t = mem ?s \<and> pipe_only pi ?s t \<and>
        pipe_ok (pipes t pi) \<and> pipe_content (pipes t pi) = pipe_content (pipes ?s pi) @ map f [Suc i..<n]
      else pipewrite_loop pi addr n (Suc i) ?s = Hang"
      by (rule Suc.hyps(1)) (use Suc i p(1) u in \<open>auto simp: pipe_put_def\<close>)
    have c: "n - Suc i \<le> PIPESIZE - pipe_len (pipes ?s pi) \<longleftrightarrow> n - i \<le> PIPESIZE - pipe_len (pipes s pi)"
      using i len by (simp add: p(2)) linarith
    have "[i..<n] = i # [Suc i..<n]" using i by (simp add: upt_conv_Cons)
    then show ?thesis
      using IH step unfolding c by (auto simp: p(3) split: if_splits intro: pipe_only_trans[OF pipe_only_set])
  qed
qed

text \<open>One round of \<open>piperead\<close>, and the whole loop while there are bytes.\<close>

lemma piperead_step:
  assumes ok: "pipe_ok (pipes s pi)" and i: "i < n" and ne: "pipe_content (pipes s pi) = b # bs"
    and sep: "user_sep pt (addr + of_nat i) 1 s" and mapped: "ubyte pt s (addr + of_nat i) \<noteq> None"
    and pt: "pt = p_pagetable (myproc s)"
  obtains t where "piperead_loop pi addr n i s = piperead_loop pi addr n (Suc i) t" "pipe_only pi s t"
    "pipe_ok (pipes t pi)" "pipe_content (pipes t pi) = bs" "mem t (uphys pt s (addr + of_nat i)) = b"
    "user_only pt (addr + of_nat i) 1 s (s\<lparr>mem := mem t\<rparr>)"
proof -
  have e: "pi_nread (pipes s pi) \<noteq> pi_nwrite (pipes s pi)" using ne pq.empty_law[OF ok] by (auto simp: pipe_empty_def)
  let ?p = "snd (pipe_get (pipes s pi))"
  let ?s = "set_pipe pi (\<lambda>_. ?p) s"
  have g: "fst (pipe_get (pipes s pi)) = b" "pipe_content ?p = bs" "pipe_ok ?p"
    using pq.get_law[OF ok] e ne by (auto simp: pipe_empty_def)
  have "user_sep pt (addr + of_nat i) (length [b]) ?s" using user_sep_mem[of s ?s, OF _ sep] by simp
  moreover have "walkaddr pt (PGROUNDDOWN (addr + of_nat i)) ?s \<noteq> 0"
    using mapped walkaddr_mem[of ?s s] by (auto simp: ubyte_def split: if_splits)
  ultimately obtain t where t: "copyout pt (addr + of_nat i) [b] ?s = (0, t)" "user_only pt (addr + of_nat i) 1 ?s t"
    "mem t (uphys pt ?s (addr + of_nat i)) = b" using copyout_ok[of pt "addr + of_nat i" "[b]" ?s] by auto
  have t': "t = ?s\<lparr>mem := mem t\<rparr>" using t(2) by (simp add: user_only_def)
  have u: "uphys pt ?s a = uphys pt s a" for a using walkaddr_mem[of ?s s] by (simp add: uphys_def)
  have pp: "pipes t pi = ?p" by (subst t') simp
  have "piperead_loop pi addr n i s = piperead_loop pi addr n (Suc i) t"
    using i e t(1) g(1) by (subst piperead_loop.simps) (simp add: pt Let_def split_beta)
  moreover have "s\<lparr>mem := mem t, pipes := (pipes s)(pi := pipes t pi)\<rparr> = ?s\<lparr>mem := mem t\<rparr>" by (simp add: set_pipe_def pp)
  then have "pipe_only pi s t" unfolding pipe_only_def using t' by (rule trans[rotated, OF sym])
  ultimately show thesis
    using that[of t] g pp t(2,3) by (simp add: u user_only_def)
qed

lemma piperead_loop_spec:
  assumes "i \<le> n" "pipe_ok (pipes s pi)" "n - i \<le> pipe_len (pipes s pi)"
    and "user_sep pt (addr + of_nat i) (n - i) s" "\<forall>k<n - i. ubyte pt s (addr + of_nat i + of_nat k) \<noteq> None"
    and "pt = p_pagetable (myproc s)"
  shows "\<exists>t. piperead_loop pi addr n i s = (int n, t) \<and> pipe_only pi s t \<and> pipe_ok (pipes t pi) \<and>
    pipe_content (pipes t pi) = drop (n - i) (pipe_content (pipes s pi)) \<and>
    user_only pt (addr + of_nat i) (n - i) s (s\<lparr>mem := mem t\<rparr>) \<and>
    (\<forall>k<n - i. mem t (uplace pt s (addr + of_nat i) k) = pipe_content (pipes s pi) ! k)"
  using assms
proof (induction "n - i" arbitrary: i s)
  case 0
  then show ?case by (subst piperead_loop.simps) (simp add: pipe_only_refl user_only_refl)
next
  case (Suc d)
  then have i: "i < n" and d: "n - i = Suc d" "n - Suc i = d" by simp_all
  note sep = Suc.prems(4)[unfolded d]
  obtain b bs where c: "pipe_content (pipes s pi) = b # bs"
    using Suc.prems(3) d by (cases "pipe_content (pipes s pi)") (auto simp: pipe_content_def)
  have "user_sep pt (addr + of_nat i) 1 s" by (rule user_sep_prefix[OF sep]) simp
  moreover have "ubyte pt s (addr + of_nat i) \<noteq> None" using Suc.prems(5)[rule_format, of 0] d by simp
  ultimately obtain t where t: "piperead_loop pi addr n i s = piperead_loop pi addr n (Suc i) t" "pipe_only pi s t"
    "pipe_ok (pipes t pi)" "pipe_content (pipes t pi) = bs" "mem t (uphys pt s (addr + of_nat i)) = b"
    "user_only pt (addr + of_nat i) 1 s (s\<lparr>mem := mem t\<rparr>)"
    by (rule piperead_step[OF Suc.prems(2) i c _ _ Suc.prems(6)])
  let ?a = "addr + of_nat i" and ?s = "s\<lparr>mem := mem t\<rparr>"
  have only: "user_only pt ?a (Suc d) s ?s" by (rule user_only_mono[OF t(6)]) simp
  have a: "addr + of_nat (Suc i) = ?a + of_nat 1" by simp
  have "user_sep pt (?a + of_nat 1) d ?s" using user_sep_next[OF sep only, of 1] by simp
  then have sep': "user_sep pt (addr + of_nat (Suc i)) (n - Suc i) t" unfolding a d by (rule user_sep_mem[rotated]) simp
  have w: "walkaddr pt (PGROUNDDOWN (?a + of_nat k)) t = walkaddr pt (PGROUNDDOWN (?a + of_nat k)) s" if "k < Suc d" for k
    using user_sep_walk(1)[OF sep only that] walkaddr_mem[of ?s t] by simp
  have "\<forall>k<n - Suc i. ubyte pt t (addr + of_nat (Suc i) + of_nat k) \<noteq> None"
  proof (intro allI impI)
    fix k assume "k < n - Suc i"
    then show "ubyte pt t (addr + of_nat (Suc i) + of_nat k) \<noteq> None"
      using w[of "Suc k"] Suc.prems(5)[rule_format, of "Suc k"] d by (simp add: ubyte_def ac_simps split: if_splits)
  qed
  moreover have "n - Suc i \<le> pipe_len (pipes t pi)" 
    using Suc.prems(3) arg_cong[OF c, of length] arg_cong[OF t(4), of length] d by simp
  ultimately obtain u where u: "piperead_loop pi addr n (Suc i) t = (int n, u)" "pipe_only pi t u" "pipe_ok (pipes u pi)"
    "pipe_content (pipes u pi) = drop d bs" "user_only pt (?a + of_nat 1) d t (t\<lparr>mem := mem u\<rparr>)"
    "\<forall>k<d. mem u (uplace pt t (?a + of_nat 1) k) = bs ! k"
    using Suc.hyps(1)[of "Suc i" t] d(2) i t(3,4) sep' Suc.prems(6) pipe_only_proc[OF t(2)] unfolding a d by auto
  have u5: "user_only pt (?a + of_nat 1) (Suc d - 1) ?s (s\<lparr>mem := mem u\<rparr>)"
    using u(5) uphys_mem[of t ?s] by (simp add: user_only_def)
  have all: "user_only pt ?a (Suc d) s (s\<lparr>mem := mem u\<rparr>)" by (rule user_only_next[OF sep only u5])
  have "mem u (uplace pt s ?a k) = (b # bs) ! k" if k: "k < Suc d" for k
  proof (cases k)
    case 0
    have "uplace pt s ?a 0 \<notin> uplace pt ?s (?a + of_nat 1) ` {..<Suc d - 1}"
      by (rule uplace_not_later[OF sep only]) simp_all
    then have "mem u (uplace pt s ?a 0) = mem t (uplace pt s ?a 0)" using u5 by (simp add: user_only_def)
    then show ?thesis using t(5) 0 by simp
  next
    case (Suc j)
    have "uplace pt t (?a + of_nat 1) j = uplace pt s ?a (1 + j)"
      using uplace_next[OF sep only, of j 1] uphys_mem[of t ?s] k Suc by simp
    then show ?thesis using u(6)[rule_format, of j] k Suc by simp
  qed
  then have "\<forall>k<Suc d. mem u (uplace pt s ?a k) = (b # bs) ! k" by blast
  then show ?case
    unfolding d(1) c using t(1) u(1,3,4) all pipe_only_trans[OF t(2) u(2)] by (intro exI[of _ u] conjI) simp_all
qed

text \<open>The loop for more bytes than there are runs like the one for those that are there.\<close>

lemma piperead_loop_stop:
  "m \<le> n \<Longrightarrow> piperead_loop pi addr m i s = (int m, t) \<Longrightarrow> pi_nread (pipes t pi) = pi_nwrite (pipes t pi) \<Longrightarrow>
   piperead_loop pi addr n i s = (int m, t)"
proof (induction "m - i" arbitrary: i s)
  case 0
  then show ?case by (subst (asm) piperead_loop.simps, subst piperead_loop.simps) (auto split: if_splits)
next
  case (Suc d)
  then have i: "i < m" "i < n" by simp_all
  show ?case
  proof (cases "pi_nread (pipes s pi) = pi_nwrite (pipes s pi)")
    case True
    then have "piperead_loop pi addr k i s = (int i, s)" if "i < k" for k
      using that by (subst piperead_loop.simps) simp
    then show ?thesis using i Suc.prems(2) by simp
  next
    case False
    obtain r u where c: "copyout (p_pagetable (myproc s)) (addr + of_nat i) [fst (pipe_get (pipes s pi))]
        (set_pipe pi (\<lambda>_. snd (pipe_get (pipes s pi))) s) = (r, u)" by fastforce
    have "piperead_loop pi addr k i s = (if r = -1 then (int i, u) else piperead_loop pi addr k (Suc i) u)" if "i < k" for k
      using that False c by (subst piperead_loop.simps) (simp add: Let_def split_beta)
    then show ?thesis using i Suc.hyps(1)[of "Suc i" u] Suc.hyps(2) Suc.prems by (simp split: if_splits)
  qed
qed

section \<open>Properties\<close>

text \<open>
  (C19) In every interleaving of readers and writers a pipe is a first-in first-out queue of at
  most \<open>PIPESIZE\<close> bytes: what was in it and what was written comes out in this order, also
  when the counters wrap around at \<open>2^32\<close>.
\<close>

theorem pipe_fifo:
  assumes "pipe_ok p" "qrun pipe_put pipe_get pipe_full pipe_empty ops p = Some q"
  shows "pipe_content p @ puts ops = gets ops @ pipe_content q \<and> length (pipe_content q) \<le> PIPESIZE"
  using pq.qrun_content[OF assms] pq.cap_law[of q] by simp

definition wrap_pipe :: pipe where
  "wrap_pipe = \<lparr>pi_data = (\<lambda>_. 0), pi_nread = 4294967295, pi_nwrite = 4294967295, pi_readopen = True, pi_writeopen = True\<rparr>"

lemma wrap_pipe_ok: "pipe_ok wrap_pipe" "pipe_content wrap_pipe = []"
  by (simp_all add: pipe_ok_def pipe_len_def pipe_content_def wrap_pipe_def)

theorem pipe_fifo_witness:
  "\<exists>q. qrun pipe_put pipe_get pipe_full pipe_empty [Put 1, Put 2, Get 1] wrap_pipe = Some q \<and> pipe_content q = [2]"
proof -
  have "\<exists>q. qrun pipe_put pipe_get pipe_full pipe_empty [Put 1, Put 2, Get 1] wrap_pipe = Some q"
    by (simp add: pipe_put_def pipe_get_def pipe_full_def pipe_empty_def wrap_pipe_def PIPESIZE_def)
  then show ?thesis using pipe_fifo[OF wrap_pipe_ok(1)] wrap_pipe_ok(2) by fastforce
qed

text \<open>A state for the examples: the process of \<open>some_user\<close>, with empty tables.\<close>

definition no_file :: filerec where
  "no_file = \<lparr>f_type = FD_NONE, f_ref = 0, f_readable = False, f_writable = False, f_pipe = 0, f_ip = None,
     f_off = 0, f_major = 0\<rparr>"

definition some_files :: file_st where
  "some_files =
     (some_fs (file_st.fields (\<lambda>_. no_file) (\<lambda>_. wrap_pipe) \<lparr>c_buf = (\<lambda>_. 0), c_r = 0, c_w = 0, c_e = 0\<rparr>
        (\<lambda>_. \<lparr>dev_read = None, dev_write = None\<rparr>) []))\<lparr>mem := mem some_user, procs := procs some_user\<rparr>"

lemma some_files_simps:
  "mem some_files = mem some_user" "procs some_files = procs some_user" "curproc some_files = 0"
  "pipes some_files = (\<lambda>_. wrap_pipe)" "ftable some_files = (\<lambda>_. no_file)"
  and some_files_cons: "cons some_files = \<lparr>c_buf = (\<lambda>_. 0), c_r = 0, c_w = 0, c_e = 0\<rparr>"
proof -
  obtain bs where e: "some_files = (power_on some_disk \<lparr>sb = some_sb, itable = (\<lambda>_. zero_inode),
      \<dots> = file_st.fields (\<lambda>_. no_file) (\<lambda>_. wrap_pipe) \<lparr>c_buf = (\<lambda>_. 0), c_r = 0, c_w = 0, c_e = 0\<rparr>
        (\<lambda>_. \<lparr>dev_read = None, dev_write = None\<rparr>) []\<rparr>)\<lparr>bufs := bs, mem := mem some_user, procs := procs some_user\<rparr>"
    unfolding some_files_def using some_fs_eq by metis
  show "mem some_files = mem some_user" "procs some_files = procs some_user" "curproc some_files = 0"
    "pipes some_files = (\<lambda>_. wrap_pipe)" "ftable some_files = (\<lambda>_. no_file)"
    "cons some_files = \<lparr>c_buf = (\<lambda>_. 0), c_r = 0, c_w = 0, c_e = 0\<rparr>"
    by (simp_all add: e power_on_def file_st.defs)
qed

lemma some_files_user:
  "p_pagetable (myproc some_files) = 4096" "\<not> p_killed (myproc some_files)"
  "k < 4096 \<Longrightarrow> ubyte 4096 some_files (of_nat k) = Some 0"
  "n \<le> 4096 \<Longrightarrow> user_sep 4096 0 n some_files"
proof -
  show "p_pagetable (myproc some_files) = 4096" "\<not> p_killed (myproc some_files)"
    by (simp_all add: myproc_def some_files_simps some_user_def zero_proc_def)
  show "user_sep 4096 0 n some_files" if "n \<le> 4096"
    by (rule user_sep_mem[OF _ some_user_sep[OF that]]) (simp add: some_files_simps)
  show "ubyte 4096 some_files (of_nat k) = Some 0" if k: "k < 4096"
  proof -
    have "ubyte 4096 some_files (of_nat k) = ubyte 4096 some_user (of_nat k)"
      using walkaddr_mem[of some_files some_user] uphys_mem[of some_files some_user] by (simp add: ubyte_def some_files_simps)
    also have "\<dots> = Some (mem some_user (16384 + k))" using some_page[OF k] by (simp add: ubyte_def)
    also have "mem some_user (16384 + k) = 0" by (simp add: some_user_def put_outside)
    finally show ?thesis .
  qed
qed

text \<open>
  (C20) \<open>pipewrite\<close> of \<open>n\<close> mapped bytes to a pipe with an open reader returns \<open>n\<close> with the bytes
  appended if they fit, and otherwise has to wait for a reader.
\<close>

theorem pipewrite_spec:
  assumes "0 \<le> n" "pipe_ok (pipes s pi)" "pi_readopen (pipes s pi)" "\<not> p_killed (myproc s)"
    and "map (\<lambda>k. ubyte (p_pagetable (myproc s)) s (addr + of_nat k)) [0..<nat n] = map Some xs"
  shows "(length xs \<le> PIPESIZE - pipe_len (pipes s pi) \<longrightarrow>
      (\<exists>t. pipewrite pi addr n s = Ok (n, t) \<and> pipe_only pi s t \<and> mem t = mem s \<and>
        pipe_content (pipes t pi) = pipe_content (pipes s pi) @ xs)) \<and>
    (PIPESIZE - pipe_len (pipes s pi) < length xs \<longrightarrow> pipewrite pi addr n s = Hang)"
proof -
  from assms(5) have x: "length xs = nat n" "\<forall>k<nat n. ubyte (p_pagetable (myproc s)) s (addr + of_nat k) = Some (xs ! k)"
    unfolding map_Some_eq by simp_all
  have "map ((!) xs) [0..<nat n] = xs" using x(1) map_nth[of xs] by simp
  moreover have "\<forall>k. 0 \<le> k \<and> k < nat n \<longrightarrow> ubyte (p_pagetable (myproc s)) s (addr + of_nat k) = Some (xs ! k)" using x(2) by simp
  ultimately show ?thesis
    using pipewrite_loop_spec[of 0 "nat n" s pi addr "(!) xs"] assms(1-4) x(1) by (auto simp: pipewrite_def split: if_splits)
qed

theorem pipewrite_spec_witness:
  "\<exists>t. pipewrite 0 0 2 some_files = Ok (2, t) \<and> pipe_content (pipes t 0) = [0, 0]"
proof -
  have m: "map (\<lambda>k. ubyte (p_pagetable (myproc some_files)) some_files (0 + of_nat k)) [0..<nat 2] = map Some [0, 0]"
    using some_files_user(3)[of 0] some_files_user(3)[of 1] by (simp add: some_files_user(1) numeral_2_eq_2)
  have "pipe_ok (pipes some_files 0)" "pi_readopen (pipes some_files 0)"
    by (simp_all add: some_files_simps wrap_pipe_ok) (simp add: wrap_pipe_def)
  from pipewrite_spec[OF _ this some_files_user(2) m] show ?thesis
    by (auto simp: some_files_simps wrap_pipe_ok pipe_len_def PIPESIZE_def) (simp_all add: wrap_pipe_def)
qed

text \<open>
  (C21) \<open>piperead\<close> of \<open>n\<close> bytes from a pipe that holds at least one returns the number of bytes
  available, at most \<open>n\<close>; they are the oldest bytes of the pipe, they are now in the user's
  buffer, and the rest stays in the pipe.
\<close>

theorem piperead_spec:
  assumes n: "0 \<le> n" "m = min (nat n) (pipe_len (pipes s pi))" and ok: "pipe_ok (pipes s pi)" "pipe_len (pipes s pi) > 0"
    and pt: "pt = p_pagetable (myproc s)" and sep: "user_sep pt addr m s"
    and mapped: "\<forall>k<m. ubyte pt s (addr + of_nat k) \<noteq> None"
  shows "\<exists>t. piperead pi addr n s = Ok (int m, t) \<and> pipe_only pi s t \<and>
    pipe_content (pipes t pi) = drop m (pipe_content (pipes s pi)) \<and>
    copyin pt addr m t = (0, take m (pipe_content (pipes s pi)))"
proof -
  have m: "m \<le> nat n" "m \<le> pipe_len (pipes s pi)" using n by simp_all
  obtain t where t: "piperead_loop pi addr m 0 s = (int m, t)" "pipe_only pi s t" "pipe_ok (pipes t pi)"
    "pipe_content (pipes t pi) = drop m (pipe_content (pipes s pi))" "user_only pt addr m s (s\<lparr>mem := mem t\<rparr>)"
    "\<forall>k<m. mem t (uplace pt s addr k) = pipe_content (pipes s pi) ! k"
    using piperead_loop_spec[of 0 m s pi pt addr] ok(1) m(2) sep mapped pt by auto
  have "ubyte pt t (addr + of_nat k) = Some (pipe_content (pipes s pi) ! k)" if "k < m" for k
    using user_sep_walk[OF sep t(5) that] t(6) mapped that walkaddr_mem[of "s\<lparr>mem := mem t\<rparr>" t] uphys_mem[of "s\<lparr>mem := mem t\<rparr>" t]
    by (auto simp: ubyte_def split: if_splits)
  then have c: "copyin pt addr m t = (0, take m (pipe_content (pipes s pi)))" using m(2) by (simp add: copyin_iff)
  have "piperead_loop pi addr (nat n) 0 s = (int m, t)"
  proof (cases "m = nat n")
    case False
    then have "pipe_content (pipes t pi) = []" using t(4) n(2) by simp
    then have "pi_nread (pipes t pi) = pi_nwrite (pipes t pi)" using pq.empty_law[OF t(3)] by (simp add: pipe_empty_def)
    then show ?thesis using t(1) by (intro piperead_loop_stop[OF m(1)])
  qed (use t(1) in simp)
  moreover have "pi_nread (pipes s pi) \<noteq> pi_nwrite (pipes s pi)" using ok(2) by (auto simp: pipe_len_def)
  ultimately show ?thesis using t(2,4) c by (simp add: piperead_def Let_def)
qed

theorem piperead_spec_witness:
  "\<exists>t. piperead 0 0 5 (set_pipe 0 (\<lambda>p. pipe_put 8 (pipe_put 7 p)) some_files) = Ok (2, t) \<and> pipe_content (pipes t 0) = [] \<and>
     copyin 4096 0 2 t = (0, [7, 8])"
proof -
  let ?s = "set_pipe 0 (\<lambda>p. pipe_put 8 (pipe_put 7 p)) some_files"
  have l: "pipe_len wrap_pipe = 0" by (simp add: pipe_len_def wrap_pipe_def)
  have p: "pipe_len (pipes ?s 0) = 2" "pipe_content (pipes ?s 0) = [7, 8]"
    using pipe_put_content[of wrap_pipe 7] pipe_put_content[of "pipe_put 7 wrap_pipe" 8]
      pipe_put_len[of wrap_pipe 7] pipe_put_len[of "pipe_put 7 wrap_pipe" 8]
    by (simp_all add: some_files_simps l PIPESIZE_def wrap_pipe_ok)
  have sep: "user_sep 4096 0 2 ?s" by (rule user_sep_mem[OF _ some_files_user(4)]) simp_all
  have "ubyte 4096 ?s (of_nat k) = ubyte 4096 some_files (of_nat k)" for k
    using walkaddr_mem[of ?s some_files] uphys_mem[of ?s some_files] by (simp add: ubyte_def)
  then have "\<forall>k<2. ubyte 4096 ?s (0 + of_nat k) \<noteq> None" using some_files_user(3) by simp
  from piperead_spec[where n = 5, OF _ _ _ _ _ sep this, of 0] show ?thesis
    using p by (auto simp: pipe_ok_def some_files_user(1) PIPESIZE_def)
qed

end
