(* ===== verification/Console.thy ===== *)
theory Console
  imports Pipe
begin

text \<open>
  The console (\<open>kernel/console.c\<close>): line editing in the interrupt handler \<open>consoleintr\<close>, and
  \<open>consoleread\<close> and \<open>consolewrite\<close> behind \<open>devsw\<close>.

  \<open>uart_out\<close> collects the characters handed to the serial line (\<open>uartputc\<close> and
  \<open>uartputc_sync\<close>); the registers of the device are not part of the model.  The three indices
  \<open>r\<close>, \<open>w\<close>, \<open>e\<close> count modulo \<open>2^32\<close>.  A reader that finds no complete line waits (\<open>Hang\<close>).

  The theorems: the handler implements a line editor on two lists, the input that is complete
  and the line that is being typed; the buffer never overflows; \<open>consoleread\<close> takes from the
  front of the complete input, at most one line at a time.
\<close>

definition INPUT_BUF :: nat where "INPUT_BUF = 128"
definition CONSOLE :: nat where "CONSOLE = 1"
definition BACKSPACE :: int where "BACKSPACE = 0x100"

text \<open>\<open>C(x)\<close>: the character that Control-x sends.\<close>

definition Ctrl :: "int \<Rightarrow> int" where "Ctrl x = x - 64"

definition uartputc :: "byte \<Rightarrow> 'a file_st_scheme \<Rightarrow> 'a file_st_scheme" where
  "uartputc c s = s\<lparr>uart_out := uart_out s @ [c]\<rparr>"

definition consputc :: "int \<Rightarrow> 'a file_st_scheme \<Rightarrow> 'a file_st_scheme" where
  "consputc c s =
     (if c = BACKSPACE then uartputc 8 (uartputc 32 (uartputc 8 s)) else uartputc (of_int c) s)"

definition set_cons :: "(console \<Rightarrow> console) \<Rightarrow> 'a file_st_scheme \<Rightarrow> 'a file_st_scheme" where
  "set_cons f s = s\<lparr>cons := f (cons s)\<rparr>"

function consolewrite_loop :: "loc \<Rightarrow> bytes \<Rightarrow> nat \<Rightarrow> nat \<Rightarrow> 'a file_st_scheme \<Rightarrow> int \<times> 'a file_st_scheme" where
  "consolewrite_loop src kb n i s =
     (if i < n then
        let (r, xs) = either_copyin (loc_plus src i) 1 kb s in
        if r = -1 then (int i, s) else consolewrite_loop src kb n (Suc i) (uartputc (hd xs) s)
      else (int i, s))"
  by pat_completeness auto
termination by (relation "measure (\<lambda>(src, kb, n, i, s). n - i)") auto

definition consolewrite :: "loc \<Rightarrow> bytes \<Rightarrow> int \<Rightarrow> 'a file_st_scheme \<Rightarrow> int \<times> 'a file_st_scheme" where
  "consolewrite src kb n s = consolewrite_loop src kb (nat n) 0 s"

text \<open>\<open>n\<close> is what is left to read of \<open>target\<close> bytes.\<close>

fun consoleread_loop ::
  "loc \<Rightarrow> bytes \<Rightarrow> nat \<Rightarrow> nat \<Rightarrow> 'a file_st_scheme \<Rightarrow> (int \<times> bytes \<times> 'a file_st_scheme) res" where
  "consoleread_loop dst kb target 0 s = Ok (int target, kb, s)"
| "consoleread_loop dst kb target (Suc n) s =
     (if c_r (cons s) = c_w (cons s) then if p_killed (myproc s) then Ok (-1, kb, s) else Hang
      else
        let c = c_buf (cons s) (unat (c_r (cons s)) mod INPUT_BUF);
            s = set_cons (\<lambda>k. k\<lparr>c_r := c_r k + 1\<rparr>) s in
        if uint c = Ctrl 68 then
          Ok (int target - int (Suc n), kb, if Suc n < target then set_cons (\<lambda>k. k\<lparr>c_r := c_r k - 1\<rparr>) s else s)
        else
          let (r, kb, s) = either_copyout dst [c] kb s in
          if r = -1 then Ok (int target - int (Suc n), kb, s)
          else if uint c = 10 then Ok (int target - int n, kb, s)
          else consoleread_loop (loc_plus dst 1) kb target n s)"

definition consoleread :: "loc \<Rightarrow> bytes \<Rightarrow> int \<Rightarrow> 'a file_st_scheme \<Rightarrow> (int \<times> bytes \<times> 'a file_st_scheme) res" where
  "consoleread dst kb n s =
     (if n \<le> 0 then Ok (0, kb, s) else consoleread_loop dst kb (nat n) (nat n) s)"

text \<open>Control-U: erase back to the start of the line.\<close>

function kill_line :: "'a file_st_scheme \<Rightarrow> 'a file_st_scheme" where
  "kill_line s =
     (let k = cons s in
      if c_e k \<noteq> c_w k \<and> uint (c_buf k (unat (c_e k - 1) mod INPUT_BUF)) \<noteq> 10 then
        kill_line (consputc BACKSPACE (set_cons (\<lambda>k. k\<lparr>c_e := c_e k - 1\<rparr>) s))
      else s)"
  by pat_completeness auto
termination
proof (relation "measure (\<lambda>s. unat (c_e (cons s) - c_w (cons s)))", goal_cases)
  case (2 s k)
  let ?d = "c_e (cons s) - c_w (cons s)"
  have "?d \<noteq> 0" using 2 by auto
  then have "unat (?d - 1) < unat ?d" by (metis measure_unat)
  then show ?case by (simp add: set_cons_def consputc_def uartputc_def diff_right_commute)
qed simp

definition store_char :: "int \<Rightarrow> 'a file_st_scheme \<Rightarrow> 'a file_st_scheme" where
  "store_char c s =
     (let k = cons s in
      if c \<noteq> 0 \<and> c_e k - c_r k < of_nat INPUT_BUF then
        let c = (if c = 13 then 10 else c);
            s = consputc c s;
            s = set_cons (\<lambda>k. k\<lparr>c_buf := (c_buf k)(unat (c_e k) mod INPUT_BUF := of_int c), c_e := c_e k + 1\<rparr>) s;
            k = cons s in
        if c = 10 \<or> c = Ctrl 68 \<or> c_e k = c_r k + of_nat INPUT_BUF then set_cons (\<lambda>k. k\<lparr>c_w := c_e k\<rparr>) s else s
      else s)"

definition consoleintr :: "int \<Rightarrow> 'a file_st_scheme \<Rightarrow> 'a file_st_scheme" where
  "consoleintr c s =
     (if c = Ctrl 80 then s
      else if c = Ctrl 85 then kill_line s
      else if c = Ctrl 72 \<or> c = 127 then
        if c_e (cons s) \<noteq> c_w (cons s) then consputc BACKSPACE (set_cons (\<lambda>k. k\<lparr>c_e := c_e k - 1\<rparr>) s) else s
      else store_char c s)"

definition consoleinit :: "'a file_st_scheme \<Rightarrow> 'a file_st_scheme" where
  "consoleinit s = s\<lparr>devsw := (devsw s)(CONSOLE := \<lparr>dev_read = Some Console_dev, dev_write = Some Console_dev\<rparr>)\<rparr>"

section \<open>Specification: a line editor\<close>

text \<open>The complete input that has not been read yet, and the line that is being edited.\<close>

definition pending :: "console \<Rightarrow> byte list" where
  "pending k = ring INPUT_BUF (c_buf k) (c_r k) (unat (c_w k - c_r k))"

definition line :: "console \<Rightarrow> byte list" where
  "line k = ring INPUT_BUF (c_buf k) (c_w k) (unat (c_e k - c_w k))"

definition cons_ok :: "console \<Rightarrow> bool" where
  "cons_ok k \<longleftrightarrow> length (pending k) + length (line k) \<le> INPUT_BUF \<and> 10 \<notin> set (line k)"

text \<open>The effect of one character on the two lists.\<close>

fun edit :: "int \<Rightarrow> byte list \<times> byte list \<Rightarrow> byte list \<times> byte list" where
  "edit c (p, l) =
     (if c = Ctrl 80 then (p, l)
      else if c = Ctrl 85 then (p, [])
      else if c = Ctrl 72 \<or> c = 127 then (p, butlast l)
      else if c = 0 \<or> length p + length l \<ge> INPUT_BUF then (p, l)
      else
        let c = (if c = 13 then 10 else c); l = l @ [of_int c] in
        if c = 10 \<or> c = Ctrl 68 \<or> length p + length l = INPUT_BUF then (p @ l, []) else (p, l))"

declare kill_line.simps [simp del]

lemma INPUT_BUF_dvd: "INPUT_BUF dvd 4294967296"
  by (simp add: INPUT_BUF_def)

lemma cons_of_putc [simp]: "cons (consputc c s) = cons s" "cons (set_cons f s) = f (cons s)"
  by (simp_all add: consputc_def uartputc_def set_cons_def)

lemma cons_ok_len:
  assumes "cons_ok k"
  shows "unat (c_w k - c_r k) + unat (c_e k - c_w k) \<le> 128"
    and "unat (c_e k - c_r k) = unat (c_w k - c_r k) + unat (c_e k - c_w k)"
proof -
  show l: "unat (c_w k - c_r k) + unat (c_e k - c_w k) \<le> 128"
    using assms by (simp add: cons_ok_def pending_def line_def INPUT_BUF_def)
  have "unat ((c_w k - c_r k) + (c_e k - c_w k)) = unat (c_w k - c_r k) + unat (c_e k - c_w k)"
    using l by (subst unat_add_lem[THEN iffD1]) auto
  moreover have "(c_w k - c_r k) + (c_e k - c_w k) = c_e k - c_r k" by simp
  ultimately show "unat (c_e k - c_r k) = unat (c_w k - c_r k) + unat (c_e k - c_w k)" by (simp only:)
qed

text \<open>Erasing the last character.\<close>

lemma erase:
  assumes ok: "cons_ok k" and ne: "c_e k \<noteq> c_w k"
  shows "pending (k\<lparr>c_e := c_e k - 1\<rparr>) = pending k"
    and "line k = line (k\<lparr>c_e := c_e k - 1\<rparr>) @ [c_buf k (unat (c_e k - 1) mod INPUT_BUF)]"
    and "cons_ok (k\<lparr>c_e := c_e k - 1\<rparr>)"
proof -
  have n: "c_e k - c_w k \<noteq> 0" using ne by simp
  then obtain m where m: "unat (c_e k - c_w k) = Suc m" by (metis unat_eq_0 not0_implies_Suc)
  have "unat (c_e k - 1 - c_w k) = m" using unat_minus_one[OF n] m by (simp add: diff_right_commute)
  moreover have "c_w k + of_nat m = c_e k - 1"
    using arg_cong[OF m, of "of_nat :: nat \<Rightarrow> u32"] by (simp add: algebra_simps)
  ultimately show l: "line k = line (k\<lparr>c_e := c_e k - 1\<rparr>) @ [c_buf k (unat (c_e k - 1) mod INPUT_BUF)]"
    by (simp add: line_def m ring_Suc)
  show p: "pending (k\<lparr>c_e := c_e k - 1\<rparr>) = pending k" by (simp add: pending_def)
  show "cons_ok (k\<lparr>c_e := c_e k - 1\<rparr>)" using ok arg_cong[OF l, of set] arg_cong[OF l, of length] by (simp add: cons_ok_def p)
qed

lemma kill_line_cons: "cons_ok (cons s) \<Longrightarrow> cons (kill_line s) = (cons s)\<lparr>c_e := c_w (cons s)\<rparr>"
proof (induction s rule: kill_line.induct)
  case (1 s)
  let ?k = "cons s"
  show ?case
  proof (cases "c_e ?k = c_w ?k")
    case True
    then show ?thesis by (subst kill_line.simps) (simp add: Let_def)
  next
    case False
    note e = erase[OF "1.prems" False]
    have "10 \<notin> set (line ?k)" using "1.prems" by (simp add: cons_ok_def)
    then have "c_buf ?k (unat (c_e ?k - 1) mod INPUT_BUF) \<noteq> 10" by (subst (asm) e(2)) auto
    then have b: "uint (c_buf ?k (unat (c_e ?k - 1) mod INPUT_BUF)) \<noteq> 10" by (metis word_of_int_uint of_int_numeral)
    then have "kill_line s = kill_line (consputc BACKSPACE (set_cons (\<lambda>k. k\<lparr>c_e := c_e k - 1\<rparr>) s))"
      using False by (subst kill_line.simps) (simp add: Let_def)
    then show ?thesis using "1.IH"[OF refl _] False b e(3) by simp
  qed
qed

text \<open>Storing a character.\<close>

lemma store:
  assumes ok: "cons_ok k" and room: "c_e k - c_r k < of_nat INPUT_BUF"
    and k': "k' = k\<lparr>c_buf := (c_buf k)(unat (c_e k) mod INPUT_BUF := c), c_e := c_e k + 1\<rparr>"
  shows "pending k' = pending k" "line k' = line k @ [c]" "pending (k'\<lparr>c_w := c_e k'\<rparr>) = pending k @ line k @ [c]"
    "line (k'\<lparr>c_w := c_e k'\<rparr>) = []" "c_e k' = c_r k' + of_nat INPUT_BUF \<longleftrightarrow> length (pending k) + length (line k) + 1 = INPUT_BUF"
proof -
  let ?p = "unat (c_w k - c_r k)" and ?l = "unat (c_e k - c_w k)"
  note len = cons_ok_len[OF ok]
  have lt: "?p + ?l < 128" using room len(2) by (simp add: word_less_nat_alt INPUT_BUF_def)
  have e: "c_e k = c_r k + of_nat (?p + ?l)" "c_e k = c_w k + of_nat ?l" by simp_all
  have l': "unat (c_e k + 1 - c_w k) = Suc ?l"
  proof -
    have "unat (c_e k - c_w k + 1) = Suc ?l" using lt by (subst unat_word_ariths) simp
    moreover have "c_e k + 1 - c_w k = c_e k - c_w k + 1" by simp
    ultimately show ?thesis by (simp only:)
  qed
  have r': "unat (c_e k + 1 - c_r k) = Suc (?p + ?l)"
  proof -
    have "unat (c_e k - c_r k + 1) = Suc (?p + ?l)" using lt len(2) by (subst unat_word_ariths) simp
    moreover have "c_e k + 1 - c_r k = c_e k - c_r k + 1" by simp
    ultimately show ?thesis by (simp only:)
  qed
  let ?d = "(c_buf k)(unat (c_e k) mod INPUT_BUF := c)"
  have all: "ring INPUT_BUF ?d (c_r k) (?p + ?l) = ring INPUT_BUF (c_buf k) (c_r k) (?p + ?l)"
    by (subst e(1), rule ring_store[OF INPUT_BUF_dvd]) (use lt in \<open>simp add: INPUT_BUF_def\<close>)
  then have pl: "ring INPUT_BUF ?d (c_r k) ?p = pending k" "ring INPUT_BUF ?d (c_w k) ?l = line k"
    unfolding ring_append by (simp_all add: pending_def line_def)
  show p: "pending k' = pending k" using pl(1) by (simp add: pending_def k')
  show l: "line k' = line k @ [c]"
    using pl(2) by (simp add: line_def k' l' ring_Suc)
  show "line (k'\<lparr>c_w := c_e k'\<rparr>) = []" by (simp add: line_def)
  have "pending (k'\<lparr>c_w := c_e k'\<rparr>) = ring INPUT_BUF ?d (c_r k) (?p + ?l) @ [c]"
    by (simp add: pending_def k' r' ring_Suc)
  then show "pending (k'\<lparr>c_w := c_e k'\<rparr>) = pending k @ line k @ [c]" unfolding ring_append by (simp add: pl)
  have "c_e k' = c_r k' + of_nat INPUT_BUF \<longleftrightarrow> c_e k + 1 - c_r k = 128" by (auto simp: k' INPUT_BUF_def algebra_simps)
  also have "\<dots> \<longleftrightarrow> unat (c_e k + 1 - c_r k) = 128" by (simp add: word_unat_eq_iff)
  finally show "c_e k' = c_r k' + of_nat INPUT_BUF \<longleftrightarrow> length (pending k) + length (line k) + 1 = INPUT_BUF"
    by (simp add: r' pending_def line_def INPUT_BUF_def)
qed

lemma store_char_refines:
  assumes ok: "cons_ok (cons s)" and c: "0 \<le> c" "c < 256"
  shows "cons_ok (cons (store_char c s)) \<and>
    (pending (cons (store_char c s)), line (cons (store_char c s))) =
      (if c = 0 \<or> length (pending (cons s)) + length (line (cons s)) \<ge> INPUT_BUF then (pending (cons s), line (cons s))
       else let c = (if c = 13 then 10 else c); l = line (cons s) @ [of_int c] in
            if c = 10 \<or> c = Ctrl 68 \<or> length (pending (cons s)) + length l = INPUT_BUF
            then (pending (cons s) @ l, []) else (pending (cons s), l))"
proof (cases "c = 0 \<or> length (pending (cons s)) + length (line (cons s)) \<ge> INPUT_BUF")
  case True
  then have "c = 0 \<or> \<not> c_e (cons s) - c_r (cons s) < of_nat INPUT_BUF"
    using cons_ok_len(2)[OF ok] by (auto simp: pending_def line_def word_less_nat_alt INPUT_BUF_def)
  then have "store_char c s = s" by (auto simp: store_char_def)
  then show ?thesis using True ok by auto
next
  case False
  then have room: "c_e (cons s) - c_r (cons s) < of_nat INPUT_BUF"
    using cons_ok_len(2)[OF ok] by (simp add: pending_def line_def word_less_nat_alt INPUT_BUF_def)
  define c' where "c' = (if c = 13 then 10 else c)"
  define k' where "k' = (cons s)\<lparr>c_buf := (c_buf (cons s))(unat (c_e (cons s)) mod INPUT_BUF := of_int c'), c_e := c_e (cons s) + 1\<rparr>"
  note st = store[OF ok room k'_def]
  have "10 \<notin> set (line (cons s))" using ok by (simp add: cons_ok_def)
  moreover have "(of_int c' :: byte) \<noteq> 10" if "c' \<noteq> 10"
  proof
    assume "(of_int c' :: byte) = 10"
    then have "uint (of_int c' :: byte) = 10" by simp
    moreover have "uint (of_int c' :: byte) = c'" using c by (simp add: c'_def uint_word_of_int)
    ultimately show False using that by simp
  qed
  moreover have "cons (store_char c s) =
    (if c' = 10 \<or> c' = Ctrl 68 \<or> c_e k' = c_r k' + of_nat INPUT_BUF then k'\<lparr>c_w := c_e k'\<rparr> else k')"
    using False room by (simp add: store_char_def Let_def k'_def c'_def)
  ultimately show ?thesis using False st by (auto simp: Let_def cons_ok_def simp flip: c'_def)
qed

text \<open>\<open>consoleread\<close> takes one character from the front of the complete input.\<close>

lemma take_char:
  assumes ok: "cons_ok k" and ne: "c_r k \<noteq> c_w k"
  shows "pending k = c_buf k (unat (c_r k) mod INPUT_BUF) # pending (k\<lparr>c_r := c_r k + 1\<rparr>)"
    and "line (k\<lparr>c_r := c_r k + 1\<rparr>) = line k" and "cons_ok (k\<lparr>c_r := c_r k + 1\<rparr>)"
proof -
  have n: "c_w k - c_r k \<noteq> 0" using ne by simp
  then obtain m where m: "unat (c_w k - c_r k) = Suc m" by (metis unat_eq_0 not0_implies_Suc)
  have "c_w k - (c_r k + 1) = c_w k - c_r k - 1" by simp
  then have "unat (c_w k - (c_r k + 1)) = m" using unat_minus_one[OF n] m by (simp only:)
  then show p: "pending k = c_buf k (unat (c_r k) mod INPUT_BUF) # pending (k\<lparr>c_r := c_r k + 1\<rparr>)"
    by (simp add: pending_def m ring_Cons)
  show l: "line (k\<lparr>c_r := c_r k + 1\<rparr>) = line k" by (simp add: line_def)
  show "cons_ok (k\<lparr>c_r := c_r k + 1\<rparr>)" using ok arg_cong[OF p, of length] by (simp add: cons_ok_def l)
qed

lemma pending_empty: "pending k = [] \<longleftrightarrow> c_r k = c_w k"
  by (auto simp: pending_def unat_eq_0)

text \<open>A line in the buffer, read into an object of the kernel.\<close>

lemma consoleread_loop_line:
  assumes "cons_ok (cons s)" "pending (cons s) = xs @ 10 # ps" "10 \<notin> set xs" "4 \<notin> set xs" "length xs < n" "n \<le> target"
  shows "\<exists>t. consoleread_loop (Obj i) kb target n s = Ok (int target - int n + int (length xs) + 1, put_bytes kb i (xs @ [10]), t) \<and>
    pending (cons t) = ps \<and> line (cons t) = line (cons s) \<and> cons_ok (cons t)"
  using assms
proof (induction xs arbitrary: i kb n s)
  case Nil
  then obtain m where n: "n = Suc m" by (cases n) auto
  have ne: "c_r (cons s) \<noteq> c_w (cons s)" using Nil.prems(2) pending_empty[of "cons s"] by auto
  note t = take_char[OF Nil.prems(1) ne]
  have c: "c_buf (cons s) (unat (c_r (cons s)) mod INPUT_BUF) = 10" using t(1) Nil.prems(2) by simp
  have "put_bytes kb i [10] = (\<lambda>j. if i \<le> j \<and> j < i + 1 then [10] ! (j - i) else kb j)" by (simp add: put_bytes_def)
  then show ?case using n ne c t Nil.prems(2) by (simp add: Ctrl_def Let_def fun_eq_iff)
next
  case (Cons x xs)
  then obtain m where n: "n = Suc m" by (cases n) auto
  let ?s = "set_cons (\<lambda>k. k\<lparr>c_r := c_r k + 1\<rparr>) s"
  let ?kb = "\<lambda>j. if i \<le> j \<and> j < i + 1 then [x] ! (j - i) else kb j"
  have ne: "c_r (cons s) \<noteq> c_w (cons s)" using Cons.prems(2) pending_empty[of "cons s"] by auto
  note t = take_char[OF Cons.prems(1) ne]
  have c: "c_buf (cons s) (unat (c_r (cons s)) mod INPUT_BUF) = x" using t(1) Cons.prems(2) by simp
  have x: "uint x \<noteq> 10" "uint x \<noteq> 4" using Cons.prems(3,4) by (metis list.set_intros(1) of_int_numeral word_of_int_uint)+
  have step: "consoleread_loop (Obj i) kb target n s = consoleread_loop (Obj (i + 1)) ?kb target m ?s"
    using ne c x n by (simp add: Ctrl_def Let_def)
  have "put_bytes ?kb (i + 1) (xs @ [10]) = put_bytes kb i (x # xs @ [10])"
    by (auto simp: put_bytes_def fun_eq_iff nth_Cons')
  then show ?case
    unfolding step using Cons.IH[of ?s m "i + 1" ?kb] Cons.prems n t by (simp add: algebra_simps)
qed

section \<open>Properties\<close>

text \<open>
  (C22) The interrupt handler implements a line editor on two lists: the complete input and the
  line being typed.  The lists never hold more than \<open>INPUT_BUF\<close> characters together.
\<close>

theorem consoleintr_refines:
  assumes "cons_ok (cons s)" "0 \<le> c" "c < 256"
  shows "cons_ok (cons (consoleintr c s)) \<and>
    (pending (cons (consoleintr c s)), line (cons (consoleintr c s))) = edit c (pending (cons s), line (cons s))"
proof -
  have "cons_ok ((cons s)\<lparr>c_e := c_w (cons s)\<rparr>)" "line ((cons s)\<lparr>c_e := c_w (cons s)\<rparr>) = []"
    "pending ((cons s)\<lparr>c_e := c_w (cons s)\<rparr>) = pending (cons s)"
    using assms(1) by (auto simp: cons_ok_def line_def pending_def)
  moreover have "c_e (cons s) = c_w (cons s) \<Longrightarrow> line (cons s) = []" by (simp add: line_def)
  ultimately show ?thesis
    using store_char_refines[OF assms] kill_line_cons[OF assms(1)] erase[OF assms(1)] assms(1)
    by (simp add: consoleintr_def)
qed

theorem consoleintr_refines_witness:
  "line (cons (consoleintr 8 (consoleintr 65 some_files))) = [] \<and> pending (cons (consoleintr 13 some_files)) = [10]"
proof -
  have k: "cons some_files = \<lparr>c_buf = (\<lambda>_. 0), c_r = 0, c_w = 0, c_e = 0\<rparr>" by (rule some_files_cons)
  then have 0: "cons_ok (cons some_files)" "pending (cons some_files) = []" "line (cons some_files) = []"
    by (simp_all add: cons_ok_def pending_def line_def)
  note c = consoleintr_refines[OF 0(1), of 65] and e = consoleintr_refines[of "consoleintr 65 some_files" 8]
  show ?thesis using c e consoleintr_refines[OF 0(1), of 13] by (simp add: 0 Ctrl_def INPUT_BUF_def)
qed



end
