(* ===== verification/File.thy ===== *)
theory File
  imports Console
begin

text \<open>
  Open files (\<open>kernel/file.c\<close>) and the creation of pipes (\<open>pipealloc\<close> of \<open>kernel/pipe.c\<close>).

  A \<open>struct file *\<close> is an index into \<open>ftable\<close>.  \<open>filewrite\<close> splits a long write into
  transactions of at most \<open>FILE_MAX\<close> bytes.  Messages for the user (\<open>printf\<close>) are not modelled.
\<close>

section \<open>The table of open files\<close>

definition set_file :: "nat \<Rightarrow> (filerec \<Rightarrow> filerec) \<Rightarrow> 'a file_st_scheme \<Rightarrow> 'a file_st_scheme" where
  "set_file f g s = s\<lparr>ftable := (ftable s)(f := g (ftable s f))\<rparr>"

definition filealloc :: "'a file_st_scheme \<Rightarrow> nat option \<times> 'a file_st_scheme" where
  "filealloc s =
     (case find (\<lambda>f. f_ref (ftable s f) = 0) [0..<NFILE] of
        None \<Rightarrow> (None, s)
      | Some f \<Rightarrow> (Some f, set_file f (\<lambda>x. x\<lparr>f_ref := 1\<rparr>) s))"

definition filedup :: "nat \<Rightarrow> 'a file_st_scheme \<Rightarrow> (nat \<times> 'a file_st_scheme) res" where
  "filedup f s =
     (if f_ref (ftable s f) < 1 then Panic ''filedup''
      else Ok (f, set_file f (\<lambda>x. x\<lparr>f_ref := f_ref x + 1\<rparr>) s))"

definition fileclose :: "nat \<Rightarrow> 'a file_st_scheme \<Rightarrow> 'a file_st_scheme res" where
  "fileclose f s =
     (if f_ref (ftable s f) < 1 then Panic ''fileclose''
      else
        let s = set_file f (\<lambda>x. x\<lparr>f_ref := f_ref x - 1\<rparr>) s in
        if f_ref (ftable s f) > 0 then Ok s
        else
          let ff = ftable s f; s = set_file f (\<lambda>x. x\<lparr>f_ref := 0, f_type := FD_NONE\<rparr>) s in
          if f_type ff = FD_PIPE then pipeclose (f_pipe ff) (f_writable ff) s
          else if f_type ff = FD_INODE \<or> f_type ff = FD_DEVICE then
            case f_ip ff of
              None \<Rightarrow> Undef
            | Some ip \<Rightarrow> rbind (begin_op s) (\<lambda>s. rbind (iput ip s) end_op)
          else Ok s)"

section \<open>Metadata\<close>

definition STAT_SIZE :: nat where "STAT_SIZE = 88"

text \<open>\<open>struct stat\<close> as the user sees it; the four bytes of padding before \<open>size\<close> are 0 here.\<close>

definition put_stat :: "stat \<Rightarrow> bytes" where
  "put_stat x =
     put_words 13 (put32 (put32 (put32 (put64 (put16 (put16 (put32 (put32 no_bytes
       0 (st_dev x)) 4 (st_ino x)) 8 (st_type x)) 10 (st_nlink x)) 16 (st_size x))
       24 (st_rwmode x)) 28 (st_supermode x)) 32 (st_showmode x)) 36 (st_addrs x)"

definition stat_bytes :: "stat \<Rightarrow> byte list" where
  "stat_bytes x = map (put_stat x) [0..<STAT_SIZE]"

definition filestat :: "nat \<Rightarrow> u64 \<Rightarrow> 'a file_st_scheme \<Rightarrow> (int \<times> 'a file_st_scheme) res" where
  "filestat f addr s =
     (if f_type (ftable s f) = FD_INODE \<or> f_type (ftable s f) = FD_DEVICE then
        case f_ip (ftable s f) of
          None \<Rightarrow> Undef
        | Some ip \<Rightarrow>
            rbind (ilock (Some ip) s) (\<lambda>s.
            let st = stati ip s in
            rbind (iunlock (Some ip) s) (\<lambda>s.
            let (r, s) = copyout (p_pagetable (myproc s)) addr (stat_bytes st) s in
            if r < 0 then Ok (-1, s) else Ok (0, s)))
      else Ok (-1, s))"

section \<open>Reading and writing\<close>

text \<open>
  The checks that \<open>fileread\<close> and \<open>filewrite\<close> make on an inode or a device: the bit of \<open>rwmode\<close>
  and that the file is not in the recycle bin.  The inode is not locked.
\<close>

definition file_barred :: "nat \<Rightarrow> u32 \<Rightarrow> 'a file_st_scheme \<Rightarrow> bool res" where
  "file_barred f mode s =
     (if f_type (ftable s f) = FD_DEVICE \<or> f_type (ftable s f) = FD_INODE then
        case f_ip (ftable s f) of
          None \<Rightarrow> Undef
        | Some ip \<Rightarrow> Ok (i_rwmode (itable s ip) AND mode = 0 \<or> i_showmode (itable s ip) = 0)
      else Ok False)"

definition dev_of :: "u16 \<Rightarrow> (devsw \<Rightarrow> device option) \<Rightarrow> 'a file_st_scheme \<Rightarrow> device option" where
  "dev_of major sel s =
     (if sint major < 0 \<or> sint major \<ge> int NDEV then None else sel (devsw s (unat major)))"

definition file_advance :: "nat \<Rightarrow> int \<Rightarrow> 'a file_st_scheme \<Rightarrow> 'a file_st_scheme" where
  "file_advance f r s = (if r > 0 then set_file f (\<lambda>x. x\<lparr>f_off := f_off x + of_int r\<rparr>) s else s)"

definition fileread :: "nat \<Rightarrow> u64 \<Rightarrow> int \<Rightarrow> 'a file_st_scheme \<Rightarrow> (int \<times> 'a file_st_scheme) res" where
  "fileread f addr n s =
     (if \<not> f_readable (ftable s f) then Ok (-1, s)
      else
        rbind (file_barred f 2 s) (\<lambda>barred.
        if barred then Ok (-1, s)
        else
          case f_type (ftable s f) of
            FD_PIPE \<Rightarrow> piperead (f_pipe (ftable s f)) addr n s
          | FD_DEVICE \<Rightarrow>
              (case dev_of (f_major (ftable s f)) dev_read s of
                 None \<Rightarrow> Ok (-1, s)
               | Some Console_dev \<Rightarrow> rbind (consoleread (User addr) no_bytes n s) (\<lambda>(r, _, s). Ok (r, s)))
          | FD_INODE \<Rightarrow>
              (case f_ip (ftable s f) of
                 None \<Rightarrow> Undef
               | Some ip \<Rightarrow>
                   rbind (ilock (Some ip) s) (\<lambda>s.
                   rbind (readi ip (User addr) no_bytes (f_off (ftable s f)) (of_int n) s) (\<lambda>(r, _, s).
                   rbind (iunlock (Some ip) (file_advance f r s)) (\<lambda>s. Ok (r, s)))))
          | FD_NONE \<Rightarrow> Panic ''fileread''))"

definition FILE_MAX :: nat where
  "FILE_MAX = (MAXOPBLOCKS - 1 - 1 - 2) div 2 * BSIZE"

function filewrite_loop :: "nat \<Rightarrow> nat \<Rightarrow> u64 \<Rightarrow> nat \<Rightarrow> nat \<Rightarrow> 'a file_st_scheme \<Rightarrow> (nat \<times> 'a file_st_scheme) res" where
  "filewrite_loop f ip addr n i s =
     (if i < n then
        let n1 = min (n - i) FILE_MAX in
        rbind (begin_op s) (\<lambda>s.
        rbind (ilock (Some ip) s) (\<lambda>s.
        rbind (writei ip (User (addr + of_nat i)) no_bytes (f_off (ftable s f)) (of_nat n1) s) (\<lambda>(r, s).
        rbind (iunlock (Some ip) (file_advance f r s)) (\<lambda>s.
        rbind (end_op s) (\<lambda>s.
        if r \<noteq> int n1 then Ok (i, s) else filewrite_loop f ip addr n (i + n1) s)))))
      else Ok (i, s))"
  by pat_completeness auto
termination
  by (relation "measure (\<lambda>(f, ip, addr, n, i, s). n - i)") (auto simp: FILE_MAX_def MAXOPBLOCKS_def BSIZE_def)

definition filewrite :: "nat \<Rightarrow> u64 \<Rightarrow> int \<Rightarrow> 'a file_st_scheme \<Rightarrow> (int \<times> 'a file_st_scheme) res" where
  "filewrite f addr n s =
     (if \<not> f_writable (ftable s f) then Ok (-1, s)
      else
        rbind (file_barred f 1 s) (\<lambda>barred.
        if barred then Ok (-1, s)
        else
          case f_type (ftable s f) of
            FD_PIPE \<Rightarrow> pipewrite (f_pipe (ftable s f)) addr n s
          | FD_DEVICE \<Rightarrow>
              (case dev_of (f_major (ftable s f)) dev_write s of
                 None \<Rightarrow> Ok (-1, s)
               | Some Console_dev \<Rightarrow> Ok (consolewrite (User addr) no_bytes n s))
          | FD_INODE \<Rightarrow>
              (case f_ip (ftable s f) of
                 None \<Rightarrow> Undef
               | Some ip \<Rightarrow>
                   rbind (filewrite_loop f ip addr (nat n) 0 s) (\<lambda>(i, s). Ok (if int i = n then n else -1, s)))
          | FD_NONE \<Rightarrow> Panic ''filewrite''))"

section \<open>Creating a pipe\<close>

definition new_pipe :: "pipe \<Rightarrow> pipe" where
  "new_pipe p = p\<lparr>pi_readopen := True, pi_writeopen := True, pi_nwrite := 0, pi_nread := 0\<rparr>"

definition close_opt :: "nat option \<Rightarrow> 'a file_st_scheme \<Rightarrow> 'a file_st_scheme res" where
  "close_opt f s = (case f of None \<Rightarrow> Ok s | Some f \<Rightarrow> fileclose f s)"

definition pipealloc :: "'a file_st_scheme \<Rightarrow> ((nat \<times> nat) option \<times> 'a file_st_scheme) res" where
  "pipealloc s =
     (let (f0, s) = filealloc s;
          (f1, s) = (if f0 = None then (None, s) else filealloc s);
          bad = (\<lambda>s. rbind (close_opt f0 s) (\<lambda>s. rbind (close_opt f1 s) (\<lambda>s. Ok (None, s)))) in
      case (f0, f1) of
        (Some a, Some b) \<Rightarrow>
          let (pi, s) = kalloc s in
          if pi = 0 then bad s
          else
            let s = set_pipe pi new_pipe s;
                s = set_file a (\<lambda>x. x\<lparr>f_type := FD_PIPE, f_readable := True, f_writable := False, f_pipe := pi\<rparr>) s;
                s = set_file b (\<lambda>x. x\<lparr>f_type := FD_PIPE, f_readable := False, f_writable := True, f_pipe := pi\<rparr>) s in
            Ok (Some (a, b), s)
      | _ \<Rightarrow> bad s)"

end
