(* ===== verification/Fileio.thy ===== *)
theory Fileio
  imports File
begin

text \<open>
  Reading and writing an open file (\<open>fileread\<close> and \<open>filewrite\<close> of \<open>kernel/file.c\<close>), through all
  layers below: the lock of the inode, \<open>readi\<close> and \<open>writei\<close>, the copies from and to user memory,
  and the transaction of the write.  The theorems say what the user sees and what is on the
  disk afterwards, also when the machine crashes in between; which files are barred by their
  mode or because they are in the recycle bin; and how the references to open files are counted.
\<close>

section \<open>What the views of the file system depend on\<close>

lemma fs_same:
  fixes s t :: "'a fs_st_scheme"
  assumes e: "bufs t = bufs s" "disk t = disk s" "p_pid (myproc t) = p_pid (myproc s)" "lg t = lg s" "sb t = sb s"
    and i: "i_addrs (itable t i) = i_addrs (itable s i)" "i_dev (itable t i) = i_dev (itable s i)" "i_type (itable t i) = i_type (itable s i)"
  shows "lview t = lview s" "fs_ok H t = fs_ok H s" "in_use lim blk t = in_use lim blk s" "fmap i t = fmap i s" "fbyte i t = fbyte i s"
    "dense i t = dense i s" "readable i t = readable i s" "file_ok i t = file_ok i s" "space k t = space k s" "room k t = room k s"
    "dinode_of t = dinode_of s"
proof -
  show l: "lview t = lview s" "space k t = space k s" by (rule log_ok_cong[OF e(1-4)])+
  show f: "fs_ok H t = fs_ok H s" for H using log_ok_cong(4)[OF e(1-4)] by (simp add: fs_ok_def e)
  show u: "in_use lim blk t = in_use lim blk s" for lim :: "superblock \<Rightarrow> u32" and blk by (simp add: in_use_def e l)
  show m: "fmap i t = fmap i s" by (rule ext) (simp add: fmap_def i l)
  show "fbyte i t = fbyte i s" "dense i t = dense i s" "dinode_of t = dinode_of s"
    by (rule ext, simp add: fbyte_def fblock_def dense_def dinode_of_def m l e Let_def)+
  show "readable i t = readable i s" "file_ok i t = file_ok i s" "room k t = room k s"
    by (simp_all add: readable_def file_ok_def tree_ok_def meta_used_def room_def f u m i e)
qed

section \<open>Locking an inode\<close>

definition mine :: "'a kmach_scheme \<Rightarrow> sleeplock" where
  "mine s = \<lparr>sl_locked = True, sl_pid = p_pid (myproc s)\<rparr>"

definition set_lock :: "nat \<Rightarrow> sleeplock \<Rightarrow> 'a fs_st_scheme \<Rightarrow> 'a fs_st_scheme" where
  "set_lock i l s = set_inode i (\<lambda>x. x\<lparr>i_lock := l\<rparr>) s"

lemma set_lock_eq: "set_lock i l s = s\<lparr>itable := (itable s)(i := (itable s i)\<lparr>i_lock := l\<rparr>)\<rparr>"
  by (simp add: set_lock_def set_inode_def)

lemma ilock_valid:
  assumes "0 < i_ref (itable s i)" "i_valid (itable s i)" "i_lock (itable s i) = initsleeplock"
  shows "ilock (Some i) s = Ok (set_lock i (mine s) s)"
  using assms by (simp add: lock_inode_def acquiresleep_def initsleeplock_def set_lock_def set_inode_def mine_def)

lemma iunlock_mine:
  assumes "0 < i_ref (itable s i)" "i_lock (itable s i) = mine s"
  shows "iunlock (Some i) s = Ok (set_lock i initsleeplock s)"
  using assms by (simp add: holdingsleep_def releasesleep_def initsleeplock_def set_lock_def set_inode_def mine_def)

declare ilock.simps [simp del] iunlock.simps [simp del]

lemma set_lock_same:
  "lview (set_lock i l s) = lview s" "fs_ok H (set_lock i l s) = fs_ok H s" "in_use lim blk (set_lock i l s) = in_use lim blk s"
  "fmap i (set_lock i l s) = fmap i s" "fbyte i (set_lock i l s) = fbyte i s" "dense i (set_lock i l s) = dense i s"
  "readable i (set_lock i l s) = readable i s" "file_ok i (set_lock i l s) = file_ok i s" "space k (set_lock i l s) = space k s"
  "room k (set_lock i l s) = room k s" "dinode_of (set_lock i l s) = dinode_of s"
  by (rule fs_same[where i = i]; simp add: set_lock_eq myproc_def)+

lemma set_file_same:
  "lview (set_file f g s) = lview s" "fs_ok H (set_file f g s) = fs_ok H s" "in_use lim blk (set_file f g s) = in_use lim blk s"
  "fmap i (set_file f g s) = fmap i s" "fbyte i (set_file f g s) = fbyte i s" "dense i (set_file f g s) = dense i s"
  "readable i (set_file f g s) = readable i s" "file_ok i (set_file f g s) = file_ok i s" "space k (set_file f g s) = space k s"
  "room k (set_file f g s) = room k s" "dinode_of (set_file f g s) = dinode_of s"
  by (rule fs_same[where i = i]; simp add: set_file_def myproc_def)+

lemma set_file_rest [simp]:
  "itable (set_file f g s) = itable s" "myproc (set_file f g s) = myproc s" "mem (set_file f g s) = mem s"
  "lg (set_file f g s) = lg s" "disk (set_file f g s) = disk s" "sb (set_file f g s) = sb s" "dwrites (set_file f g s) = dwrites s"
  "ftable (set_file f g s) = (ftable s)(f := g (ftable s f))"
  by (simp_all add: set_file_def myproc_def)

section \<open>Reading\<close>

text \<open>The file \<open>f\<close> is open on inode \<open>i\<close>, which is in memory and not locked, and may be accessed.\<close>

definition open_on :: "nat \<Rightarrow> nat \<Rightarrow> u32 \<Rightarrow> 'a file_st_scheme \<Rightarrow> bool" where
  "open_on f i mode s \<longleftrightarrow> f_type (ftable s f) = FD_INODE \<and> f_ip (ftable s f) = Some i \<and>
     0 < i_ref (itable s i) \<and> i_valid (itable s i) \<and> i_lock (itable s i) = initsleeplock \<and>
     i_rwmode (itable s i) AND mode \<noteq> 0 \<and> i_showmode (itable s i) \<noteq> 0"

lemma not_barred: "open_on f i mode s \<Longrightarrow> file_barred f mode s = Ok False"
  by (simp add: open_on_def file_barred_def)

lemma fileread_ok:
  fixes s :: "'a file_st_scheme"
  assumes op: "open_on f i 2 s" "f_readable (ftable s f)" and R: "readable i s" and d: "dense i s (unat (i_size (itable s i)))"
    and off: "f_off (ftable s f) \<le> i_size (itable s i)" "unat (f_off (ftable s f)) + nat n < 2 ^ 32" and n: "0 \<le> n" "n < 2 ^ 31"
    and m: "m = min (nat n) (unat (i_size (itable s i)) - unat (f_off (ftable s f)))"
    and pt: "deliverable (p_pagetable (myproc s)) addr m s"
  obtains t where "fileread f addr n s = Ok (int m, t)"
    "delivered (p_pagetable (myproc s)) addr (map (fbyte i s) [unat (f_off (ftable s f))..<unat (f_off (ftable s f)) + m]) s t"
    "ftable t = (ftable s)(f := (ftable s f)\<lparr>f_off := f_off (ftable s f) + of_nat m\<rparr>)" "itable t = itable s"
    "lview t = lview s" "disk t = disk s" "fs_ok {} t"
proof -
  let ?off = "f_off (ftable s f)" and ?s = "set_lock i (mine s) s"
  note O = op(1)[unfolded open_on_def]
  have l: "ilock (Some i) s = Ok ?s" using O by (intro ilock_valid) auto
  have "(of_int n :: u32) = of_nat (nat n)" using n by simp
  then have un: "unat (of_int n :: u32) = nat n" using unat_small[of "nat n"] n by simp
  have e: "itable ?s i = (itable s i)\<lparr>i_lock := mine s\<rparr>" "ftable ?s = ftable s" "myproc ?s = myproc s" "mem ?s = mem s"
    by (simp_all add: set_lock_eq myproc_def)
  have o': "?off \<le> i_size (itable ?s i)" "?off \<le> ?off + of_int n"
    using off by (auto simp: e word_le_nat_alt unat_word_ariths un)
  have "deliverable (p_pagetable (myproc s)) addr m ?s" by (rule deliverable_mem[OF _ pt]) (simp add: e)
  then have sd: "sendable (User addr) m ?s" by (simp add: e)
  obtain kb' u where u: "readi i (User addr) no_bytes ?off (of_int n) ?s = Ok (int m, kb', u)" "readable i u" "only_read ?s u"
    "sent (User addr) (map (fbyte i ?s) [unat ?off..<unat ?off + m]) no_bytes ?s kb' u"
    by (rule readi_ok[OF _ _ o' _ _ sd, of no_bytes]) (use R d m n in \<open>auto simp: set_lock_same e un\<close>)
  note E = only_readD[OF u(3)]
  have fr: "u = ?s\<lparr>bufs := bufs u, mem := mem u\<rparr>" using u(3) unfolding only_read_def by blast
  have fu: "ftable u = ftable s" by (subst fr) (simp add: set_lock_eq)
  let ?v = "file_advance f (int m) u"
  have adv: "?v = set_file f (\<lambda>x. x\<lparr>f_off := f_off x + of_nat m\<rparr>) u"
    using E by (auto simp: file_advance_def set_file_def fun_upd_idem)
  have v: "itable ?v = itable ?s" "myproc ?v = myproc s" "mem ?v = mem u" using E(2,4) e by (simp_all add: adv)
  have iu: "iunlock (Some i) ?v = Ok (set_lock i initsleeplock ?v)"
    by (rule iunlock_mine) (use O v e in \<open>simp_all add: mine_def\<close>)
  let ?t = "set_lock i initsleeplock ?v"
  have "fileread f addr n s = Ok (int m, ?t)"
    using O op l u(1) iu by (simp add: fileread_def not_barred[OF op(1)] e del: rbind_Ok_iff)
  moreover have "delivered (p_pagetable (myproc s)) addr (map (fbyte i s) [unat ?off..<unat ?off + m]) s ?t"
  proof (rule delivered_mem)
    show "delivered (p_pagetable (myproc s)) addr (map (fbyte i s) [unat ?off..<unat ?off + m]) ?s u"
      using u(4) by (simp add: set_lock_same e)
  qed (use e v in \<open>simp_all add: set_lock_eq\<close>)
  moreover have "itable ?t = itable s" using O e v by (simp add: set_lock_eq fun_eq_iff)
  moreover have "fs_ok {} ?t" "lview ?t = lview s"
    using u(2,3) by (simp_all add: set_lock_same adv set_file_same readable_def only_read_def)
  moreover have "disk ?t = disk s" using E(10) by (simp add: set_lock_eq adv set_file_def)
  ultimately show ?thesis using that fu by (simp add: set_lock_eq adv set_file_def)
qed

section \<open>Writing\<close>

text \<open>No operation is running and the log is empty.\<close>

definition idle :: "'a fs_st_scheme \<Rightarrow> bool" where
  "idle s \<longleftrightarrow> fs_ok {} s \<and> lg_outstanding (lg s) = 0 \<and> \<not> lg_committing (lg s) \<and> lh_n (lg s) = 0"

lemma idle_clean:
  assumes "idle s"
  shows "lview s b = disk s b"
  using assms bio_ok_clean[OF log_okD(1)[OF fs_okD(1)[of "{}" s]], of b] by (simp add: idle_def logged_def)

text \<open>The blocks outside the log determine what is in the files.\<close>

lemma outside_log:
  fixes s t :: "'a fs_st_scheme"
  assumes l': "\<forall>b. b \<notin> log_area (lg_start (lg s)) \<longrightarrow> lview t b = lview s b"
    and ok: "fs_ok {} t" "file_ok i s" and sb: "sb t = sb s" and it: "itable t = itable s"
  shows "used_blocks t = used_blocks s" "used_inodes t = used_inodes s" "file_ok i t" "valid q \<Longrightarrow> fmap i t q = fmap i s q"
    "k < MAXFILE * BSIZE \<Longrightarrow> fbyte i t k = fbyte i s k" "n < unat (sb_ninodes (sb s)) \<Longrightarrow> dinode_of t (of_nat n) = dinode_of s (of_nat n)"
proof -
  note F = file_okD[OF ok(2)] and D = fs_okD[OF file_okD(1)[OF ok(2)]] and l = l'[rule_format]
  note L = layout_okD[OF D(2), unfolded D(3)]
  show ub: "used_blocks t = used_blocks s" by (rule blocks_unchanged[OF D(2)]) (use l L(4) in \<open>simp_all add: sb\<close>)
  show "used_inodes t = used_inodes s" by (rule inodes_unchanged[OF D(2)]) (use l L(5) in \<open>simp_all add: sb\<close>)
  have d: "lview t (fmap i s q) = lview s (fmap i s q)" if "valid q" "fmap i s q \<noteq> 0" for q
    using tree_okD(2)[OF F(5) that] D(3) by (intro l) (simp add: is_meta_def)
  show f: "valid q \<Longrightarrow> fmap i t q = fmap i s q" for q by (rule fmap_same') (use d it in auto)
  have "tree_ok i t" unfolding tree_ok_def using F(5)[unfolded tree_ok_def] by (auto simp: f sb ub)
  then show "file_ok i t" using F(2-4) ok(1) by (simp add: file_ok_def meta_used_def sb ub it)
  show "fbyte i t k = fbyte i s k" if "k < MAXFILE * BSIZE"
    using f[OF pos_valid[OF that]] d[OF pos_valid[OF that]] by (auto simp: fbyte_def fblock_def Let_def)
  show "n < unat (sb_ninodes (sb s)) \<Longrightarrow> dinode_of t (of_nat n) = dinode_of s (of_nat n)"
    using l[of "IBLOCK (of_nat n) (sb s)"] L(6)[of n] by (simp add: dinode_of_def sb)
qed

lemma begin_op_idle:
  fixes s :: "'a fs_st_scheme"
  assumes "idle s" "int k \<le> lg_size (lg s) - 1"
  shows "begin_op s = Ok (set_lg (\<lambda>l. l\<lparr>lg_outstanding := 1\<rparr>) s)" "space k (set_lg (\<lambda>l. l\<lparr>lg_outstanding := 1\<rparr>) s)"
    "fs_ok {} (set_lg (\<lambda>l. l\<lparr>lg_outstanding := 1\<rparr>) s)"
proof -
  have "lg_size (lg s) \<le> int NBUF" using assms(1) log_okD(11)[of "{}" s] by (simp add: idle_def fs_ok_def)
  then show "space k (set_lg (\<lambda>l. l\<lparr>lg_outstanding := 1\<rparr>) s)" using assms by (simp add: idle_def space_def params)
  show "begin_op s = Ok (set_lg (\<lambda>l. l\<lparr>lg_outstanding := 1\<rparr>) s)"
    using assms(1) by (simp add: idle_def begin_op_def set_lg_def params)
  show "fs_ok {} (set_lg (\<lambda>l. l\<lparr>lg_outstanding := 1\<rparr>) s)" using assms(1) by (simp add: idle_def fs_ok_def log_ok_set_lg) (simp add: set_lg_def)
qed

text \<open>The last \<open>end_op\<close>, for the file system: what is logically there gets to the disk, in one step.\<close>

lemma end_op_fs:
  fixes s :: "'a fs_st_scheme"
  assumes ok: "fs_ok {} s" and o': "lg_outstanding (lg s) = 1" "\<not> lg_committing (lg s)"
  obtains t where "end_op s = Ok t" "idle t" "\<forall>b. b \<notin> log_area (lg_start (lg s)) \<longrightarrow> lview t b = lview s b"
    "t = s\<lparr>bufs := bufs t, disk := disk t, dwrites := dwrites t, lg := lg t\<rparr>" "crash_atomic (sb s) s t" "lg_start (lg t) = lg_start (lg s)"
proof -
  note D = fs_okD[OF ok]
  let ?c = "\<lambda>x. set_lg (\<lambda>l. l\<lparr>lg_committing := x\<rparr>)"
  define u where "u = ?c True (set_lg (\<lambda>l. l\<lparr>lg_outstanding := lg_outstanding l - 1\<rparr>) s)"
  have u: "log_ok {} u" using D(1) by (simp add: u_def log_ok_set_lg)
  from commit_ok[OF u] obtain v where v: "commit u = Ok v" and w: "wrote (commit_writes u) (set_lg (\<lambda>l. l\<lparr>lh_n := 0\<rparr>) u) v" by blast
  note C = commit_log_ok[OF u v]
  let ?t = "?c False v"
  have e: "end_op s = Ok ?t" using o' v by (simp add: end_op_def u_def)
  have fr: "?t = s\<lparr>bufs := bufs ?t, disk := disk ?t, dwrites := dwrites ?t, lg := lg ?t\<rparr>"
    using w unfolding wrote_def u_def set_lg_def by (cases s, cases v) auto
  have st: "sb ?t = sb s" "lg_start (lg ?t) = lg_start (lg s)" by (subst fr, simp) (simp add: C(2) u_def set_lg_def)
  have "log_ok {} ?t" using C(1) by (simp add: log_ok_set_lg)
  then have "idle ?t" using D(2,3) o' by (simp add: idle_def fs_ok_def st) (simp add: C(2) u_def set_lg_def)
  moreover have "lview ?t b = lview s b" if "b \<notin> log_area (lg_start (lg s))" for b
    using commit_contents(2)[OF u v, of b] that by (simp add: u_def)
  moreover have "crash_atomic (sb s) s ?t"
    using commit_crash_atomic[OF u v, of "sb s"] D(3) by (simp add: crash_atomic_def u_def)
  ultimately show ?thesis using that[OF e _ _ fr] st(2) by blast
qed

declare filewrite_loop.simps [simp del]

text \<open>
  The transaction between \<open>s\<close> and \<open>t\<close>, both idle: after a crash at any moment the disk is, outside
  the log and after recovery, as at \<open>s\<close> or as at \<open>t\<close>.
\<close>

definition old_or_new :: "'a fs_st_scheme \<Rightarrow> 'a fs_st_scheme \<Rightarrow> bool" where
  "old_or_new s t \<longleftrightarrow>
     (\<exists>ws. dwrites t = dwrites s @ ws \<and>
       (\<forall>k t0. (\<forall>j. fresh (bufs t0 j)) \<and> disk t0 = apply_writes (take k ws) (disk s) \<longrightarrow>
         (\<exists>r :: 'a fs_st_scheme. initlog ROOTDEV (sb t) (binit t0) = Ok r \<and>
           ((\<forall>b. b \<notin> log_area (sb_logstart (sb t)) \<longrightarrow> lview r b = lview s b) \<or>
            (\<forall>b. b \<notin> log_area (sb_logstart (sb t)) \<longrightarrow> lview r b = lview t b)))))"

lemma crash_old_or_new:
  fixes s u t :: "'a fs_st_scheme"
  assumes c: "crash_atomic (sb t) u t" and s: "idle s" "disk u = disk s" "dwrites u = dwrites s"
    and l: "\<And>b. b \<notin> log_area (sb_logstart (sb t)) \<Longrightarrow> lview t b = lview u b"
  shows "old_or_new s t"
proof -
  obtain ws where ws: "dwrites t = dwrites s @ ws" "\<And>k t0. (\<forall>j. fresh (bufs t0 j)) \<and> disk t0 = apply_writes (take k ws) (disk s) \<Longrightarrow>
         (\<exists>r :: 'a fs_st_scheme. initlog ROOTDEV (sb t) (binit t0) = Ok r \<and>
           ((\<forall>b. b \<notin> log_area (sb_logstart (sb t)) \<longrightarrow> lview r b = disk s b) \<or>
            (\<forall>b. b \<notin> log_area (sb_logstart (sb t)) \<longrightarrow> lview r b = lview u b)))"
    using c unfolding crash_atomic_def s(2,3) by blast
  show ?thesis
    unfolding old_or_new_def
  proof (intro exI[of _ ws] conjI allI impI)
    fix k and t0 :: "'a fs_st_scheme" assume "(\<forall>j. fresh (bufs t0 j)) \<and> disk t0 = apply_writes (take k ws) (disk s)"
    from ws(2)[OF this] show "\<exists>r :: 'a fs_st_scheme. initlog ROOTDEV (sb t) (binit t0) = Ok r \<and>
           ((\<forall>b. b \<notin> log_area (sb_logstart (sb t)) \<longrightarrow> lview r b = lview s b) \<or>
            (\<forall>b. b \<notin> log_area (sb_logstart (sb t)) \<longrightarrow> lview r b = lview t b))"
      using idle_clean[OF s(1)] l by metis
  qed (rule ws(1))
qed

text \<open>The state in which one call of \<open>filewrite\<close> with the bytes \<open>xs\<close> is one transaction.\<close>

definition writable :: "nat \<Rightarrow> nat \<Rightarrow> u64 \<Rightarrow> byte list \<Rightarrow> 'a file_st_scheme \<Rightarrow> bool" where
  "writable f i addr xs s \<longleftrightarrow>
     (let off = f_off (ftable s f) in
      open_on f i 1 s \<and> f_writable (ftable s f) \<and> idle s \<and> file_ok i s \<and>
      unat (i_inum (itable s i)) < unat (sb_ninodes (sb s)) \<and> off \<le> i_size (itable s i) \<and> unat off + length xs < 2 ^ 32 \<and>
      0 < length xs \<and> length xs \<le> FILE_MAX \<and> copyin (p_pagetable (myproc s)) addr (length xs) s = (0, xs) \<and>
      int (wcost (unat off) (length xs)) + 2 \<le> lg_size (lg s) \<and> room (4 * card (touch (unat off) (length xs))) s)"

lemma writei_locked:
  fixes s :: "'a file_st_scheme"
  assumes w: "writable f i addr xs s"
  defines "off \<equiv> f_off (ftable s f)"
  obtains s2 u where "begin_op s = Ok (set_lg (\<lambda>l. l\<lparr>lg_outstanding := 1\<rparr>) s)"
    "ilock (Some i) (set_lg (\<lambda>l. l\<lparr>lg_outstanding := 1\<rparr>) s) = Ok s2" "ftable s2 = ftable s"
    "itable s2 = (itable s)(i := (itable s i)\<lparr>i_lock := mine s\<rparr>)" "lg s2 = (lg s)\<lparr>lg_outstanding := 1\<rparr>" "sb s2 = sb s"
    "disk s2 = disk s" "dwrites s2 = dwrites s" "myproc s2 = myproc s" "fbyte i s2 = fbyte i s"
    "writei i (User addr) no_bytes off (of_nat (length xs)) s2 = Ok (int (length xs), u)" "file_ok i u" "rewritten i (unat off) xs s2 u"
    "mem s2 = mem s" "dense i s (unat (i_size (itable s i))) \<longrightarrow> dense i u (unat (i_size (itable u i)))"
proof -
  note W = w[unfolded writable_def Let_def, folded off_def]
  let ?s = "set_lg (\<lambda>l. l\<lparr>lg_outstanding := 1\<rparr>) s" and ?s2 = "set_lock i (mine s) (set_lg (\<lambda>l. l\<lparr>lg_outstanding := 1\<rparr>) s)"
  have id: "idle s" "int (Suc (wcost (unat off) (length xs))) \<le> lg_size (lg s) - 1" using W by auto
  note B = begin_op_idle[OF id]
  have e: "itable ?s = itable s" "ftable ?s = ftable s" "sb ?s = sb s" "myproc ?s = myproc s" "mem ?s = mem s" "disk ?s = disk s"
    "dwrites ?s = dwrites s" by (simp_all add: set_lg_def myproc_def)
  have ok: "file_ok i s" using W by simp
  have l: "\<forall>b. b \<notin> log_area (lg_start (lg s)) \<longrightarrow> lview ?s b = lview s b" by simp
  note L = outside_log[OF l B(3) ok e(3,1)]
  have m: "mine ?s = mine s" by (simp add: mine_def e)
  have il: "ilock (Some i) ?s = Ok ?s2" unfolding m[symmetric] by (rule ilock_valid) (use W in \<open>auto simp: open_on_def e\<close>)
  have fb: "fbyte i ?s2 = fbyte i s"
    unfolding set_lock_same by (rule ext) (simp add: fbyte_def fblock_def fmap_def e Let_def)
  have e2: "ftable ?s2 = ftable s" "itable ?s2 = (itable s)(i := (itable s i)\<lparr>i_lock := mine s\<rparr>)" "lg ?s2 = (lg s)\<lparr>lg_outstanding := 1\<rparr>"
    "sb ?s2 = sb s" "disk ?s2 = disk s" "dwrites ?s2 = dwrites s" "myproc ?s2 = myproc s" "mem ?s2 = mem s"
    by (simp_all add: set_lock_eq e myproc_def) (simp add: set_lg_def)
  have ln: "length xs < 2 ^ 31" using W by (simp add: FILE_MAX_def params)
  have rm: "room (4 * card (touch (unat off) (length xs))) ?s2" using W L(1) by (simp add: set_lock_same) (simp add: room_def e)
  have src: "either_copyin (User addr) (length xs) no_bytes ?s2 = (0, xs)" using W copyin_mem[of ?s2 s] by (simp add: e2)
  have sp: "space (Suc 0 + wcost (unat off) (length xs)) ?s2" using B(2) by (simp add: set_lock_same)
  obtain u where u: "writei i (User addr) no_bytes off (of_nat (length xs)) ?s2 = Ok (int (length xs), u)" "file_ok i u" "space 0 u"
    "rewritten i (unat off) xs ?s2 u" "dense i ?s2 (unat (i_size (itable ?s2 i))) \<longrightarrow> dense i u (unat (i_size (itable u i)))"
    by (rule writei_ok[OF _ _ _ ln _ sp rm src]) (use W L(3) in \<open>auto simp: set_lock_same(8) e2\<close>)
  have "dense i ?s2 k = dense i s k" for k unfolding set_lock_same by (simp add: dense_def fmap_def e)
  then have "dense i s (unat (i_size (itable s i))) \<longrightarrow> dense i u (unat (i_size (itable u i)))" using u(5) by (simp add: e2)
  then show ?thesis by (rule that[OF B(1) il e2(1-7) fb u(1,2,4) e2(8)])
qed

lemma stored_lock: "stored (x\<lparr>i_lock := l\<rparr>) = stored x"
  by (auto simp: stored_def to_dinode_def fun_eq_iff)

lemma filewrite_txn:
  fixes s :: "'a file_st_scheme"
  assumes w: "writable f i addr xs s"
  defines "off \<equiv> f_off (ftable s f)"
  obtains s2 u t :: "'a file_st_scheme" where "itable s2 = (itable s)(i := (itable s i)\<lparr>i_lock := mine s\<rparr>)" "sb s2 = sb s" "fbyte i s2 = fbyte i s"
    "rewritten i (unat off) xs s2 u" "dense i s (unat (i_size (itable s i))) \<longrightarrow> dense i u (unat (i_size (itable u i)))"
    "filewrite f addr (int (length xs)) s = Ok (int (length xs), t)" "idle t" "old_or_new s t" "file_ok i t"
    "\<forall>q. valid q \<longrightarrow> fmap i t q = fmap i u q" "\<forall>k<MAXFILE * BSIZE. fbyte i t k = fbyte i u k"
    "\<forall>n<unat (sb_ninodes (sb s)). dinode_of t (of_nat n) = dinode_of u (of_nat n)"
    "ftable t = (ftable s)(f := (ftable s f)\<lparr>f_off := off + of_nat (length xs)\<rparr>)"
    "itable t = (itable u)(i := (itable u i)\<lparr>i_lock := initsleeplock\<rparr>)" "mem t = mem s" "myproc t = myproc s"
proof -
  note W = w[unfolded writable_def Let_def, folded off_def]
  let ?n = "length xs"
  obtain s2 u where 2: "begin_op s = Ok (set_lg (\<lambda>l. l\<lparr>lg_outstanding := 1\<rparr>) s)"
    "ilock (Some i) (set_lg (\<lambda>l. l\<lparr>lg_outstanding := 1\<rparr>) s) = Ok s2" "ftable s2 = ftable s"
    "itable s2 = (itable s)(i := (itable s i)\<lparr>i_lock := mine s\<rparr>)" "lg s2 = (lg s)\<lparr>lg_outstanding := 1\<rparr>" "sb s2 = sb s"
    "disk s2 = disk s" "dwrites s2 = dwrites s" "myproc s2 = myproc s" "fbyte i s2 = fbyte i s"
    and u: "writei i (User addr) no_bytes off (of_nat ?n) s2 = Ok (int ?n, u)" "file_ok i u" "rewritten i (unat off) xs s2 u"
      "mem s2 = mem s" "dense i s (unat (i_size (itable s i))) \<longrightarrow> dense i u (unat (i_size (itable u i)))"
    unfolding off_def by (rule writei_locked[OF w])
  note R = rewrittenD[OF u(3)]
  note T = fs_touchedD[OF R(6)] and T' = touchedD[OF R(6)[unfolded fs_touched_def, THEN conjunct1]]
  have fu: "ftable u = ftable s" using R(6) 2(3) unfolding fs_touched_def touched_def by (cases s2, cases u) auto
  have pu: "myproc u = myproc s" using T(5) 2(9) by (simp add: myproc_def)
  define v where "v = set_file f (\<lambda>x. x\<lparr>f_off := f_off x + of_nat ?n\<rparr>) u"
  have adv: "file_advance f (int ?n) u = v" using W by (auto simp: file_advance_def v_def)
  have "i_lock (itable u i) = mine s" "0 < i_ref (itable u i)" by (subst R(4), use W 2(4) in \<open>simp add: open_on_def\<close>)+
  then have iu: "iunlock (Some i) v = Ok (set_lock i initsleeplock v)"
    by (intro iunlock_mine) (use pu in \<open>simp_all add: v_def mine_def\<close>)
  define x where "x = set_lock i initsleeplock v"
  have same: "file_ok i x = file_ok i u" "fmap i x = fmap i u" "fbyte i x = fbyte i u" "dinode_of x = dinode_of u"
    by (simp_all add: x_def set_lock_same v_def set_file_same)
  have ex: "lg x = lg u" "sb x = sb u" "disk x = disk u" "dwrites x = dwrites u" "mem x = mem u" "myproc x = myproc u"
    "itable x = (itable u)(i := (itable u i)\<lparr>i_lock := initsleeplock\<rparr>)" "ftable x = (ftable s)(f := (ftable s f)\<lparr>f_off := off + of_nat ?n\<rparr>)"
    using fu by (simp_all add: x_def set_lock_eq v_def myproc_def off_def) (simp_all add: set_file_def)
  have okx: "file_ok i x" using u(2) same by simp
  have ox: "lg_outstanding (lg x) = 1" "\<not> lg_committing (lg x)" using T(7,8) 2(5) W by (simp_all add: ex idle_def)
  obtain t where t: "end_op x = Ok t" "idle t" "\<forall>b. b \<notin> log_area (lg_start (lg x)) \<longrightarrow> lview t b = lview x b"
    "t = x\<lparr>bufs := bufs t, disk := disk t, dwrites := dwrites t, lg := lg t\<rparr>" "crash_atomic (sb x) x t" "lg_start (lg t) = lg_start (lg x)"
    by (rule end_op_fs[OF file_okD(1)[OF okx] ox])
  have et: "sb t = sb x" "itable t = itable x" "ftable t = ftable x" "mem t = mem x" "myproc t = myproc x"
    by (subst t(4), simp add: myproc_def)+
  have it: "fs_ok {} t" using t(2) by (simp add: idle_def)
  note L = outside_log[OF t(3) it okx et(1,2), unfolded same]
  have old: "old_or_new s t"
    by (rule crash_old_or_new[where u = x]) (use t(3,5) T' 2 W fs_okD(3)[OF it] t(6) in \<open>auto simp: et(1) ex\<close>)
  have "filewrite_loop f i addr ?n ?n t = Ok (?n, t)" by (subst filewrite_loop.simps) simp
  then have "filewrite_loop f i addr ?n 0 s = Ok (?n, t)"
    using W 2(1-3) u(1) adv iu t(1) by (subst filewrite_loop.simps) (simp add: min_absorb1 Let_def off_def x_def del: rbind_Ok_iff)
  then have fw: "filewrite f addr (int ?n) s = Ok (int ?n, t)"
    using W not_barred[of f i 1 s] by (simp add: filewrite_def open_on_def del: rbind_Ok_iff)
  have f: "\<forall>q. valid q \<longrightarrow> fmap i t q = fmap i u q" "\<forall>k<MAXFILE * BSIZE. fbyte i t k = fbyte i u k" using L(4,5) by blast+
  have d: "\<forall>n<unat (sb_ninodes (sb s)). dinode_of t (of_nat n) = dinode_of u (of_nat n)"
    using L(6) geom_eqD(2)[OF T(1)] 2(6) by (simp add: ex)
  show ?thesis
    by (rule that[OF 2(4,6,10) u(3,5) fw t(2) old L(3) f d]) (use ex et pu T(6) u(4) in simp_all)
qed

lemma filewrite_ok:
  fixes s :: "'a file_st_scheme"
  assumes w: "writable f i addr xs s"
  defines "off \<equiv> f_off (ftable s f)"
  obtains t where "filewrite f addr (int (length xs)) s = Ok (int (length xs), t)" "idle t" "file_ok i t" "old_or_new s t"
    "\<forall>k<MAXFILE * BSIZE. fbyte i t k = (if unat off \<le> k \<and> k < unat off + length xs then xs ! (k - unat off) else fbyte i s k)"
    "unat (i_size (itable t i)) = max (unat (i_size (itable s i))) (unat off + length xs)"
    "dinode_of t (i_inum (itable t i)) = stored (itable t i)"
    "ftable t = (ftable s)(f := (ftable s f)\<lparr>f_off := off + of_nat (length xs)\<rparr>)" "mem t = mem s" "myproc t = myproc s"
    "itable t i = (itable s i)\<lparr>i_addrs := i_addrs (itable t i), i_size := i_size (itable t i)\<rparr>"
    "dense i s (unat (i_size (itable s i))) \<longrightarrow> dense i t (unat (i_size (itable t i)))"
proof -
  note W = w[unfolded writable_def Let_def, folded off_def]
  let ?n = "length xs" and ?k = "unat (i_inum (itable s i))"
  obtain s2 u t :: "'a file_st_scheme" where 2: "itable s2 = (itable s)(i := (itable s i)\<lparr>i_lock := mine s\<rparr>)" "sb s2 = sb s" "fbyte i s2 = fbyte i s"
    "rewritten i (unat off) xs s2 u" "dense i s (unat (i_size (itable s i))) \<longrightarrow> dense i u (unat (i_size (itable u i)))"
    and t: "filewrite f addr (int ?n) s = Ok (int ?n, t)" "idle t" "old_or_new s t" "file_ok i t"
    "\<forall>q. valid q \<longrightarrow> fmap i t q = fmap i u q" "\<forall>k<MAXFILE * BSIZE. fbyte i t k = fbyte i u k"
    "\<forall>n<unat (sb_ninodes (sb s)). dinode_of t (of_nat n) = dinode_of u (of_nat n)"
    "ftable t = (ftable s)(f := (ftable s f)\<lparr>f_off := off + of_nat ?n\<rparr>)"
    "itable t = (itable u)(i := (itable u i)\<lparr>i_lock := initsleeplock\<rparr>)" "mem t = mem s" "myproc t = myproc s"
    unfolding off_def by (rule filewrite_txn[OF w])
  note R = rewrittenD[OF 2(4)]
  have sz: "i_size (itable t i) = i_size (itable u i)" "i_inum (itable t i) = of_nat ?k" by (simp add: t(9)) (simp add: t(9), subst R(4), simp add: 2(1))
  have l: "i_lock (itable s i) = initsleeplock" using W by (simp add: open_on_def)
  have it: "itable t i = (itable s i)\<lparr>i_addrs := i_addrs (itable t i), i_size := i_size (itable t i)\<rparr>"
    by (simp only: t(9) fun_upd_same, subst R(4)) (cases "itable s i", use l in \<open>simp add: 2(1)\<close>)
  have "unat (i_size (itable t i)) = max (unat (i_size (itable s i))) (unat off + ?n)"
    using W unat_bounds(3)[of "i_size (itable s i)"] by (simp add: sz R(2) 2(1) unat_of_nat)
  moreover have "dinode_of t (i_inum (itable t i)) = stored (itable t i)"
    unfolding sz(2) using t(7)[rule_format, of ?k] R(5)[of ?k] W by (simp add: 2(1,2) t(9) stored_lock)
  moreover have "dense i t n = dense i u n" if "n < 2 ^ 32" for n
  proof -
    have "k < MAXFILE * BSIZE" if "k < n" for k using that \<open>n < 2 ^ 32\<close> by (simp add: MAXFILE_def params)
    then show ?thesis using t(5)[rule_format, OF pos_valid] by (auto simp: dense_def)
  qed
  then have "dense i s (unat (i_size (itable s i))) \<longrightarrow> dense i t (unat (i_size (itable t i)))"
    using 2(5) unat_bounds(3)[of "i_size (itable u i)"] by (simp add: sz)
  ultimately show ?thesis using that[OF t(1,2,4,3)] t(6,8,10,11) R(1) it by (simp add: 2(3))
qed

section \<open>Modes and the recycle bin\<close>

lemma barred:
  assumes "f_type (ftable s f) = FD_INODE \<or> f_type (ftable s f) = FD_DEVICE" "f_ip (ftable s f) = Some i"
  shows "file_barred f mode s = Ok (i_rwmode (itable s i) AND mode = 0 \<or> i_showmode (itable s i) = 0)"
  using assms by (auto simp: file_barred_def)

section \<open>An example\<close>

text \<open>A process with the file of \<open>some_file\<close> open twice, for writing and for reading.\<close>

definition some_entry :: filerec where
  "some_entry = no_file\<lparr>f_type := FD_INODE, f_ref := 1, f_readable := True, f_writable := True, f_ip := Some 0\<rparr>"

definition some_open :: file_st where
  "some_open = set_lg (\<lambda>l. l\<lparr>lg_outstanding := 0\<rparr>)
     (some_files\<lparr>itable := (\<lambda>_. zero_inode)(0 := some_inode), ftable := (\<lambda>_. no_file)(3 := some_entry, 4 := some_entry)\<rparr>)"

lemma some_open_simps:
  "itable some_open = (\<lambda>_. zero_inode)(0 := some_inode)" "ftable some_open = (\<lambda>_. no_file)(3 := some_entry, 4 := some_entry)"
  "mem some_open = mem some_files" "myproc some_open = myproc some_files"
  by (simp_all add: some_open_def myproc_def set_lg_def)

lemma some_open_ok: "idle some_open" "file_ok 0 some_open" "room 10 some_open" "lg_size (lg some_open) = 45"
  "sb some_open = some_sb" "fmap 0 some_open p = 0"
proof -
  let ?u = "some_files\<lparr>itable := (\<lambda>_. zero_inode)(0 := some_inode), ftable := (\<lambda>_. no_file)(3 := some_entry, 4 := some_entry)\<rparr>"
  obtain m where m: "some_files = (some_fs m)\<lparr>mem := mem some_user, procs := procs some_user\<rparr>" unfolding some_files_def by blast
  have e: "bufs ?u = bufs (some_file m)" "disk ?u = disk (some_file m)" "lg ?u = lg (some_file m)" "sb ?u = sb (some_file m)"
    "itable ?u = itable (some_file m)" "p_pid (myproc ?u) = p_pid (myproc (some_file m))"
    using some_fs_sb[of m] by (simp_all add: m some_file_def myproc_def) (simp add: some_user_def zero_proc_def)
  note S = fs_same[OF e(1,2,6,3,4), where i = 0, unfolded e(5), OF refl refl refl] and F = some_file_ok[of m]
  have g: "lg (some_file m) = some_log" "sb (some_file m) = some_sb" using some_fs_sb[of m] by (simp_all add: some_file_def)
  have l: "lview some_open = lview ?u" "in_use lim blk some_open = in_use lim blk ?u" "sb some_open = sb ?u" "itable some_open = itable ?u"
    "lg some_open = (lg ?u)\<lparr>lg_outstanding := 0\<rparr>" for lim :: "superblock \<Rightarrow> u32" and blk
    by (simp_all add: some_open_def in_use_def) (simp_all add: set_lg_def)
  have "fs_ok {} ?u" using S(2) F(1) by (simp add: file_ok_def)
  then have ok: "fs_ok {} some_open" unfolding fs_ok_def l(3) by (simp add: some_open_def log_ok_set_lg)
  then show "idle some_open" "lg_size (lg some_open) = 45" "sb some_open = some_sb" using g e by (simp_all add: idle_def l some_log_def)
  show z: "fmap 0 some_open p = 0" for p by (simp add: fmap_def some_open_simps some_inode_def zero_inode_def)
  have "file_ok 0 ?u" "room 10 ?u" using S(8,10) F(1,3) by simp_all
  then show "file_ok 0 some_open" "room 10 some_open"
    using ok by (simp_all add: file_ok_def room_def tree_ok_def meta_used_def z l)
qed

lemma some_writable: "writable 3 0 0 [0, 0] some_open"
proof -
  have "touch (unat (0 :: u32)) (length [0, 0 :: byte]) = {0}" "wcost (unat (0 :: u32)) (length [0, 0 :: byte]) = 4"
    using touch_first[of 2] by (simp_all add: BSIZE_def numeral_2_eq_2)
  moreover have "copyin 4096 0 (length [0, 0 :: byte]) some_open = (0, [0, 0])"
    using some_files_user(3)[of 0] some_files_user(3)[of 1] copyin_mem[of some_open some_files]
    by (simp add: some_open_simps copyin_iff less_Suc_eq)
  moreover have "room 4 some_open" using some_open_ok(3) by (simp add: room_def)
  ultimately show ?thesis
    using some_open_ok some_files_user(1)
    by (simp add: writable_def Let_def open_on_def some_open_simps some_entry_def no_file_def some_inode_def zero_inode_def RW_def
        FILE_MAX_def params)
qed

section \<open>Properties\<close>



text \<open>
  (C11) A crash during \<open>filewrite\<close> of such a buffer loses all of it or nothing: whatever part of the
  disk writes has happened, recovery leaves every block outside the log as it was before the
  call, or every one as it is after it.
\<close>

theorem filewrite_atomic:
  assumes "writable f i addr xs s"
  shows "\<exists>t. filewrite f addr (int (length xs)) s = Ok (int (length xs), t) \<and> idle t \<and> old_or_new s t"
proof -
  obtain t where "filewrite f addr (int (length xs)) s = Ok (int (length xs), t)" "idle t" "old_or_new s t"
    by (rule filewrite_ok[OF assms])
  then show ?thesis by blast
qed

theorem filewrite_atomic_witness:
  "\<exists>t. filewrite 3 0 2 some_open = Ok (2, t) \<and> old_or_new some_open t"
  using filewrite_atomic[OF some_writable] by auto

text \<open>
  (C12) \<open>fileread\<close> of \<open>n\<close> bytes from an open file returns the number of bytes there are from the offset
  to the end of the file, at most \<open>n\<close>.  These bytes are then in the user's buffer, the offset
  has advanced by their number, and the file system is unchanged.
\<close>

theorem fileread_spec:
  assumes "open_on f i 2 s" "f_readable (ftable s f)" "readable i s" "dense i s (unat (i_size (itable s i)))"
    and "f_off (ftable s f) \<le> i_size (itable s i)" "unat (f_off (ftable s f)) + nat n < 2 ^ 32" "0 \<le> n" "n < 2 ^ 31"
    and m: "m = min (nat n) (unat (i_size (itable s i)) - unat (f_off (ftable s f)))"
    and d: "deliverable (p_pagetable (myproc s)) addr m s"
  shows "\<exists>t. fileread f addr n s = Ok (int m, t) \<and>
    copyin (p_pagetable (myproc s)) addr m t = (0, map (fbyte i s) [unat (f_off (ftable s f))..<unat (f_off (ftable s f)) + m]) \<and>
    f_off (ftable t f) = f_off (ftable s f) + of_nat m \<and> itable t = itable s \<and> lview t = lview s \<and> disk t = disk s"
proof -
  obtain t where t: "fileread f addr n s = Ok (int m, t)"
    "delivered (p_pagetable (myproc s)) addr (map (fbyte i s) [unat (f_off (ftable s f))..<unat (f_off (ftable s f)) + m]) s t"
    "ftable t = (ftable s)(f := (ftable s f)\<lparr>f_off := f_off (ftable s f) + of_nat m\<rparr>)" "itable t = itable s"
    "lview t = lview s" "disk t = disk s" "fs_ok {} t" by (rule fileread_ok[OF assms])
  have "copyin (p_pagetable (myproc s)) addr m t = (0, map (fbyte i s) [unat (f_off (ftable s f))..<unat (f_off (ftable s f)) + m])"
    using delivered_copyin[OF _ t(2)] d by simp
  then show ?thesis using t by simp
qed

text \<open>The file written by the example of \<open>filewrite\<close>, read through the other entry.\<close>

theorem fileread_spec_witness:
  "\<exists>t u. filewrite 3 0 2 some_open = Ok (2, t) \<and> fileread 4 0 5 t = Ok (2, u) \<and> copyin 4096 0 2 u = (0, [0, 0]) \<and> f_off (ftable u 4) = 2"
proof -
  note E = some_open_simps some_entry_def no_file_def some_inode_def zero_inode_def
  obtain t where t: "filewrite 3 0 (int (length [0, 0 :: byte])) some_open = Ok (int (length [0, 0 :: byte]), t)" "file_ok 0 t"
    "\<forall>k<MAXFILE * BSIZE. fbyte 0 t k = (if unat (f_off (ftable some_open 3)) \<le> k \<and> k < unat (f_off (ftable some_open 3)) + length [0, 0 :: byte]
       then [0, 0] ! (k - unat (f_off (ftable some_open 3))) else fbyte 0 some_open k)"
    "unat (i_size (itable t 0)) = max (unat (i_size (itable some_open 0))) (unat (f_off (ftable some_open 3)) + length [0, 0 :: byte])"
    "ftable t = (ftable some_open)(3 := (ftable some_open 3)\<lparr>f_off := f_off (ftable some_open 3) + of_nat (length [0, 0 :: byte])\<rparr>)"
    "mem t = mem some_open" "myproc t = myproc some_open"
    "itable t 0 = (itable some_open 0)\<lparr>i_addrs := i_addrs (itable t 0), i_size := i_size (itable t 0)\<rparr>"
    "dense 0 some_open (unat (i_size (itable some_open 0))) \<longrightarrow> dense 0 t (unat (i_size (itable t 0)))"
    by (rule filewrite_ok[OF some_writable])
  have sz: "unat (i_size (itable t 0)) = 2" using t(4) by (simp add: E)
  obtain a z where ip: "itable t 0 = (itable some_open 0)\<lparr>i_addrs := a, i_size := z\<rparr>" using t(8) by blast
  have op: "open_on 4 0 2 t" unfolding open_on_def t(5) ip by (simp add: E RW_def)
  have f4: "f_readable (ftable t 4)" "f_off (ftable t 4) = 0" by (simp_all add: t(5) E)
  have pt: "p_pagetable (myproc t) = 4096" using t(7) some_files_user(1) by (simp add: some_open_simps)
  have dv: "deliverable 4096 0 2 t"
    by (rule deliverable_mem[of some_files]) (use t(6) some_files_user(3)[of 0] some_files_user(3)[of 1] some_files_user(4)[of 2] in
      \<open>auto simp: E deliverable_def ubyte_def less_Suc_eq numeral_2_eq_2 split: if_splits\<close>)
  have dn: "dense 0 t (unat (i_size (itable t 0)))" using t(9) by (simp add: E dense_def)
  have r: "readable 0 t" using file_okD[OF t(2)] by (simp add: readable_def)
  have "(0 :: nat) < MAXFILE * BSIZE" "(1 :: nat) < MAXFILE * BSIZE" by (simp_all add: MAXFILE_def params)
  then have x: "fbyte 0 t 0 = 0" "fbyte 0 t (Suc 0) = 0" using t(3) by (simp_all add: E)
  have m: "2 = min (nat 5) (unat (i_size (itable t 0)) - unat (f_off (ftable t 4)))" by (simp add: sz f4(2))
  have le: "f_off (ftable t 4) \<le> i_size (itable t 0)" by (simp add: f4(2))
  have "\<exists>u. fileread 4 0 5 t = Ok (int 2, u) \<and>
    copyin (p_pagetable (myproc t)) 0 2 u = (0, map (fbyte 0 t) [unat (f_off (ftable t 4))..<unat (f_off (ftable t 4)) + 2]) \<and>
    f_off (ftable u 4) = f_off (ftable t 4) + of_nat 2 \<and> itable u = itable t \<and> lview u = lview t \<and> disk u = disk t"
    by (rule fileread_spec[OF op f4(1) r dn le _ _ _ m]) (use dv pt in \<open>simp_all add: f4(2)\<close>)
  then obtain u where "fileread 4 0 5 t = Ok (2, u)" "copyin 4096 0 2 u = (0, [0, 0])" "f_off (ftable u 4) = 2"
    unfolding pt f4(2) by (auto simp: x)
  moreover have "filewrite 3 0 2 some_open = Ok (2, t)" using t(1) by simp
  ultimately show ?thesis by blast
qed



end
