(* ===== verification/Sysfile.thy ===== *)
theory Sysfile
  imports Fileio
begin

text \<open>
  The system calls on files (\<open>kernel/sysfile.c\<close>), the functions that fetch their arguments
  (\<open>kernel/syscall.c\<close>) and \<open>chmode\<close> and \<open>chspmode\<close> of \<open>kernel/proc.c\<close>.

  \<^item> A system call returns an \<open>int\<close>; \<open>syscall\<close> stores it in register \<open>a0\<close> modulo \<open>2^64\<close>.
  \<^item> A string argument is the list of its characters before the NUL; the bytes of the
    caller's array behind it are 0.
  \<^item> Functions that return a null pointer on failure return \<open>None\<close>.
\<close>

section \<open>Arguments\<close>

definition fetchaddr :: "u64 \<Rightarrow> 'a kmach_scheme \<Rightarrow> u64 option" where
  "fetchaddr addr s =
     (let p = myproc s in
      if addr \<ge> p_sz p \<or> addr + 8 > p_sz p then None
      else let (r, xs) = copyin (p_pagetable p) addr 8 s in
           if r \<noteq> 0 then None else Some (get64 (cstr xs) 0))"

definition fetchstr :: "u64 \<Rightarrow> nat \<Rightarrow> 'a kmach_scheme \<Rightarrow> byte list option" where
  "fetchstr addr mx s =
     (let (err, xs) = copyinstr (p_pagetable (myproc s)) addr mx s in
      if err < 0 then None else Some (takeWhile (\<lambda>c. c \<noteq> 0) xs))"

definition argraw :: "nat \<Rightarrow> 'a kmach_scheme \<Rightarrow> u64 res" where
  "argraw n s = (if n \<le> 5 then Ok (tf_a (p_trapframe (myproc s)) n) else Panic ''argraw'')"

definition argint :: "nat \<Rightarrow> 'a kmach_scheme \<Rightarrow> int res" where
  "argint n s = rbind (argraw n s) (\<lambda>x. Ok (sint (ucast x :: u32)))"

definition argaddr :: "nat \<Rightarrow> 'a kmach_scheme \<Rightarrow> u64 res" where
  "argaddr n s = argraw n s"

definition argstr :: "nat \<Rightarrow> nat \<Rightarrow> 'a kmach_scheme \<Rightarrow> byte list option res" where
  "argstr n mx s = rbind (argaddr n s) (\<lambda>addr. Ok (fetchstr addr mx s))"

definition argfd :: "nat \<Rightarrow> 'a kmach_scheme \<Rightarrow> (nat \<times> nat) option res" where
  "argfd n s =
     rbind (argint n s) (\<lambda>fd.
     if fd < 0 \<or> fd \<ge> int NOFILE then Ok None
     else case p_ofile (myproc s) (nat fd) of
            None \<Rightarrow> Ok None
          | Some f \<Rightarrow> Ok (Some (nat fd, f)))"

definition set_ofile :: "nat \<Rightarrow> nat option \<Rightarrow> 'a kmach_scheme \<Rightarrow> 'a kmach_scheme" where
  "set_ofile fd f s = update_myproc (\<lambda>p. p\<lparr>p_ofile := (p_ofile p)(fd := f)\<rparr>) s"

definition fdalloc :: "nat \<Rightarrow> 'a kmach_scheme \<Rightarrow> nat option \<times> 'a kmach_scheme" where
  "fdalloc f s =
     (case find (\<lambda>fd. p_ofile (myproc s) fd = None) [0..<NOFILE] of
        None \<Rightarrow> (None, s)
      | Some fd \<Rightarrow> (Some fd, set_ofile fd (Some f) s))"

section \<open>Descriptors\<close>

definition sys_dup :: "'a file_st_scheme \<Rightarrow> (int \<times> 'a file_st_scheme) res" where
  "sys_dup s =
     rbind (argfd 0 s) (\<lambda>a.
     case a of
       None \<Rightarrow> Ok (-1, s)
     | Some (_, f) \<Rightarrow>
         (case fdalloc f s of
            (None, s) \<Rightarrow> Ok (-1, s)
          | (Some fd, s) \<Rightarrow> rbind (filedup f s) (\<lambda>(_, s). Ok (int fd, s))))"

definition sys_read :: "'a file_st_scheme \<Rightarrow> (int \<times> 'a file_st_scheme) res" where
  "sys_read s =
     rbind (argfd 0 s) (\<lambda>a.
     case a of
       None \<Rightarrow> Ok (-1, s)
     | Some (_, f) \<Rightarrow> rbind (argint 2 s) (\<lambda>n. rbind (argaddr 1 s) (\<lambda>p. fileread f p n s)))"

definition sys_write :: "'a file_st_scheme \<Rightarrow> (int \<times> 'a file_st_scheme) res" where
  "sys_write s =
     rbind (argfd 0 s) (\<lambda>a.
     case a of
       None \<Rightarrow> Ok (-1, s)
     | Some (_, f) \<Rightarrow> rbind (argint 2 s) (\<lambda>n. rbind (argaddr 1 s) (\<lambda>p. filewrite f p n s)))"

definition sys_close :: "'a file_st_scheme \<Rightarrow> (int \<times> 'a file_st_scheme) res" where
  "sys_close s =
     rbind (argfd 0 s) (\<lambda>a.
     case a of
       None \<Rightarrow> Ok (-1, s)
     | Some (fd, f) \<Rightarrow> rbind (fileclose f (set_ofile fd None s)) (\<lambda>s. Ok (0, s)))"

definition sys_fstat :: "'a file_st_scheme \<Rightarrow> (int \<times> 'a file_st_scheme) res" where
  "sys_fstat s =
     rbind (argfd 0 s) (\<lambda>a.
     case a of
       None \<Rightarrow> Ok (-1, s)
     | Some (_, f) \<Rightarrow> rbind (argaddr 1 s) (\<lambda>st. filestat f st s))"

definition SEEK_SET :: int where "SEEK_SET = 0"
definition SEEK_CUR :: int where "SEEK_CUR = 1"
definition SEEK_END :: int where "SEEK_END = 2"

definition sys_lseek :: "'a file_st_scheme \<Rightarrow> (int \<times> 'a file_st_scheme) res" where
  "sys_lseek s =
     rbind (argfd 0 s) (\<lambda>a.
     case a of
       None \<Rightarrow> Ok (-1, s)
     | Some (_, f) \<Rightarrow>
         rbind (argint 1 s) (\<lambda>off.
         rbind (argint 2 s) (\<lambda>whence.
         if f_type (ftable s f) \<noteq> FD_INODE then Ok (-1, s)
         else
           case f_ip (ftable s f) of
             None \<Rightarrow> Undef
           | Some ip \<Rightarrow>
               let size = i_size (itable s ip);
                   newoff = (if whence = SEEK_SET then of_int off
                             else if whence = SEEK_CUR then f_off (ftable s f) + of_int off
                             else if whence = SEEK_END then size + of_int off
                             else - 1 :: u32) in
               if sint newoff < 0 then Ok (-1, s)
               else
                 let newoff = (if newoff > size then size else newoff) in
                 Ok (uint newoff, set_file f (\<lambda>x. x\<lparr>f_off := newoff\<rparr>) s))))"

definition int_bytes :: "int \<Rightarrow> byte list" where
  "int_bytes x = map (put32 no_bytes 0 (of_int x)) [0..<4]"

definition sys_pipe :: "'a file_st_scheme \<Rightarrow> (int \<times> 'a file_st_scheme) res" where
  "sys_pipe s =
     rbind (argaddr 0 s) (\<lambda>fdarray.
     rbind (pipealloc s) (\<lambda>(fs, s).
     case fs of
       None \<Rightarrow> Ok (-1, s)
     | Some (rfile, wfile) \<Rightarrow>
         let close2 = (\<lambda>s. rbind (fileclose rfile s) (\<lambda>s. rbind (fileclose wfile s) (\<lambda>s. Ok (-1, s))));
             (fd0, s) = fdalloc rfile s in
         case fd0 of
           None \<Rightarrow> close2 s
         | Some fd0 \<Rightarrow>
             (case fdalloc wfile s of
                (None, s) \<Rightarrow> close2 (set_ofile fd0 None s)
              | (Some fd1, s) \<Rightarrow>
                  let bad = (\<lambda>s. close2 (set_ofile fd1 None (set_ofile fd0 None s)));
                      pt = p_pagetable (myproc s);
                      (r, s) = copyout pt fdarray (int_bytes (int fd0)) s in
                  if r < 0 then bad s
                  else
                    let (r, s) = copyout pt (fdarray + 4) (int_bytes (int fd1)) s in
                    if r < 0 then bad s else Ok (0, s))))"

section \<open>Links\<close>

definition add_nlink :: "nat \<Rightarrow> u16 \<Rightarrow> 'a fs_st_scheme \<Rightarrow> 'a fs_st_scheme" where
  "add_nlink ip d s = set_inode ip (\<lambda>x. x\<lparr>i_nlink := i_nlink x + d\<rparr>) s"

text \<open>\<open>end_op(); return r\<close>.\<close>

definition end_ret :: "int \<Rightarrow> 'a log_st_scheme \<Rightarrow> (int \<times> 'a log_st_scheme) res" where
  "end_ret r s = rbind (end_op s) (\<lambda>s. Ok (r, s))"

definition link_bad :: "nat \<Rightarrow> 'a fs_st_scheme \<Rightarrow> (int \<times> 'a fs_st_scheme) res" where
  "link_bad ip s =
     rbind (ilock (Some ip) s) (\<lambda>s.
     rbind (iupdate ip (add_nlink ip (-1) s)) (\<lambda>s.
     rbind (iunlockput ip s) (end_ret (-1))))"

definition sys_link :: "'a file_st_scheme \<Rightarrow> (int \<times> 'a file_st_scheme) res" where
  "sys_link s =
     rbind (argstr 0 MAXPATH s) (\<lambda>old.
     rbind (argstr 1 MAXPATH s) (\<lambda>new.
     case (old, new) of
       (Some old, Some new) \<Rightarrow>
         rbind (begin_op s) (\<lambda>s.
         rbind (namei old s) (\<lambda>(ip, s).
         case ip of
           None \<Rightarrow> end_ret (-1) s
         | Some ip \<Rightarrow>
             rbind (ilock (Some ip) s) (\<lambda>s.
             if i_type (itable s ip) = T_DIR then rbind (iunlockput ip s) (end_ret (-1))
             else
               rbind (iupdate ip (add_nlink ip 1 s)) (\<lambda>s.
               rbind (iunlock (Some ip) s) (\<lambda>s.
               rbind (nameiparent new s) (\<lambda>(dp, name, s).
               case dp of
                 None \<Rightarrow> link_bad ip s
               | Some dp \<Rightarrow>
                   rbind (ilock (Some dp) s) (\<lambda>s.
                   rbind (if i_dev (itable s dp) \<noteq> i_dev (itable s ip) then Ok (-1, s)
                          else dirlink dp name (i_inum (itable s ip)) s) (\<lambda>(r, s).
                   rbind (iunlockput dp s) (\<lambda>s.
                   if r < 0 then link_bad ip s
                   else rbind (iput ip s) (end_ret 0))))))))))
     | _ \<Rightarrow> Ok (-1, s)))"

function isdirempty_loop :: "nat \<Rightarrow> nat \<Rightarrow> bytes \<Rightarrow> 'a fs_st_scheme \<Rightarrow> (bool \<times> 'a fs_st_scheme) res" where
  "isdirempty_loop dp off kb s =
     (if off < unat (i_size (itable s dp)) then
        rbind (readi dp (Obj 0) kb (of_nat off) (of_nat DIRENT_SIZE) s) (\<lambda>(r, kb, s).
        if r \<noteq> int DIRENT_SIZE then Panic ''isdirempty: readi''
        else if get16 kb 0 \<noteq> 0 then Ok (False, s)
        else isdirempty_loop dp (off + DIRENT_SIZE) kb s)
      else Ok (True, s))"
  by pat_completeness auto
termination
proof (relation "measure (\<lambda>(dp, off, kb, s). 2 ^ 32 - off)", goal_cases)
  case (2 dp off kb s)
  then show ?case using unat_bounds(3)[of "i_size (itable s dp)"] by (simp add: DIRENT_SIZE_def)
qed simp

definition isdirempty :: "nat \<Rightarrow> 'a fs_st_scheme \<Rightarrow> (bool \<times> 'a fs_st_scheme) res" where
  "isdirempty dp s = isdirempty_loop dp (2 * DIRENT_SIZE) no_bytes s"

text \<open>\<open>ip->type == T_DIR && !isdirempty(ip)\<close>\<close>

definition dir_in_use :: "nat \<Rightarrow> 'a fs_st_scheme \<Rightarrow> (bool \<times> 'a fs_st_scheme) res" where
  "dir_in_use ip s =
     (if i_type (itable s ip) = T_DIR then rbind (isdirempty ip s) (\<lambda>(e, s). Ok (\<not> e, s)) else Ok (False, s))"

text \<open>Clearing the directory entry at \<open>off\<close>; a directory loses the link from its \<open>..\<close>.\<close>

definition clear_entry :: "nat \<Rightarrow> nat \<Rightarrow> nat \<Rightarrow> 'a fs_st_scheme \<Rightarrow> 'a fs_st_scheme res" where
  "clear_entry dp ip off s =
     rbind (writei dp (Obj 0) no_bytes (of_nat off) (of_nat DIRENT_SIZE) s) (\<lambda>(r, s).
     if r \<noteq> int DIRENT_SIZE then Panic ''unlink: writei''
     else if i_type (itable s ip) = T_DIR then iupdate dp (add_nlink dp (-1) s)
     else Ok s)"

definition sys_unlink :: "'a file_st_scheme \<Rightarrow> (int \<times> 'a file_st_scheme) res" where
  "sys_unlink s =
     rbind (argstr 0 MAXPATH s) (\<lambda>path.
     case path of
       None \<Rightarrow> Ok (-1, s)
     | Some path \<Rightarrow>
         rbind (begin_op s) (\<lambda>s.
         rbind (nameiparent path s) (\<lambda>(dp, name, s).
         case dp of
           None \<Rightarrow> end_ret (-1) s
         | Some dp \<Rightarrow>
             let bad = (\<lambda>s. rbind (iunlockput dp s) (end_ret (-1))) in
             rbind (ilock (Some dp) s) (\<lambda>s.
             if namecmp name DOT = 0 \<or> namecmp name DOTDOT = 0 then bad s
             else
               rbind (dirlookup dp name s) (\<lambda>(ip, off, s).
               case (ip, off) of
                 (Some ip, Some off) \<Rightarrow>
                   rbind (ilock (Some ip) s) (\<lambda>s.
                   if sint (i_nlink (itable s ip)) < 1 then Panic ''unlink: nlink < 1''
                   else
                     rbind (dir_in_use ip s) (\<lambda>(busy, s).
                     if busy then rbind (iunlockput ip s) bad
                     else
                       rbind (clear_entry dp ip off s) (\<lambda>s.
                       rbind (iunlockput dp s) (\<lambda>s.
                       rbind (iupdate ip (add_nlink ip (-1) s)) (\<lambda>s.
                       rbind (iunlockput ip s) (end_ret 0))))))
               | (Some ip, None) \<Rightarrow> Undef
               | (None, _) \<Rightarrow> bad s)))))"

section \<open>Creating files\<close>

definition create :: "byte list \<Rightarrow> u16 \<Rightarrow> u16 \<Rightarrow> u16 \<Rightarrow> 'a fs_st_scheme \<Rightarrow> (nat option \<times> 'a fs_st_scheme) res" where
  "create path ty major minor s =
     rbind (nameiparent path s) (\<lambda>(dp, name, s).
     case dp of
       None \<Rightarrow> Ok (None, s)
     | Some dp \<Rightarrow>
         rbind (ilock (Some dp) s) (\<lambda>s.
         rbind (dirlookup dp name s) (\<lambda>(ip, _, s).
         case ip of
           Some ip \<Rightarrow>
             rbind (iunlockput dp s) (\<lambda>s.
             rbind (ilock (Some ip) s) (\<lambda>s.
             let t = i_type (itable s ip) in
             if ty = T_FILE \<and> (t = T_FILE \<or> t = T_DEVICE) then Ok (Some ip, s)
             else if t = T_SYMLINK then Ok (Some ip, s)
             else rbind (iunlockput ip s) (\<lambda>s. Ok (None, s))))
         | None \<Rightarrow>
             rbind (ialloc (i_dev (itable s dp)) ty s) (\<lambda>(ip, s).
             rbind (ilock (Some ip) s) (\<lambda>s.
             rbind (iupdate ip (set_inode ip (\<lambda>x. x\<lparr>i_major := major, i_minor := minor, i_nlink := 1,
                                                    i_showmode := 1\<rparr>) s)) (\<lambda>s.
             rbind (if ty = T_DIR then
                      rbind (iupdate dp (add_nlink dp 1 s)) (\<lambda>s.
                      build_dir_tree ip (i_inum (itable s dp)) s)
                    else Ok s) (\<lambda>s.
             rbind (dirlink dp name (i_inum (itable s ip)) s) (\<lambda>(r, s).
             if r < 0 then Panic ''create: dirlink''
             else rbind (iunlockput dp s) (\<lambda>s. Ok (Some ip, s))))))))))"

definition O_RDONLY :: u32 where "O_RDONLY = 0"
definition O_WRONLY :: u32 where "O_WRONLY = 1"
definition O_RDWR :: u32 where "O_RDWR = 2"
definition O_CREATE :: u32 where "O_CREATE = 0x200"
definition O_TRUNC :: u32 where "O_TRUNC = 0x400"
definition O_NOFOLLOW :: u32 where "O_NOFOLLOW = 0x800"
definition O_EXTENT :: u32 where "O_EXTENT = 0x004"
definition O_APPEND :: u32 where "O_APPEND = 0x1000"

text \<open>The password \<open>iam@admin9876\<close>.\<close>

definition ADMIN :: bytes where
  "ADMIN = cstr [105, 97, 109, 64, 97, 100, 109, 105, 110, 57, 56, 55, 54]"

text \<open>The first part of \<open>sys_open\<close>: the inode, locked; \<open>None\<close> is the return with \<open>-1\<close>.\<close>

definition open_inode :: "byte list \<Rightarrow> u32 \<Rightarrow> 'a fs_st_scheme \<Rightarrow> (nat option \<times> 'a fs_st_scheme) res" where
  "open_inode path omode s =
     (if omode AND O_CREATE \<noteq> 0 then
        create path (if omode = O_EXTENT then T_EXTENT else T_FILE) 0 0 s
      else
        rbind (namei path s) (\<lambda>(ip, s).
        case ip of
          None \<Rightarrow> Ok (None, s)
        | Some ip \<Rightarrow>
            rbind (ilock (Some ip) s) (\<lambda>s.
            if i_type (itable s ip) = T_DIR \<and> omode \<noteq> O_RDONLY then
              rbind (iunlockput ip s) (\<lambda>s. Ok (None, s))
            else Ok (Some ip, s))))"

text \<open>The loop that follows symbolic links; \<open>kb\<close> is the array \<open>path\<close>.\<close>

function follow :: "nat \<Rightarrow> u32 \<Rightarrow> nat \<Rightarrow> bytes \<Rightarrow> 'a fs_st_scheme \<Rightarrow> (nat option \<times> 'a fs_st_scheme) res" where
  "follow ip omode cnt kb s =
     (if i_type (itable s ip) = T_SYMLINK \<and> omode AND O_NOFOLLOW = 0 then
        rbind (readi ip (Obj 0) kb 0 (of_nat MAXPATH) s) (\<lambda>(n, kb, s).
        rbind (iunlockput ip s) (\<lambda>s.
        if n \<noteq> int MAXPATH then Ok (None, s)
        else
          case string_in MAXPATH kb of
            None \<Rightarrow> Undef
          | Some path \<Rightarrow>
              rbind (namei path s) (\<lambda>(next, s).
              case next of
                None \<Rightarrow> Ok (None, s)
              | Some ip \<Rightarrow>
                  if cnt + 1 > 10 then Ok (None, s)
                  else rbind (ilock (Some ip) s) (follow ip omode (cnt + 1) kb))))
      else Ok (Some ip, s))"
  by pat_completeness auto
termination by (relation "measure (\<lambda>(ip, omode, cnt, kb, s). 11 - cnt)") auto

definition close_bad :: "nat option \<Rightarrow> nat \<Rightarrow> 'a file_st_scheme \<Rightarrow> (int \<times> 'a file_st_scheme) res" where
  "close_bad f ip s = rbind (close_opt f s) (\<lambda>s. rbind (iunlockput ip s) (end_ret (-1)))"

text \<open>The last part: the inode is opened on the file \<open>f\<close> and the descriptor \<open>fd\<close>.\<close>

definition open_file :: "nat \<Rightarrow> nat \<Rightarrow> nat \<Rightarrow> u32 \<Rightarrow> 'a file_st_scheme \<Rightarrow> (int \<times> 'a file_st_scheme) res" where
  "open_file ip f fd omode s =
     (let x = itable s ip;
          s = (if i_type x = T_DEVICE then set_file f (\<lambda>y. y\<lparr>f_type := FD_DEVICE, f_major := i_major x\<rparr>) s
               else set_file f (\<lambda>y. y\<lparr>f_type := FD_INODE, f_off := (if omode AND O_APPEND \<noteq> 0 then i_size x else 0)\<rparr>) s);
          s = set_file f (\<lambda>y. y\<lparr>f_ip := Some ip, f_readable := omode AND O_WRONLY = 0,
                f_writable := omode AND O_WRONLY \<noteq> 0 \<or> omode AND O_RDWR \<noteq> 0\<rparr>) s in
      rbind (if omode AND O_TRUNC \<noteq> 0 \<and> i_type x = T_FILE then itrunc ip s else Ok s) (\<lambda>s.
      rbind (iunlock (Some ip) s) (end_ret (int fd))))"

definition sys_open :: "'a file_st_scheme \<Rightarrow> (int \<times> 'a file_st_scheme) res" where
  "sys_open s =
     rbind (argstr 0 MAXPATH s) (\<lambda>path.
     rbind (argint 1 s) (\<lambda>om.
     rbind (argstr 2 30 s) (\<lambda>password.
     case (path, password) of
       (Some path, Some password) \<Rightarrow>
         let omode = of_int om :: u32 in
         rbind (begin_op s) (\<lambda>s.
         rbind (open_inode path omode s) (\<lambda>(ip, s).
         rbind (case ip of None \<Rightarrow> Ok (None, s) | Some ip \<Rightarrow> follow ip omode 0 (cstr path) s) (\<lambda>(ip, s).
         case ip of
           None \<Rightarrow> end_ret (-1) s
         | Some ip \<Rightarrow>
             if i_type (itable s ip) = T_DEVICE \<and>
                (sint (i_major (itable s ip)) < 0 \<or> sint (i_major (itable s ip)) \<ge> int NDEV)
             then rbind (iunlockput ip s) (end_ret (-1))
             else
               case filealloc s of
                 (None, s) \<Rightarrow> close_bad None ip s
               | (Some f, s) \<Rightarrow>
                   (case fdalloc f s of
                      (None, s) \<Rightarrow> close_bad (Some f) ip s
                    | (Some fd, s) \<Rightarrow>
                        if i_supermode (itable s ip) = 1 \<and> strncmp (cstr password) 0 ADMIN 0 13 \<noteq> 0
                        then rbind (iunlockput ip s) (end_ret (-1))
                        else open_file ip f fd omode s))))
     | _ \<Rightarrow> Ok (-1, s))))"

text \<open>\<open>sys_mkdir\<close> and \<open>sys_mknod\<close> begin the operation before they fetch the path.\<close>

definition create_node :: "byte list option \<Rightarrow> u16 \<Rightarrow> u16 \<Rightarrow> u16 \<Rightarrow> 'a fs_st_scheme \<Rightarrow> (int \<times> 'a fs_st_scheme) res" where
  "create_node path ty major minor s =
     (case path of
        None \<Rightarrow> end_ret (-1) s
      | Some path \<Rightarrow>
          rbind (create path ty major minor s) (\<lambda>(ip, s).
          case ip of
            None \<Rightarrow> end_ret (-1) s
          | Some ip \<Rightarrow> rbind (iunlockput ip s) (end_ret 0)))"

definition sys_mkdir :: "'a file_st_scheme \<Rightarrow> (int \<times> 'a file_st_scheme) res" where
  "sys_mkdir s =
     rbind (begin_op s) (\<lambda>s.
     rbind (argstr 0 MAXPATH s) (\<lambda>path. create_node path T_DIR 0 0 s))"

definition sys_mknod :: "'a file_st_scheme \<Rightarrow> (int \<times> 'a file_st_scheme) res" where
  "sys_mknod s =
     rbind (begin_op s) (\<lambda>s.
     rbind (argstr 0 MAXPATH s) (\<lambda>path.
     rbind (argint 1 s) (\<lambda>major.
     rbind (argint 2 s) (\<lambda>minor. create_node path T_DEVICE (of_int major) (of_int minor) s))))"

definition set_cwd :: "nat option \<Rightarrow> 'a kmach_scheme \<Rightarrow> 'a kmach_scheme" where
  "set_cwd ip s = update_myproc (\<lambda>p. p\<lparr>p_cwd := ip\<rparr>) s"

definition sys_chdir :: "'a file_st_scheme \<Rightarrow> (int \<times> 'a file_st_scheme) res" where
  "sys_chdir s =
     rbind (begin_op s) (\<lambda>s.
     rbind (argstr 0 MAXPATH s) (\<lambda>path.
     rbind (case path of None \<Rightarrow> Ok (None, s) | Some path \<Rightarrow> namei path s) (\<lambda>(ip, s).
     case ip of
       None \<Rightarrow> end_ret (-1) s
     | Some ip \<Rightarrow>
         rbind (ilock (Some ip) s) (\<lambda>s.
         if i_type (itable s ip) \<noteq> T_DIR then rbind (iunlockput ip s) (end_ret (-1))
         else
           rbind (iunlock (Some ip) s) (\<lambda>s.
           rbind (case p_cwd (myproc s) of None \<Rightarrow> Undef | Some cwd \<Rightarrow> iput cwd s) (\<lambda>s.
           rbind (end_op s) (\<lambda>s. Ok (0, set_cwd (Some ip) s))))))))"

definition sys_symlink :: "'a file_st_scheme \<Rightarrow> (int \<times> 'a file_st_scheme) res" where
  "sys_symlink s =
     rbind (argstr 0 MAXPATH s) (\<lambda>target.
     rbind (argstr 1 MAXPATH s) (\<lambda>path.
     case (target, path) of
       (Some target, Some path) \<Rightarrow>
         rbind (begin_op s) (\<lambda>s.
         rbind (create path T_SYMLINK 0 0 s) (\<lambda>(ip, s).
         case ip of
           None \<Rightarrow> end_ret (-1) s
         | Some ip \<Rightarrow>
             rbind (writei ip (Obj 0) (cstr target) 0 (of_nat MAXPATH) s) (\<lambda>(r, s).
             if r \<noteq> int MAXPATH then end_ret (-1) s
             else rbind (iupdate ip s) (\<lambda>s. rbind (iunlockput ip s) (end_ret 0)))))
     | _ \<Rightarrow> Ok (-1, s)))"

section \<open>The additions of this file system\<close>

definition sb_bytes :: "superblock \<Rightarrow> byte list" where
  "sb_bytes x = map (put_superblock no_bytes x) [0..<44]"

definition sys_fsinfo :: "'a file_st_scheme \<Rightarrow> (int \<times> 'a file_st_scheme) res" where
  "sys_fsinfo s =
     rbind (argaddr 0 s) (\<lambda>sb_user.
     let (r, s) = copyout (p_pagetable (myproc s)) sb_user (sb_bytes (sb s)) s in
     Ok (if r < 0 then -1 else 0, s))"

text \<open>
  \<open>sys_delete\<close>: the first call moves a file to the recycle bin, the second one unlinks it.
  Where the code calls \<open>iunlock\<close> with the null pointer that \<open>dirlookup\<close> returned, it panics.
\<close>

definition delete_forever :: "byte list \<Rightarrow> nat \<Rightarrow> 'a file_st_scheme \<Rightarrow> (int \<times> 'a file_st_scheme) res" where
  "delete_forever path ip s =
     rbind (nameiparent path s) (\<lambda>(dp, name, s).
     case dp of
       None \<Rightarrow> end_ret (-1) s
     | Some dp \<Rightarrow>
         let bad = (\<lambda>ip s. rbind (iunlockput dp s) (\<lambda>s. rbind (iunlock ip s) (end_ret (-1)))) in
         rbind (ilock (Some dp) s) (\<lambda>s.
         if namecmp name DOT = 0 \<or> namecmp name DOTDOT = 0 then bad (Some ip) s
         else
           rbind (dirlookup dp name s) (\<lambda>(ip, off, s).
           case (ip, off) of
             (Some ip, Some off) \<Rightarrow>
               if sint (i_nlink (itable s ip)) < 1 then Panic ''unlink: nlink < 1''
               else
                 rbind (dir_in_use ip s) (\<lambda>(busy, s).
                 if busy then bad (Some ip) s
                 else
                   rbind (clear_entry dp ip off s) (\<lambda>s.
                   rbind (iunlockput dp s) (\<lambda>s.
                   rbind (iupdate ip (add_nlink ip (-1) s)) (\<lambda>s.
                   rbind (iunlock (Some ip) s) (end_ret 0)))))
           | (Some ip, None) \<Rightarrow> Undef
           | (None, _) \<Rightarrow> bad None s)))"

definition sys_delete :: "'a file_st_scheme \<Rightarrow> (int \<times> 'a file_st_scheme) res" where
  "sys_delete s =
     rbind (argstr 0 MAXPATH s) (\<lambda>path.
     case path of
       None \<Rightarrow> Ok (-1, s)
     | Some path \<Rightarrow>
         rbind (begin_op s) (\<lambda>s.
         rbind (namei path s) (\<lambda>(ip, s).
         case ip of
           None \<Rightarrow> end_ret (-1) s
         | Some ip \<Rightarrow>
             rbind (ilock (Some ip) s) (\<lambda>s.
             if i_showmode (itable s ip) = 1 then
               rbind (iupdate ip (set_inode ip (\<lambda>x. x\<lparr>i_showmode := 0\<rparr>) s)) (\<lambda>s.
               rbind (iunlock (Some ip) s) (end_ret 0))
             else delete_forever path ip s))))"

text \<open>\<open>chmode\<close>, \<open>chspmode\<close> and \<open>sys_show\<close> change one field of the inode at a path.\<close>

definition change_inode :: "byte list \<Rightarrow> (inode \<Rightarrow> inode) \<Rightarrow> 'a fs_st_scheme \<Rightarrow> (int \<times> 'a fs_st_scheme) res" where
  "change_inode path g s =
     rbind (begin_op s) (\<lambda>s.
     rbind (namei path s) (\<lambda>(ip, s).
     case ip of
       None \<Rightarrow> end_ret (-1) s
     | Some ip \<Rightarrow>
         rbind (ilock (Some ip) s) (\<lambda>s.
         rbind (iupdate ip (set_inode ip g s)) (\<lambda>s.
         rbind (iunlock (Some ip) s) (end_ret 0)))))"

definition sys_show :: "'a file_st_scheme \<Rightarrow> (int \<times> 'a file_st_scheme) res" where
  "sys_show s =
     rbind (argstr 0 MAXPATH s) (\<lambda>path.
     case path of
       None \<Rightarrow> Ok (-1, s)
     | Some path \<Rightarrow> change_inode path (\<lambda>x. x\<lparr>i_showmode := 1\<rparr>) s)"

definition chmode :: "byte list \<Rightarrow> int \<Rightarrow> 'a fs_st_scheme \<Rightarrow> (int \<times> 'a fs_st_scheme) res" where
  "chmode pathname mode s = change_inode pathname (\<lambda>x. x\<lparr>i_rwmode := of_int mode\<rparr>) s"

definition chspmode :: "byte list \<Rightarrow> byte list \<Rightarrow> int \<Rightarrow> 'a fs_st_scheme \<Rightarrow> (int \<times> 'a fs_st_scheme) res" where
  "chspmode pathname password supermode s =
     (if strncmp (cstr password) 0 ADMIN 0 13 \<noteq> 0 then Ok (-1, s)
      else change_inode pathname (\<lambda>x. x\<lparr>i_supermode := of_int supermode\<rparr>) s)"

definition sys_chmode :: "'a file_st_scheme \<Rightarrow> (int \<times> 'a file_st_scheme) res" where
  "sys_chmode s =
     rbind (argstr 0 MAXPATH s) (\<lambda>path.
     case path of
       None \<Rightarrow> Ok (-1, s)
     | Some path \<Rightarrow> rbind (argint 1 s) (\<lambda>mode. chmode path mode s))"

definition sys_chspmode :: "'a file_st_scheme \<Rightarrow> (int \<times> 'a file_st_scheme) res" where
  "sys_chspmode s =
     rbind (argstr 0 MAXPATH s) (\<lambda>path.
     rbind (argstr 1 30 s) (\<lambda>password.
     case (path, password) of
       (Some path, Some password) \<Rightarrow> rbind (argint 2 s) (\<lambda>supermode. chspmode path password supermode s)
     | _ \<Rightarrow> Ok (-1, s)))"

text \<open>
  \<open>sys_showstat\<close> prints a \<open>struct stat\<close> of the user.  The loop over the extents tests
  \<open>st.addrs[ad]\<close> before it tests \<open>ad\<close>, so it reads beyond the array when all entries are used.
\<close>

definition sys_showstat :: "'a file_st_scheme \<Rightarrow> (int \<times> 'a file_st_scheme) res" where
  "sys_showstat s =
     rbind (argaddr 0 s) (\<lambda>st_addr.
     let st = put_bytes no_bytes 0 (snd (copyin (p_pagetable (myproc s)) st_addr STAT_SIZE s)) in
     if get16 st 8 = T_EXTENT \<and> (\<forall>ad\<in>{..<13}. get32 st (36 + 4 * ad) \<noteq> 0) then Undef
     else Ok (0, s))"

end
