(* ===== verification/Proc.thy ===== *)
theory Proc
  imports Sysfile
begin

text \<open>
  Processes (\<open>kernel/proc.c\<close>) and the kernel's own page table (\<open>kvmmake\<close> of \<open>kernel/vm.c\<close>).

  A \<open>struct proc *\<close> is an index into \<open>procs\<close>, a null pointer is \<open>None\<close>.  The trap frame of a
  process is a record of its own; \<open>p_trapframe_page\<close> is the page it lies in.  There is one
  processor; \<open>curproc\<close> is the process it runs.  A function that gives up the processor
  (\<open>yield\<close>, \<open>sleep\<close>, \<open>exit\<close>) returns the state in which it calls \<open>sched\<close>.  The saved kernel
  registers (\<open>struct context\<close>, \<open>swtch.S\<close>) and the spin locks of the table are not modelled.
\<close>

section \<open>State\<close>

record proc_st = file_st +
  nextpid :: int
  initproc :: "nat option"
  ticks :: u32
  first_run :: bool           \<comment> \<open>\<open>first\<close> of \<open>forkret\<close>\<close>
  trampoline :: u64          \<comment> \<open>linker symbols\<close>
  etext :: u64
  kernel_pagetable :: u64

definition TRAMPOLINE :: u64 where "TRAMPOLINE = MAXVA - of_nat PGSIZE"
definition TRAPFRAME :: u64 where "TRAPFRAME = TRAMPOLINE - of_nat PGSIZE"
definition KSTACK :: "nat \<Rightarrow> u64" where "KSTACK p = TRAMPOLINE - (of_nat p + 1) * 2 * of_nat PGSIZE"

definition set_proc :: "nat \<Rightarrow> (proc \<Rightarrow> proc) \<Rightarrow> 'a kmach_scheme \<Rightarrow> 'a kmach_scheme" where
  "set_proc i f s = s\<lparr>procs := (procs s)(i := f (procs s i))\<rparr>"

section \<open>The kernel page table\<close>

definition UART0 :: u64 where "UART0 = 0x10000000"
definition VIRTIO0 :: u64 where "VIRTIO0 = 0x10001000"
definition PLIC :: u64 where "PLIC = 0x0c000000"
definition KERNBASE :: u64 where "KERNBASE = 0x80000000"

definition proc_mapstacks :: "u64 \<Rightarrow> 'a kmach_scheme \<Rightarrow> 'a kmach_scheme res" where
  "proc_mapstacks kpgtbl =
     foldR (\<lambda>p s.
       let (pa, s) = kalloc s in
       if pa = 0 then Panic ''kalloc''
       else kvmmap kpgtbl (KSTACK p) pa (of_nat PGSIZE) (PTE_R OR PTE_W) s) [0..<NPROC]"

definition kvmmake :: "'a proc_st_scheme \<Rightarrow> (u64 \<times> 'a proc_st_scheme) res" where
  "kvmmake s =
     (let (kpgtbl, s) = kalloc s; s = zero_page kpgtbl s in
      rbind (kvmmap kpgtbl UART0 UART0 (of_nat PGSIZE) (PTE_R OR PTE_W) s) (\<lambda>s.
      rbind (kvmmap kpgtbl VIRTIO0 VIRTIO0 (of_nat PGSIZE) (PTE_R OR PTE_W) s) (\<lambda>s.
      rbind (kvmmap kpgtbl PLIC PLIC 0x400000 (PTE_R OR PTE_W) s) (\<lambda>s.
      rbind (kvmmap kpgtbl KERNBASE KERNBASE (etext s - KERNBASE) (PTE_R OR PTE_X) s) (\<lambda>s.
      rbind (kvmmap kpgtbl (etext s) (etext s) (PHYSTOP - etext s) (PTE_R OR PTE_W) s) (\<lambda>s.
      rbind (kvmmap kpgtbl TRAMPOLINE (trampoline s) (of_nat PGSIZE) (PTE_R OR PTE_X) s) (\<lambda>s.
      rbind (proc_mapstacks kpgtbl s) (\<lambda>s. Ok (kpgtbl, s)))))))))"

definition kvminit :: "'a proc_st_scheme \<Rightarrow> 'a proc_st_scheme res" where
  "kvminit s = rbind (kvmmake s) (\<lambda>(kpgtbl, s). Ok (s\<lparr>kernel_pagetable := kpgtbl\<rparr>))"

section \<open>Allocation of processes\<close>

definition procinit :: "'a kmach_scheme \<Rightarrow> 'a kmach_scheme" where
  "procinit s = foldl (\<lambda>s p. set_proc p (\<lambda>x. x\<lparr>p_kstack := KSTACK p\<rparr>) s) s [0..<NPROC]"

text \<open>\<open>nextpid\<close> is a signed \<open>int\<close>; its overflow has no defined meaning.\<close>

definition allocpid :: "'a proc_st_scheme \<Rightarrow> (int \<times> 'a proc_st_scheme) res" where
  "allocpid s = (if nextpid s = 2 ^ 31 - 1 then Undef else Ok (nextpid s, s\<lparr>nextpid := nextpid s + 1\<rparr>))"

definition proc_pagetable :: "nat \<Rightarrow> 'a proc_st_scheme \<Rightarrow> (u64 \<times> 'a proc_st_scheme) res" where
  "proc_pagetable p s =
     (let (pagetable, s) = uvmcreate s in
      if pagetable = 0 then Ok (0, s)
      else
        rbind (mappages pagetable TRAMPOLINE (of_nat PGSIZE) (trampoline s) (PTE_R OR PTE_X) s) (\<lambda>(r, s).
        if r < 0 then rbind (uvmfree pagetable 0 s) (\<lambda>s. Ok (0, s))
        else
          rbind (mappages pagetable TRAPFRAME (of_nat PGSIZE) (p_trapframe_page (procs s p)) (PTE_R OR PTE_W) s) (\<lambda>(r, s).
          if r < 0 then
            rbind (uvmunmap pagetable TRAMPOLINE 1 False s) (\<lambda>s. rbind (uvmfree pagetable 0 s) (\<lambda>s. Ok (0, s)))
          else Ok (pagetable, s))))"

definition proc_freepagetable :: "u64 \<Rightarrow> u64 \<Rightarrow> 'a kmach_scheme \<Rightarrow> 'a kmach_scheme res" where
  "proc_freepagetable pagetable sz s =
     rbind (uvmunmap pagetable TRAMPOLINE 1 False s) (\<lambda>s.
     rbind (uvmunmap pagetable TRAPFRAME 1 False s) (\<lambda>s.
     uvmfree pagetable sz s))"

definition freeproc :: "nat \<Rightarrow> 'a kmach_scheme \<Rightarrow> 'a kmach_scheme res" where
  "freeproc p s =
     rbind (if p_trapframe_page (procs s p) \<noteq> 0 then kfree (p_trapframe_page (procs s p)) s else Ok s) (\<lambda>s.
     let s = set_proc p (\<lambda>x. x\<lparr>p_trapframe_page := 0\<rparr>) s in
     rbind (if p_pagetable (procs s p) \<noteq> 0 then proc_freepagetable (p_pagetable (procs s p)) (p_sz (procs s p)) s else Ok s) (\<lambda>s.
     Ok (set_proc p (\<lambda>x. x\<lparr>p_pagetable := 0, p_sz := 0, p_pid := 0, p_parent := None,
       p_name := (p_name x)(0 := 0), p_chan := No_chan, p_killed := False, p_xstate := 0, p_state := UNUSED\<rparr>) s)))"

definition allocproc :: "'a proc_st_scheme \<Rightarrow> (nat option \<times> 'a proc_st_scheme) res" where
  "allocproc s =
     (case find (\<lambda>p. p_state (procs s p) = UNUSED) [0..<NPROC] of
        None \<Rightarrow> Ok (None, s)
      | Some p \<Rightarrow>
          rbind (allocpid s) (\<lambda>(pid, s).
          let s = set_proc p (\<lambda>x. x\<lparr>p_pid := pid, p_state := USED\<rparr>) s;
              (tf, s) = kalloc s;
              s = set_proc p (\<lambda>x. x\<lparr>p_trapframe_page := tf\<rparr>) s in
          if tf = 0 then rbind (freeproc p s) (\<lambda>s. Ok (None, s))
          else
            rbind (proc_pagetable p s) (\<lambda>(pagetable, s).
            let s = set_proc p (\<lambda>x. x\<lparr>p_pagetable := pagetable\<rparr>) s in
            if pagetable = 0 then rbind (freeproc p s) (\<lambda>s. Ok (None, s))
            else Ok (Some p, s))))"

section \<open>The first process\<close>

definition initcode :: "byte list" where
  "initcode =
    [0x17, 0x05, 0x00, 0x00, 0x13, 0x05, 0x45, 0x02,
     0x97, 0x05, 0x00, 0x00, 0x93, 0x85, 0x35, 0x02,
     0x93, 0x08, 0x70, 0x00, 0x73, 0x00, 0x00, 0x00,
     0x93, 0x08, 0x20, 0x00, 0x73, 0x00, 0x00, 0x00,
     0xef, 0xf0, 0x9f, 0xff, 0x2f, 0x69, 0x6e, 0x69,
     0x74, 0x00, 0x00, 0x24, 0x00, 0x00, 0x00, 0x00,
     0x00, 0x00, 0x00, 0x00]"

text \<open>\<open>''initcode''\<close> and \<open>''/''\<close> in ASCII.  \<open>userinit\<close> does not look at the result of \<open>allocproc\<close>.\<close>

definition userinit :: "'a proc_st_scheme \<Rightarrow> 'a proc_st_scheme res" where
  "userinit s =
     rbind (allocproc s) (\<lambda>(np, s).
     case np of
       None \<Rightarrow> Undef
     | Some p \<Rightarrow>
         let s = s\<lparr>initproc := Some p\<rparr> in
         rbind (uvminit (p_pagetable (procs s p)) (cstr initcode) (length initcode) s) (\<lambda>s.
         let s = set_proc p (\<lambda>x. x\<lparr>p_sz := of_nat PGSIZE,
               p_trapframe := (p_trapframe x)\<lparr>tf_epc := 0, tf_sp := of_nat PGSIZE\<rparr>,
               p_name := safestrcpy (p_name x) 0 (cstr [105, 110, 105, 116, 99, 111, 100, 101]) 0 16\<rparr>) s in
         rbind (namei [47] s) (\<lambda>(cwd, s).
         Ok (set_proc p (\<lambda>x. x\<lparr>p_cwd := cwd, p_state := RUNNABLE\<rparr>) s))))"

section \<open>Memory and children\<close>

text \<open>The local variable \<open>sz\<close> has 32 bits.\<close>

definition growproc :: "int \<Rightarrow> 'a kmach_scheme \<Rightarrow> (int \<times> 'a kmach_scheme) res" where
  "growproc n s =
     (let pt = p_pagetable (myproc s); sz = (ucast (p_sz (myproc s)) :: u32) in
      if n > 0 then
        rbind (uvmalloc pt (ucast sz) (ucast (sz + of_int n)) s) (\<lambda>(r, s).
        let sz = (ucast r :: u32) in
        if sz = 0 then Ok (-1, s) else Ok (0, update_myproc (\<lambda>p. p\<lparr>p_sz := ucast sz\<rparr>) s))
      else if n < 0 then
        rbind (uvmdealloc pt (ucast sz) (ucast (sz + of_int n)) s) (\<lambda>(r, s).
        Ok (0, update_myproc (\<lambda>p. p\<lparr>p_sz := ucast (ucast r :: u32)\<rparr>) s))
      else Ok (0, update_myproc (\<lambda>p. p\<lparr>p_sz := ucast sz\<rparr>) s))"

definition dup_file :: "nat \<Rightarrow> nat \<Rightarrow> nat \<Rightarrow> 'a file_st_scheme \<Rightarrow> 'a file_st_scheme res" where
  "dup_file p np i s =
     (case p_ofile (procs s p) i of
        None \<Rightarrow> Ok s
      | Some f \<Rightarrow> rbind (filedup f s) (\<lambda>(f, s). Ok (set_proc np (\<lambda>x. x\<lparr>p_ofile := (p_ofile x)(i := Some f)\<rparr>) s)))"

definition dup_files :: "nat \<Rightarrow> nat \<Rightarrow> 'a file_st_scheme \<Rightarrow> 'a file_st_scheme res" where
  "dup_files p np = foldR (dup_file p np) [0..<NOFILE]"

definition fork :: "'a proc_st_scheme \<Rightarrow> (int \<times> 'a proc_st_scheme) res" where
  "fork s =
     (let p = curproc s in
      rbind (allocproc s) (\<lambda>(r, s).
      case r of
        None \<Rightarrow> Ok (-1, s)
      | Some np \<Rightarrow>
          rbind (uvmcopy (p_pagetable (procs s p)) (p_pagetable (procs s np)) (p_sz (procs s p)) s) (\<lambda>(r, s).
          if r < 0 then rbind (freeproc np s) (\<lambda>s. Ok (-1, s))
          else
            let s = set_proc np (\<lambda>x. x\<lparr>p_sz := p_sz (procs s p),
                  p_trapframe := (p_trapframe (procs s p))\<lparr>tf_a := (tf_a (p_trapframe (procs s p)))(0 := 0)\<rparr>\<rparr>) s in
            rbind (dup_files p np s) (\<lambda>s.
            case p_cwd (procs s p) of
              None \<Rightarrow> Undef
            | Some c \<Rightarrow>
                let (c, s) = idup c s in
                Ok (p_pid (procs s np),
                    set_proc np (\<lambda>x. x\<lparr>p_cwd := Some c, p_name := safestrcpy (p_name x) 0 (p_name (procs s p)) 0 16,
                      p_parent := Some p, p_state := RUNNABLE\<rparr>) s)))))"

section \<open>Sleeping and waking\<close>

text \<open>
  \<open>wakeup\<close> leaves the process out that calls it; in an interrupt that arrives while the
  scheduler runs there is none.
\<close>

definition wakeup_by :: "nat option \<Rightarrow> chan \<Rightarrow> 'a kmach_scheme \<Rightarrow> 'a kmach_scheme" where
  "wakeup_by self ch s =
     s\<lparr>procs := (\<lambda>i. if i < NPROC \<and> self \<noteq> Some i \<and> p_state (procs s i) = SLEEPING \<and> p_chan (procs s i) = ch
                      then (procs s i)\<lparr>p_state := RUNNABLE\<rparr> else procs s i)\<rparr>"

definition wakeup :: "chan \<Rightarrow> 'a kmach_scheme \<Rightarrow> 'a kmach_scheme" where
  "wakeup ch s = wakeup_by (Some (curproc s)) ch s"

definition proc_chan :: "nat option \<Rightarrow> chan" where
  "proc_chan p = (case p of None \<Rightarrow> No_chan | Some i \<Rightarrow> Proc_chan i)"

definition sleep :: "chan \<Rightarrow> 'a kmach_scheme \<Rightarrow> 'a kmach_scheme" where
  "sleep ch s = update_myproc (\<lambda>p. p\<lparr>p_chan := ch, p_state := SLEEPING\<rparr>) s"

definition sleep_end :: "'a kmach_scheme \<Rightarrow> 'a kmach_scheme" where
  "sleep_end s = update_myproc (\<lambda>p. p\<lparr>p_chan := No_chan\<rparr>) s"

definition yield :: "'a kmach_scheme \<Rightarrow> 'a kmach_scheme" where
  "yield s = update_myproc (\<lambda>p. p\<lparr>p_state := RUNNABLE\<rparr>) s"

definition kill :: "int \<Rightarrow> 'a kmach_scheme \<Rightarrow> int \<times> 'a kmach_scheme" where
  "kill pid s =
     (case find (\<lambda>p. p_pid (procs s p) = pid) [0..<NPROC] of
        None \<Rightarrow> (-1, s)
      | Some p \<Rightarrow>
          (0, set_proc p (\<lambda>x. x\<lparr>p_killed := True,
                p_state := (if p_state x = SLEEPING then RUNNABLE else p_state x)\<rparr>) s))"

section \<open>Ending a process\<close>

definition reparent_one :: "nat \<Rightarrow> nat \<Rightarrow> 'a proc_st_scheme \<Rightarrow> 'a proc_st_scheme" where
  "reparent_one p pp s =
     (if p_parent (procs s pp) = Some p
      then wakeup (proc_chan (initproc s)) (set_proc pp (\<lambda>x. x\<lparr>p_parent := initproc s\<rparr>) s)
      else s)"

definition reparent :: "nat \<Rightarrow> 'a proc_st_scheme \<Rightarrow> 'a proc_st_scheme" where
  "reparent p s = fold (reparent_one p) [0..<NPROC] s"

definition close_file :: "nat \<Rightarrow> 'a file_st_scheme \<Rightarrow> 'a file_st_scheme res" where
  "close_file fd s =
     (case p_ofile (myproc s) fd of
        None \<Rightarrow> Ok s
      | Some f \<Rightarrow> rbind (fileclose f s) (\<lambda>s. Ok (set_ofile fd None s)))"

definition close_files :: "'a file_st_scheme \<Rightarrow> 'a file_st_scheme res" where
  "close_files = foldR close_file [0..<NOFILE]"

definition exit :: "int \<Rightarrow> 'a proc_st_scheme \<Rightarrow> 'a proc_st_scheme res" where
  "exit status s =
     (if initproc s = Some (curproc s) then Panic ''init exiting''
      else
        rbind (close_files s) (\<lambda>s.
        rbind (begin_op s) (\<lambda>s.
        rbind (case p_cwd (myproc s) of None \<Rightarrow> Undef | Some ip \<Rightarrow> iput ip s) (\<lambda>s.
        rbind (end_op s) (\<lambda>s.
        let s = update_myproc (\<lambda>p. p\<lparr>p_cwd := None\<rparr>) s;
            s = reparent (curproc s) s;
            s = wakeup (proc_chan (p_parent (myproc s))) s in
        Ok (update_myproc (\<lambda>p. p\<lparr>p_xstate := status, p_state := ZOMBIE\<rparr>) s))))))"

text \<open>
  One scan of \<open>wait\<close>: either the call is over with a result, or the caller goes to sleep
  until a child wakes it (the loop then starts again with \<open>sleep_end\<close>).
\<close>

datatype waiting = Done int | Sleeps

definition wait :: "u64 \<Rightarrow> 'a kmach_scheme \<Rightarrow> (waiting \<times> 'a kmach_scheme) res" where
  "wait addr s =
     (let p = curproc s; child = (\<lambda>np. p_parent (procs s np) = Some p) in
      case find (\<lambda>np. child np \<and> p_state (procs s np) = ZOMBIE) [0..<NPROC] of
        Some np \<Rightarrow>
          let pid = p_pid (procs s np);
              (r, s) = (if addr \<noteq> 0 then copyout (p_pagetable (myproc s)) addr (int_bytes (p_xstate (procs s np))) s else (0, s)) in
          if r < 0 then Ok (Done (-1), s)
          else rbind (freeproc np s) (\<lambda>s. Ok (Done pid, s))
      | None \<Rightarrow>
          if (\<forall>np\<in>set [0..<NPROC]. \<not> child np) \<or> p_killed (myproc s) then Ok (Done (-1), s)
          else Ok (Sleeps, sleep (Proc_chan p) s))"

section \<open>Scheduling\<close>

text \<open>The checks of \<open>sched\<close> on the state of the process; it holds its lock and no other.\<close>

definition sched :: "'a kmach_scheme \<Rightarrow> 'a kmach_scheme res" where
  "sched s = (if p_state (myproc s) = RUNNING then Panic ''sched running'' else Ok s)"

definition dispatch :: "nat \<Rightarrow> 'a kmach_scheme \<Rightarrow> 'a kmach_scheme" where
  "dispatch p s = set_proc p (\<lambda>x. x\<lparr>p_state := RUNNING\<rparr>) (s\<lparr>curproc := p\<rparr>)"

definition forkret :: "'a proc_st_scheme \<Rightarrow> 'a proc_st_scheme res" where
  "forkret s = (if first_run s then fsinit ROOTDEV (s\<lparr>first_run := False\<rparr>) else Ok s)"

definition proc_num :: "'a kmach_scheme \<Rightarrow> nat" where
  "proc_num s = length (filter (\<lambda>p. p_state (procs s p) \<noteq> UNUSED) [0..<NPROC])"

definition clockintr :: "nat option \<Rightarrow> 'a proc_st_scheme \<Rightarrow> 'a proc_st_scheme" where
  "clockintr self s = wakeup_by self Ticks_chan (s\<lparr>ticks := ticks s + 1\<rparr>)"

end
