(* ===== verification/Frames.thy ===== *)
theory Frames
  imports Sysfile
begin

text \<open>
  Which parts of the state the operations of a layer can change, whatever state they start in.

  \<open>file_only s t\<close>: from \<open>s\<close> to \<open>t\<close> only physical memory, the free page list and the state of the
  file system (disk, cache, log, superblock, inode table, open files, pipes, console) changed;
  the process table and everything above did not.  \<open>ensures\<close> states a property of the result of a
  call that returns; the rules in \<open>keeps\<close> go through the code call by call.
\<close>

section \<open>Results that return\<close>

definition ensures :: "('a \<Rightarrow> bool) \<Rightarrow> 'a res \<Rightarrow> bool" where
  "ensures Q r \<longleftrightarrow> (\<forall>x. r = Ok x \<longrightarrow> Q x)"

named_theorems keeps \<open>operations that keep the process table\<close>

lemma ensures_simps [simp]:
  "ensures Q (Ok x) \<longleftrightarrow> Q x" "ensures Q (Panic m)" "ensures Q Hang" "ensures Q Undef"
  by (simp_all add: ensures_def)

lemma ensures_rbind:
  "ensures P r \<Longrightarrow> (\<And>x. P x \<Longrightarrow> ensures Q (f x)) \<Longrightarrow> ensures Q (rbind r f)"
  by (auto simp: ensures_def)

text \<open>Sequencing, by whether the two calls return a value beside the state.\<close>

lemma ensures_seq:
  "ensures P u \<Longrightarrow> (\<And>t. P t \<Longrightarrow> ensures P (f1 t)) \<Longrightarrow> ensures P (rbind u f1)"
  "ensures (\<lambda>x. P (snd x)) v \<Longrightarrow> (\<And>a t. P t \<Longrightarrow> ensures P (f2 (a, t))) \<Longrightarrow> ensures P (rbind v f2)"
  "ensures (\<lambda>x. P (snd (snd x))) w \<Longrightarrow> (\<And>a b t. P t \<Longrightarrow> ensures P (f3 (a, b, t))) \<Longrightarrow> ensures P (rbind w f3)"
  "ensures P u \<Longrightarrow> (\<And>t. P t \<Longrightarrow> ensures (\<lambda>x. P (snd x)) (g1 t)) \<Longrightarrow> ensures (\<lambda>x. P (snd x)) (rbind u g1)"
  "ensures (\<lambda>x. P (snd x)) v \<Longrightarrow> (\<And>a t. P t \<Longrightarrow> ensures (\<lambda>x. P (snd x)) (g2 (a, t))) \<Longrightarrow>
   ensures (\<lambda>x. P (snd x)) (rbind v g2)"
  "ensures (\<lambda>x. P (snd (snd x))) w \<Longrightarrow> (\<And>a b t. P t \<Longrightarrow> ensures (\<lambda>x. P (snd x)) (g3 (a, b, t))) \<Longrightarrow>
   ensures (\<lambda>x. P (snd x)) (rbind w g3)"
  "ensures P u \<Longrightarrow> (\<And>t. P t \<Longrightarrow> ensures (\<lambda>x. P (snd (snd x))) (h1 t)) \<Longrightarrow> ensures (\<lambda>x. P (snd (snd x))) (rbind u h1)"
  "ensures (\<lambda>x. P (snd x)) v \<Longrightarrow> (\<And>a t. P t \<Longrightarrow> ensures (\<lambda>x. P (snd (snd x))) (h2 (a, t))) \<Longrightarrow>
   ensures (\<lambda>x. P (snd (snd x))) (rbind v h2)"
  "ensures (\<lambda>x. P (snd (snd x))) w \<Longrightarrow> (\<And>a b t. P t \<Longrightarrow> ensures (\<lambda>x. P (snd (snd x))) (h3 (a, b, t))) \<Longrightarrow>
   ensures (\<lambda>x. P (snd (snd x))) (rbind w h3)"
  by (auto simp: ensures_def)

text \<open>A test without effect.\<close>

lemma ensures_test: "(\<And>x. ensures Q (f x)) \<Longrightarrow> ensures Q (rbind u f)"
  by (auto simp: ensures_def)

lemma ensures_foldR:
  "P s \<Longrightarrow> (\<And>x s. P s \<Longrightarrow> ensures P (f x s)) \<Longrightarrow> ensures P (foldR f xs s)"
proof (induction xs arbitrary: s)
  case Nil
  then show ?case by simp
next
  case (Cons x xs)
  show ?case unfolding foldR.simps by (rule ensures_rbind[OF Cons.prems(2)[OF Cons.prems(1)]]) (rule Cons.IH[OF _ Cons.prems(2)])
qed

lemma ensures_rbindI: "(\<And>x. r = Ok x \<Longrightarrow> ensures Q (f x)) \<Longrightarrow> ensures Q (rbind r f)"
  by (auto simp: ensures_def)

lemma ensuresD: "ensures Q r \<Longrightarrow> r = Ok x \<Longrightarrow> Q x"
  by (simp add: ensures_def)

section \<open>The part of the state below the process table\<close>

definition mem_only :: "'a kmach_scheme \<Rightarrow> 'a kmach_scheme \<Rightarrow> bool" where
  "mem_only s t \<longleftrightarrow> kernel_end t = kernel_end s \<and> procs t = procs s \<and> curproc t = curproc s \<and> kmach.more t = kmach.more s"

definition bio_only :: "'a bio_st_scheme \<Rightarrow> 'a bio_st_scheme \<Rightarrow> bool" where
  "bio_only s t \<longleftrightarrow> kernel_end t = kernel_end s \<and> procs t = procs s \<and> curproc t = curproc s \<and> bio_st.more t = bio_st.more s"

definition log_only :: "'a log_st_scheme \<Rightarrow> 'a log_st_scheme \<Rightarrow> bool" where
  "log_only s t \<longleftrightarrow> kernel_end t = kernel_end s \<and> procs t = procs s \<and> curproc t = curproc s \<and> log_st.more t = log_st.more s"

definition fs_only :: "'a fs_st_scheme \<Rightarrow> 'a fs_st_scheme \<Rightarrow> bool" where
  "fs_only s t \<longleftrightarrow> kernel_end t = kernel_end s \<and> procs t = procs s \<and> curproc t = curproc s \<and> fs_st.more t = fs_st.more s"

definition file_only :: "'a file_st_scheme \<Rightarrow> 'a file_st_scheme \<Rightarrow> bool" where
  "file_only s t \<longleftrightarrow> kernel_end t = kernel_end s \<and> procs t = procs s \<and> curproc t = curproc s \<and> file_st.more t = file_st.more s"

lemmas only_defs = mem_only_def bio_only_def log_only_def fs_only_def file_only_def

lemma mem_bio_only: "mem_only s t \<Longrightarrow> bio_only s t"
  by (cases s, cases t) (simp add: only_defs)

lemma bio_log_only: "bio_only s t \<Longrightarrow> log_only s t"
  by (cases s, cases t) (simp add: only_defs)

lemma log_fs_only: "log_only s t \<Longrightarrow> fs_only s t"
  by (cases s, cases t) (simp add: only_defs)

lemma fs_file_only: "fs_only s t \<Longrightarrow> file_only s t"
  by (cases s, cases t) (simp add: only_defs)

lemma only_refl [simp]: "mem_only k k" "bio_only b b" "log_only l l" "fs_only f f" "file_only g g"
  by (simp_all add: only_defs)

lemma only_trans:
  "mem_only k k' \<Longrightarrow> mem_only k' k'' \<Longrightarrow> mem_only k k''"
  "bio_only b b' \<Longrightarrow> bio_only b' b'' \<Longrightarrow> bio_only b b''"
  "log_only l l' \<Longrightarrow> log_only l' l'' \<Longrightarrow> log_only l l''"
  "fs_only f f' \<Longrightarrow> fs_only f' f'' \<Longrightarrow> fs_only f f''"
  "file_only g g' \<Longrightarrow> file_only g' g'' \<Longrightarrow> file_only g g''"
  by (simp_all add: only_defs)

text \<open>Loops.\<close>

lemma foldR_only:
  assumes "foldR f xs s = Ok t" "\<And>x s t. f x s = Ok t \<Longrightarrow> P s t" "\<And>s. P s s" "\<And>s t u. P s t \<Longrightarrow> P t u \<Longrightarrow> P s u"
  shows "P s t"
  using assms(1)
proof (induction xs arbitrary: s)
  case Nil
  then show ?case using assms(3) by simp
next
  case (Cons x xs)
  then obtain u where "f x s = Ok u" "foldR f xs u = Ok t" by auto
  then show ?case using assms(2,4) Cons.IH by blast
qed

section \<open>Memory\<close>

declare mappages_loop.simps [simp del] uvmalloc_loop.simps [simp del] uvmcopy_loop.simps [simp del] freewalk.simps [simp del]

lemma kalloc_only: "kalloc s = (r, t) \<Longrightarrow> mem_only s t"
  by (auto simp: kalloc_def Let_def mem_only_def split: if_splits)

lemma kfree_only: "kfree pa s = Ok t \<Longrightarrow> mem_only s t"
  by (auto simp: kfree_def Let_def mem_only_def split: if_splits)

lemma mem_update_only: "mem_only s (write_pte a v s)" "mem_only s (zero_page pg s)" "mem_only s (copy_page d c s)"
  "mem_only s (copy_bytes n xs s)"
  by (simp_all add: mem_only_def write_pte_def zero_page_def copy_page_def copy_bytes_def)

lemma walk_level_only: "walk_level l pt va alloc s = (r, t) \<Longrightarrow> mem_only s t"
proof (induction l arbitrary: pt s)
  case 0
  then show ?case by simp
next
  case (Suc l)
  show ?case
  proof (cases "read_pte (pte_addr pt (Suc l) va) s AND PTE_V \<noteq> 0 \<or> \<not> alloc")
    case True
    then show ?thesis using Suc by (auto simp: Let_def split: if_splits)
  next
    case False
    obtain pg u where k: "kalloc s = (pg, u)" by fastforce
    note ku = kalloc_only[OF k]
    show ?thesis
      using Suc.prems False k ku Suc.IH[of pg "write_pte (pte_addr pt (Suc l) va) (PA2PTE pg OR PTE_V) (zero_page pg u)"]
      by (auto simp: Let_def mem_only_def write_pte_def zero_page_def split: if_splits)
  qed
qed

lemma walk_only: "walk pt va alloc s = Ok (r, t) \<Longrightarrow> mem_only s t"
  by (auto simp: walk_def split: if_splits dest: walk_level_only)

lemma mappages_loop_only: "mappages_loop pt a l pa perm fuel s = Ok (r, t) \<Longrightarrow> mem_only s t"
proof (induction fuel arbitrary: a pa s)
  case (0 a pa s)
  then obtain p u where w: "walk pt a True s = Ok (p, u)" by (subst (asm) mappages_loop.simps) auto
  show ?case using 0 walk_only[OF w]
    by (cases p) (auto simp: mappages_loop.simps[of pt a] w Let_def split: if_splits intro: only_trans mem_update_only)
next
  case (Suc n a pa s)
  then obtain p u where w: "walk pt a True s = Ok (p, u)" by (subst (asm) mappages_loop.simps) auto
  note U = only_trans(1)[OF walk_only[OF w] mem_update_only(1)]
  show ?case using Suc.prems walk_only[OF w] U
    by (cases p) (auto simp: mappages_loop.simps[of pt a] w Let_def split: if_splits dest!: Suc.IH intro: only_trans(1)[OF U])
qed

lemma mappages_only: "mappages pt va sz pa perm s = Ok (r, t) \<Longrightarrow> mem_only s t"
  by (auto simp: mappages_def split: if_splits dest: mappages_loop_only)

lemmas mem_seq [keeps] = ensures_seq[where P = "mem_only r"] for r

lemma kalloc_snd: "mem_only s (snd (kalloc s))"
  by (cases "kalloc s") (simp add: kalloc_only)

lemma mem_keeps [keeps]:
  "mem_only r s \<Longrightarrow> ensures (\<lambda>x. mem_only r (snd x)) (walk pt va alloc s)"
  "mem_only r s \<Longrightarrow> ensures (\<lambda>x. mem_only r (snd x)) (mappages pt va sz pa perm s)"
  "mem_only r s \<Longrightarrow> ensures (mem_only r) (kfree p s)"
  "mem_only r s \<Longrightarrow> mem_only r (snd (kalloc s))"
  "mem_only r s \<Longrightarrow> mem_only r (write_pte a v s)" "mem_only r s \<Longrightarrow> mem_only r (zero_page pg s)"
  "mem_only r s \<Longrightarrow> mem_only r (copy_page d c s)" "mem_only r s \<Longrightarrow> mem_only r (copy_bytes n xs s)"
  by (auto simp: ensures_def intro: only_trans(1) walk_only mappages_only kfree_only kalloc_snd mem_update_only)

lemma unmap_page_keeps [keeps]: "mem_only r s \<Longrightarrow> ensures (mem_only r) (unmap_page pt f a s)"
  unfolding unmap_page_def Let_def by (auto intro!: keeps split: option.split)

lemma uvmunmap_keeps [keeps]: "mem_only r s \<Longrightarrow> ensures (mem_only r) (uvmunmap pt va n f s)"
  unfolding uvmunmap_def by (auto intro!: keeps ensures_foldR)

lemma uvmcreate_keeps [keeps]: "mem_only r s \<Longrightarrow> mem_only r (snd (uvmcreate s))"
  unfolding uvmcreate_def by (auto simp: split_beta intro!: keeps)

lemma uvmdealloc_keeps [keeps]: "mem_only r s \<Longrightarrow> ensures (\<lambda>x. mem_only r (snd x)) (uvmdealloc pt olds news s)"
  unfolding uvmdealloc_def Let_def by (auto intro!: keeps)

lemma uvmalloc_loop_keeps [keeps]: "mem_only r s \<Longrightarrow> ensures (\<lambda>x. mem_only r (snd x)) (uvmalloc_loop pt olds news a e s)"
proof (induction "e - a" arbitrary: a s rule: less_induct)
  case less
  have "a < e \<Longrightarrow> e - (a + PGSIZE) < e - a" by (simp add: PGSIZE_def)
  then show ?case
    by (subst uvmalloc_loop.simps) (use less in \<open>auto simp: Let_def split_beta intro!: keeps\<close>)
qed

lemma uvmalloc_keeps [keeps]: "mem_only r s \<Longrightarrow> ensures (\<lambda>x. mem_only r (snd x)) (uvmalloc pt olds news s)"
  unfolding uvmalloc_def Let_def by (auto intro!: keeps)

lemma freewalk_keeps [keeps]: "mem_only r s \<Longrightarrow> ensures (mem_only r) (freewalk l pt s)"
proof (induction l arbitrary: pt s)
  case 0
  then show ?case by (simp add: freewalk.simps)
next
  case (Suc l)
  then show ?case by (auto simp: freewalk.simps Let_def intro!: keeps ensures_foldR)
qed

lemma uvmfree_keeps [keeps]: "mem_only r s \<Longrightarrow> ensures (mem_only r) (uvmfree pt sz s)"
  unfolding uvmfree_def by (auto intro!: keeps)

lemma uvmcopy_loop_keeps [keeps]: "mem_only r s \<Longrightarrow> ensures (\<lambda>x. mem_only r (snd x)) (uvmcopy_loop old new sz i s)"
proof (induction "sz - i" arbitrary: i s rule: less_induct)
  case less
  have "i < sz \<Longrightarrow> sz - (i + PGSIZE) < sz - i" by (simp add: PGSIZE_def)
  then show ?case
    by (subst uvmcopy_loop.simps) (use less in \<open>auto simp: Let_def split_beta intro!: keeps split: option.split\<close>)
qed

lemma uvmcopy_keeps [keeps]: "mem_only r s \<Longrightarrow> ensures (\<lambda>x. mem_only r (snd x)) (uvmcopy old new sz s)"
  unfolding uvmcopy_def by (auto intro!: keeps)

lemma mem_upd_keeps [keeps]: "mem_only r s \<Longrightarrow> mem_only r (s\<lparr>mem := m\<rparr>)"
  by (simp add: mem_only_def)

lemma uvminit_keeps [keeps]: "mem_only r s \<Longrightarrow> ensures (mem_only r) (uvminit pt src sz s)"
  unfolding uvminit_def Let_def by (auto simp: split_beta intro!: keeps)

lemma uvmclear_keeps [keeps]: "mem_only r s \<Longrightarrow> ensures (mem_only r) (uvmclear pt va s)"
  unfolding uvmclear_def by (auto intro!: keeps split: option.split)

lemma kvmmap_keeps [keeps]: "mem_only r s \<Longrightarrow> ensures (mem_only r) (kvmmap pt va pa sz perm s)"
  unfolding kvmmap_def by (auto intro!: keeps)

lemma copyout_keeps [keeps]: "mem_only r s \<Longrightarrow> mem_only r (snd (copyout pt va xs s))"
proof (induction pt va xs s rule: copyout.induct)
  case (1 pt va xs s)
  then show ?case by (subst copyout.simps) (auto simp: Let_def intro!: keeps)
qed

section \<open>The file system\<close>

lemmas fs_seq [keeps] = ensures_seq[where P = "fs_only r"] for r

lemma fs_upd_keeps [keeps]:
  "fs_only r s \<Longrightarrow> fs_only r (set_inode i f s)" "fs_only r s \<Longrightarrow> fs_only r (set_addr i k v s)"
  "fs_only r s \<Longrightarrow> fs_only r (s\<lparr>sb := x\<rparr>)" "fs_only r s \<Longrightarrow> fs_only r (set_lg g s)"
  "fs_only r s \<Longrightarrow> fs_only r (set_bdata b d s)" "fs_only r s \<Longrightarrow> fs_only r (bpin b s)" "fs_only r s \<Longrightarrow> fs_only r (bunpin b s)"
  by (simp_all add: fs_only_def set_inode_def set_addr_def set_lg_def set_bdata_def set_buf_def bpin_def bunpin_def)

lemma bread_keeps [keeps]: "fs_only r s \<Longrightarrow> ensures (\<lambda>x. fs_only r (snd x)) (bread dev b s)"
proof -
  assume r: "fs_only r s"
  have "fs_only r t" if "bread dev b s = Ok (i, t)" for i t
    by (subst bread_frame[OF that]) (use r in \<open>simp add: fs_only_def\<close>)
  then show ?thesis by (auto simp: ensures_def)
qed

lemma brelse_keeps [keeps]: "fs_only r s \<Longrightarrow> ensures (fs_only r) (brelse b s)"
proof -
  assume r: "fs_only r s"
  have "fs_only r t" if "brelse b s = Ok t" for t
    by (subst brelse_frame[OF that]) (use r in \<open>simp add: fs_only_def\<close>)
  then show ?thesis by (auto simp: ensures_def)
qed

lemma bwrite_keeps [keeps]: "fs_only r s \<Longrightarrow> ensures (fs_only r) (bwrite b s)"
  by (simp add: bwrite_def virtio_disk_rw_def Let_def fs_only_def)

lemma log_write_keeps [keeps]: "fs_only r s \<Longrightarrow> ensures (fs_only r) (log_write b s)"
  unfolding log_write_def Let_def by (auto intro!: keeps)

lemma bpeek_keeps [keeps]: "fs_only r s \<Longrightarrow> ensures (\<lambda>x. fs_only r (snd x)) (bpeek dev b f s)"
  unfolding bpeek_def Let_def by (auto intro!: keeps)

lemma bupdate_keeps [keeps]: "fs_only r s \<Longrightarrow> ensures (fs_only r) (bupdate dev b f s)"
  unfolding bupdate_def by (auto intro!: keeps)

subsection \<open>The log\<close>

lemma begin_op_keeps [keeps]: "fs_only r s \<Longrightarrow> ensures (fs_only r) (begin_op s)"
  unfolding begin_op_def by (auto intro!: keeps)

lemma write_head_keeps [keeps]: "fs_only r s \<Longrightarrow> ensures (fs_only r) (write_head s)"
  unfolding write_head_def Let_def by (auto intro!: keeps)

lemma read_head_keeps [keeps]: "fs_only r s \<Longrightarrow> ensures (fs_only r) (read_head s)"
  unfolding read_head_def Let_def by (auto intro!: keeps)

lemma install_block_keeps [keeps]: "fs_only r s \<Longrightarrow> ensures (fs_only r) (install_block v n s)"
  unfolding install_block_def by (auto intro!: keeps)

lemma write_log_block_keeps [keeps]: "fs_only r s \<Longrightarrow> ensures (fs_only r) (write_log_block n s)"
  unfolding write_log_block_def by (auto intro!: keeps)

lemma install_trans_keeps [keeps]: "fs_only r s \<Longrightarrow> ensures (fs_only r) (install_trans v s)"
  unfolding install_trans_def by (auto intro!: keeps ensures_foldR)

lemma write_log_keeps [keeps]: "fs_only r s \<Longrightarrow> ensures (fs_only r) (write_log s)"
  unfolding write_log_def by (auto intro!: keeps ensures_foldR)

lemma commit_keeps [keeps]: "fs_only r s \<Longrightarrow> ensures (fs_only r) (commit s)"
  unfolding commit_def by (auto intro!: keeps)

lemma end_op_keeps [keeps]: "fs_only r s \<Longrightarrow> ensures (fs_only r) (end_op s)"
  unfolding end_op_def Let_def by (auto intro!: keeps)

lemma fsinit_keeps [keeps]: "fs_only r s \<Longrightarrow> ensures (fs_only r) (fsinit dev s)"
  unfolding fsinit_def readsb_def initlog_def recover_from_log_def by (auto intro!: keeps)

subsection \<open>Allocation\<close>

lemma updatesb_keeps [keeps]: "fs_only r s \<Longrightarrow> ensures (fs_only r) (updatesb dev s)"
  unfolding updatesb_def by (auto intro!: keeps)

lemma find_free_keeps [keeps]: "fs_only r s \<Longrightarrow> ensures (\<lambda>x. fs_only r (snd x)) (find_free lim blk dev b s)"
proof (induction lim blk dev b s rule: find_free.induct)
  case (1 lim blk dev b s)
  show ?case
  proof (cases "b < unat (lim (sb s))")
    case False
    then show ?thesis using 1(2) by (subst find_free.simps) simp
  next
    case True
    have "ensures (\<lambda>x. fs_only r (snd x)) (case scan_bits (bdata bp t) b (unat (lim (sb t))) 0 of
          Some bi \<Rightarrow> Ok (Some (bp, b + bi), t)
        | None \<Rightarrow> rbind (brelse bp t) (find_free lim blk dev (b + BPB)))"
      if rd: "bread dev (blk (of_nat b) (sb s)) s = Ok (bp, t)" for bp t
    proof -
      have t: "fs_only r t" using ensuresD[OF bread_keeps[OF 1(2)] rd] by simp
      show ?thesis
        using t 1(1)[OF True rd refl] ensuresD[OF brelse_keeps[OF t]] by (auto split: option.split intro!: ensures_rbindI)
    qed
    then show ?thesis using True by (subst find_free.simps) (auto intro!: ensures_rbindI)
  qed
qed

lemma take_free_keeps [keeps]: "fs_only r s \<Longrightarrow> ensures (\<lambda>x. fs_only r (snd x)) (take_free lim blk upd dev s)"
  unfolding take_free_def by (auto intro!: keeps split: option.split)

lemma give_back_keeps [keeps]: "fs_only r s \<Longrightarrow> ensures (fs_only r) (give_back blk upd msg dev b s)"
  unfolding give_back_def by (auto intro!: keeps)

lemma alloc_keeps [keeps]:
  "fs_only r s \<Longrightarrow> ensures (\<lambda>x. fs_only r (snd x)) (balloc dev s)"
  "fs_only r s \<Longrightarrow> ensures (\<lambda>x. fs_only r (snd x)) (searchibmap dev s)"
  "fs_only r s \<Longrightarrow> ensures (fs_only r) (bfree dev b s)" "fs_only r s \<Longrightarrow> ensures (fs_only r) (ifree dev i s)"
  unfolding balloc_def searchibmap_def bfree_def ifree_def bzero_def by (auto intro!: keeps split: option.split)

subsection \<open>Inodes\<close>

declare ilock.simps [simp del] iunlock.simps [simp del] readi_loop.simps [simp del] writei_loop.simps [simp del]
  free_below.simps [simp del] free_extents.simps [simp del] extent_scan.simps [simp del]

lemma iget_keeps [keeps]: "fs_only r s \<Longrightarrow> ensures (\<lambda>x. fs_only r (snd x)) (iget dev inum s)"
  unfolding iget_def by (auto intro!: keeps split: option.split sum.split)

lemma idup_keeps [keeps]: "fs_only r s \<Longrightarrow> fs_only r (snd (idup i s))"
  unfolding idup_def by (auto intro!: keeps)

lemma iupdate_keeps [keeps]: "fs_only r s \<Longrightarrow> ensures (fs_only r) (iupdate i s)"
  unfolding iupdate_def Let_def by (auto intro!: keeps)

lemma lock_inode_keeps [keeps]: "fs_only r s \<Longrightarrow> ensures (fs_only r) (lock_inode i s)"
  unfolding lock_inode_def by (rule ensures_test) (auto intro!: keeps)

lemma ilock_keeps [keeps]: "fs_only r s \<Longrightarrow> ensures (fs_only r) (ilock i s)"
  by (cases i) (auto simp: ilock.simps load_inode_def Let_def intro!: keeps)

lemma iunlock_keeps [keeps]: "fs_only r s \<Longrightarrow> ensures (fs_only r) (iunlock i s)"
  by (cases i) (auto simp: iunlock.simps intro!: keeps)

lemma bmap_keeps [keeps]: "fs_only r s \<Longrightarrow> ensures (\<lambda>x. fs_only r (snd x)) (bmap i bn s)"
proof -
  assume r: "fs_only r s"
  have a: "ensures (\<lambda>x. fs_only r (snd x)) (addr_entry i k t)" if "fs_only r t" for k t
    using that unfolding addr_entry_def Let_def by (auto intro!: keeps)
  have b: "ensures (\<lambda>x. fs_only r (snd x)) (block_entry dev b k t)" if "fs_only r t" for dev b k t
    using that unfolding block_entry_def Let_def by (auto intro!: keeps)
  have "ensures (\<lambda>x. fs_only r (snd x)) (bmap_extent i bn s)"
    unfolding bmap_extent_def by (rule ensures_test) (use r in \<open>auto intro!: keeps split: sum.split simp: Let_def\<close>)
  moreover have "ensures (\<lambda>x. fs_only r (snd x)) (bmap_tree i bn s)"
    using r unfolding bmap_tree_def Let_def by (auto intro!: keeps a b)
  ultimately show ?thesis by (simp add: bmap_def)
qed

lemma free_below_keeps [keeps]: "fs_only r s \<Longrightarrow> ensures (fs_only r) (free_below l dev b s)"
proof (induction l arbitrary: b s)
  case 0
  then show ?case by (auto simp: free_below.simps[of 0] Let_def intro!: keeps ensures_foldR)
next
  case (Suc l)
  then show ?case by (auto simp: free_below.simps[of "Suc l"] Let_def intro!: keeps ensures_foldR)
qed

lemma free_extents_keeps [keeps]: "fs_only r s \<Longrightarrow> ensures (fs_only r) (free_extents i k s)"
proof (induction "NDIRECT + 3 - k" arbitrary: k s rule: less_induct)
  case less
  have "ensures (fs_only r) (free_extents i (Suc k) t)" if "k < NDIRECT + 3" "fs_only r t" for t
    using that by (intro less(1)) auto
  note IH = this
  show ?case using less(2) by (subst free_extents.simps) (auto simp: Let_def intro!: keeps ensures_foldR IH)
qed

lemma itrunc_keeps [keeps]: "fs_only r s \<Longrightarrow> ensures (fs_only r) (itrunc i s)"
  unfolding itrunc_def free_direct_def free_indirect_def by (auto intro!: keeps ensures_foldR)

lemma iput_keeps [keeps]: "fs_only r s \<Longrightarrow> ensures (fs_only r) (iput i s)"
  unfolding iput_def Let_def by (auto intro!: keeps)

lemma iunlockput_keeps [keeps]: "fs_only r s \<Longrightarrow> ensures (fs_only r) (iunlockput i s)"
  unfolding iunlockput_def by (auto intro!: keeps)

lemma mem_fs_only: "mem_only s t \<Longrightarrow> fs_only s t"
  by (intro log_fs_only bio_log_only mem_bio_only)

lemma copyout_fs_keeps [keeps]: "fs_only r s \<Longrightarrow> fs_only r (snd (copyout pt va xs s))"
  using copyout_keeps[OF only_refl(1)] by (blast intro: mem_fs_only only_trans)

lemma copy_bytes_fs_keeps [keeps]: "fs_only r s \<Longrightarrow> fs_only r (copy_bytes n xs s)"
  using mem_update_only(4) by (blast intro: mem_fs_only only_trans)

lemma either_copyout_keeps [keeps]: "fs_only r s \<Longrightarrow> fs_only r (snd (snd (either_copyout dst xs kb s)))"
  by (cases dst) (auto simp: split_beta intro!: keeps)

lemma readi_loop_keeps [keeps]: "fs_only r s \<Longrightarrow> ensures (\<lambda>x. fs_only r (snd (snd x))) (readi_loop ip dst kb off n tot s)"
proof (induction "n - tot" arbitrary: dst kb off tot s rule: less_induct)
  case less
  have "tot < n \<Longrightarrow> n - (tot + min (n - tot) (BSIZE - off mod BSIZE)) < n - tot" by (auto simp: BSIZE_def min_def)
  then show ?case by (subst readi_loop.simps) (use less in \<open>auto simp: Let_def split_beta intro!: keeps\<close>)
qed

lemma readi_keeps [keeps]: "fs_only r s \<Longrightarrow> ensures (\<lambda>x. fs_only r (snd (snd x))) (readi ip dst kb off n s)"
  unfolding readi_def Let_def by (auto intro!: keeps)

lemma writei_loop_keeps [keeps]: "fs_only r s \<Longrightarrow> ensures (\<lambda>x. fs_only r (snd (snd x))) (writei_loop ip src kb off n tot s)"
proof (induction "n - tot" arbitrary: src kb off tot s rule: less_induct)
  case less
  have "tot < n \<Longrightarrow> n - (tot + min (n - tot) (BSIZE - off mod BSIZE)) < n - tot" by (auto simp: BSIZE_def min_def)
  then show ?case by (subst writei_loop.simps) (use less in \<open>auto simp: Let_def split_beta intro!: keeps\<close>)
qed

lemma writei_keeps [keeps]: "fs_only r s \<Longrightarrow> ensures (\<lambda>x. fs_only r (snd x)) (writei ip src kb off n s)"
  unfolding writei_def Let_def by (auto intro!: keeps)

subsection \<open>Directories and paths\<close>

declare alloc_direct.simps [simp del] alloc_indirect.simps [simp del] search_area.simps [simp del] dot_loop.simps [simp del]
  namex_loop.simps [simp del]

lemma check_log_full_keeps [keeps]: "fs_only r s \<Longrightarrow> ensures (fs_only r) (check_log_full s)"
  unfolding check_log_full_def by (auto intro!: keeps)

lemma alloc_direct_keeps [keeps]: "fs_only r s \<Longrightarrow> ensures (\<lambda>x. fs_only r (snd x)) (alloc_direct ip b e s)"
proof (induction "Suc e - b" arbitrary: b s rule: less_induct)
  case less
  have IH: "ensures (\<lambda>x. fs_only r (snd x)) (alloc_direct ip (Suc b) e t)" if "b \<le> e" "fs_only r t" for t
    using that by (intro less(1)) auto
  show ?case using less(2) by (subst alloc_direct.simps) (auto intro!: keeps IH)
qed

lemma alloc_indirect_keeps [keeps]: "fs_only r s \<Longrightarrow> ensures (\<lambda>x. fs_only r (snd x)) (alloc_indirect ip a b e pb s)"
proof (induction "Suc e - b" arbitrary: b pb s rule: less_induct)
  case less
  have IH: "ensures (\<lambda>x. fs_only r (snd x)) (alloc_indirect ip a (Suc b) e pb t)" if "b \<le> e" "fs_only r t" for pb t
    using that by (intro less(1)) auto
  show ?case using less(2) by (subst alloc_indirect.simps) (auto simp: Let_def intro!: keeps IH)
qed

lemma contiguous_keeps [keeps]: "fs_only r s \<Longrightarrow> ensures (\<lambda>x. fs_only r (snd x)) (contiguous_block_allocation ip off s)"
  unfolding contiguous_block_allocation_def Let_def by (auto intro!: keeps)

lemma tree_expand_keeps [keeps]: "fs_only r s \<Longrightarrow> ensures (\<lambda>x. fs_only r (snd x)) (tree_expand ip sz s)"
  unfolding tree_expand_def Let_def by (auto intro!: keeps)

lemma search_area_keeps [keeps]:
  "fs_only r s \<Longrightarrow> ensures (\<lambda>x. fs_only r (snd (snd x))) (search_area dp name add off stop kb s)"
proof (induction "stop - off" arbitrary: off kb s rule: less_induct)
  case less
  have IH: "ensures (\<lambda>x. fs_only r (snd (snd x))) (search_area dp name a (off + DIRENT_SIZE) stop kb t)"
    if "a = add" "off < stop" "fs_only r t" for a kb t
    using that(2,3) unfolding that(1) by (intro less(1)) (auto simp: DIRENT_SIZE_def)
  show ?case using less(2) by (subst search_area.simps) (auto intro!: keeps IH)
qed

lemma tree_search_keeps [keeps]: "fs_only r s \<Longrightarrow> ensures (\<lambda>x. fs_only r (snd (snd x))) (tree_search dp name add kb s)"
  unfolding tree_search_def Let_def by (rule ensures_test) (auto intro!: keeps split: probe.split)

lemma dot_loop_keeps [keeps]: "fs_only r s \<Longrightarrow> ensures (\<lambda>x. fs_only r (snd (snd x))) (dot_loop dp name off kb s)"
proof (induction "2 * DIRENT_SIZE - off" arbitrary: off kb s rule: less_induct)
  case less
  have IH: "ensures (\<lambda>x. fs_only r (snd (snd x))) (dot_loop dp name (off + DIRENT_SIZE) kb t)"
    if "off < 2 * DIRENT_SIZE" "fs_only r t" for kb t
    using that by (intro less(1)) (auto simp: DIRENT_SIZE_def)
  show ?case using less(2) by (subst dot_loop.simps) (auto intro!: keeps IH)
qed

lemma dirlookup_keeps [keeps]: "fs_only r s \<Longrightarrow> ensures (\<lambda>x. fs_only r (snd (snd x))) (dirlookup dp name s)"
  unfolding dirlookup_def by (auto intro!: keeps)

lemma namex_loop_keeps [keeps]:
  "fs_only r s \<Longrightarrow> ensures (\<lambda>x. fs_only r (snd (snd x))) (namex_loop path np name ip s)"
proof (induction "length path" arbitrary: path name ip s rule: less_induct)
  case less
  have IH: "ensures (\<lambda>x. fs_only r (snd (snd x))) (namex_loop p a n ip t)"
    if "a = np" "skipelem path name = (Some p, n)" "fs_only r t" for a p n ip t
    using skipelem_shorter[OF that(2)] that(3) unfolding that(1) by (intro less(1))
  show ?case using less(2) by (subst namex_loop.simps) (auto intro!: keeps IH split: prod.split option.split)
qed

lemma namex_keeps [keeps]: "fs_only r s \<Longrightarrow> ensures (\<lambda>x. fs_only r (snd (snd x))) (namex path np name s)"
  unfolding namex_def by (auto simp: split_beta intro!: keeps split: option.split)

lemma namei_keeps [keeps]: "fs_only r s \<Longrightarrow> ensures (\<lambda>x. fs_only r (snd x)) (namei path s)"
  unfolding namei_def by (auto intro!: keeps)

section \<open>Open files\<close>

lemmas file_seq [keeps] = ensures_seq[where P = "file_only r"] for r

lemma mem_file_only: "mem_only s t \<Longrightarrow> file_only s t"
  by (intro fs_file_only mem_fs_only)

lemma kfree_file_keeps [keeps]: "file_only r s \<Longrightarrow> ensures (file_only r) (kfree p s)"
  by (auto simp: ensures_def dest!: kfree_only mem_file_only intro: only_trans)

lemma fs_file_keeps:
  assumes "file_only r s" "ensures (fs_only s) u"
  shows "ensures (file_only r) u"
  using assms by (auto simp: ensures_def dest: fs_file_only intro: only_trans)

lemma set_file_keeps [keeps]: "file_only r s \<Longrightarrow> file_only r (set_file f g s)"
  by (simp add: file_only_def set_file_def)

lemma set_pipe_keeps [keeps]: "file_only r s \<Longrightarrow> file_only r (set_pipe p g s)"
  by (simp add: file_only_def set_pipe_def)

lemma pipeclose_keeps [keeps]: "file_only r s \<Longrightarrow> ensures (file_only r) (pipeclose p w s)"
  unfolding pipeclose_def Let_def by (auto intro!: keeps)

lemma op_file_keeps [keeps]:
  "file_only r s \<Longrightarrow> ensures (file_only r) (begin_op s)" "file_only r s \<Longrightarrow> ensures (file_only r) (end_op s)"
  "file_only r s \<Longrightarrow> ensures (file_only r) (iput i s)"
  by (erule fs_file_keeps, intro keeps only_refl)+

lemma fileclose_keeps [keeps]: "file_only r s \<Longrightarrow> ensures (file_only r) (fileclose f s)"
  unfolding fileclose_def Let_def by (auto intro!: keeps split: option.split)

lemma filedup_keeps [keeps]: "file_only r s \<Longrightarrow> ensures (\<lambda>x. file_only r (snd x)) (filedup f s)"
  unfolding filedup_def by (auto intro!: keeps)

end
