(* ===== verification/Ptable.thy ===== *)
theory Ptable
  imports Proc Frames
begin

text \<open>
  What the operations of \<open>kernel/proc.c\<close> (\<open>allocproc\<close>, \<open>freeproc\<close>, \<open>fork\<close>, \<open>exit\<close>, \<open>wait\<close>, \<open>wakeup\<close>,
  \<open>kill\<close>) do to the process table: one lemma per operation, for every outcome.
\<close>

section \<open>The operations on the table\<close>

lemma mem_onlyD:
  assumes "mem_only s t"
  shows "procs t = procs s" "curproc t = curproc s" "kmach.more t = kmach.more s"
  using assms by (simp_all add: mem_only_def)

lemma more_proc_st:
  assumes "kmach.more t = kmach.more s"
  shows "nextpid t = nextpid s" "initproc t = initproc s"
  using assms by (cases s, cases t, simp)+

lemmas mem_proc_st = more_proc_st[OF mem_onlyD(3)]

lemma file_proc_st:
  assumes "file_only s t"
  shows "procs t = procs s" "curproc t = curproc s" "nextpid t = nextpid s" "initproc t = initproc s"
  using assms by (cases s, cases t, simp add: file_only_def)+

definition freed :: "proc \<Rightarrow> proc" where
  "freed x = x\<lparr>p_trapframe_page := 0, p_pagetable := 0, p_sz := 0, p_pid := 0, p_parent := None,
     p_name := (p_name x)(0 := 0), p_chan := No_chan, p_killed := False, p_xstate := 0, p_state := UNUSED\<rparr>"

lemma proc_freepagetable_keeps [keeps]: "mem_only r s \<Longrightarrow> ensures (mem_only r) (proc_freepagetable pt sz s)"
  unfolding proc_freepagetable_def by (auto intro!: keeps)

lemma freeproc_table:
  assumes "freeproc p s = Ok t"
  shows "procs t = (procs s)(p := freed (procs s p)) \<and> curproc t = curproc s \<and> kmach.more t = kmach.more s"
proof -
  let ?w = "\<lambda>u. set_proc p (\<lambda>x. x\<lparr>p_trapframe_page := 0\<rparr>) u"
  obtain u v where u: "(if p_trapframe_page (procs s p) \<noteq> 0 then kfree (p_trapframe_page (procs s p)) s else Ok s) = Ok u"
    and v: "(if p_pagetable (procs (?w u) p) \<noteq> 0
       then proc_freepagetable (p_pagetable (procs (?w u) p)) (p_sz (procs (?w u) p)) (?w u) else Ok (?w u)) = Ok v"
    and t: "t = set_proc p (\<lambda>x. x\<lparr>p_pagetable := 0, p_sz := 0, p_pid := 0, p_parent := None,
       p_name := (p_name x)(0 := 0), p_chan := No_chan, p_killed := False, p_xstate := 0, p_state := UNUSED\<rparr>) v"
    using assms unfolding freeproc_def Let_def rbind_Ok_iff res.inject by blast
  have su: "mem_only s u" using u kfree_only by (auto split: if_splits)
  have uv: "mem_only (?w u) v"
    using v ensuresD[OF proc_freepagetable_keeps[OF only_refl(1)]] by (auto split: if_splits)
  show ?thesis using mem_onlyD[OF su] mem_onlyD[OF uv] unfolding t by (simp add: set_proc_def freed_def)
qed

lemma proc_pagetable_keeps [keeps]: "mem_only r s \<Longrightarrow> ensures (\<lambda>x. mem_only r (snd x)) (proc_pagetable p s)"
  unfolding proc_pagetable_def Let_def by (auto simp: split_beta intro!: keeps)

text \<open>\<open>allocproc\<close> takes a free slot, or fails and leaves the table but for the contents of a free slot.\<close>

definition claimed :: "int \<Rightarrow> u64 \<Rightarrow> u64 \<Rightarrow> proc \<Rightarrow> proc" where
  "claimed pid tf pt x = x\<lparr>p_pid := pid, p_state := USED, p_trapframe_page := tf, p_pagetable := pt\<rparr>"

lemma find_upt_Some: "find P [0..<n] = Some i \<Longrightarrow> i < n \<and> P i \<and> (\<forall>j<i. \<not> P j)"
  by (auto simp: find_Some_iff)

lemma allocproc_table:
  assumes "allocproc s = Ok (r, t)"
  shows "curproc t = curproc s \<and> initproc t = initproc s \<and>
    (case r of
       None \<Rightarrow> (procs t = procs s \<and> nextpid t = nextpid s) \<or>
         (\<exists>p<NPROC. p_state (procs s p) = UNUSED \<and> nextpid t = nextpid s + 1 \<and>
            (\<exists>pid tf pt. procs t = (procs s)(p := freed (claimed pid tf pt (procs s p)))))
     | Some p \<Rightarrow> p < NPROC \<and> p_state (procs s p) = UNUSED \<and> nextpid t = nextpid s + 1 \<and>
         (\<exists>tf pt. procs t = (procs s)(p := claimed (nextpid s) tf pt (procs s p))))"
proof (cases "find (\<lambda>p. p_state (procs s p) = UNUSED) [0..<NPROC]")
  case None
  then show ?thesis using assms by (simp add: allocproc_def)
next
  case (Some p)
  note p = find_upt_Some[OF Some]
  have n: "nextpid s \<noteq> 2 ^ 31 - 1" using assms Some by (auto simp: allocproc_def allocpid_def)
  let ?a = "set_proc p (\<lambda>x. x\<lparr>p_pid := nextpid s, p_state := USED\<rparr>) (s\<lparr>nextpid := nextpid s + 1\<rparr>)"
  obtain tf k where k: "kalloc ?a = (tf, k)" by fastforce
  let ?b = "set_proc p (\<lambda>x. x\<lparr>p_trapframe_page := tf\<rparr>) k"
  note K = mem_onlyD[OF kalloc_only[OF k]] mem_proc_st[OF kalloc_only[OF k]]
  have b: "procs ?b = (procs s)(p := (procs s p)\<lparr>p_pid := nextpid s, p_state := USED, p_trapframe_page := tf\<rparr>)"
    "curproc ?b = curproc s" "initproc ?b = initproc s" "nextpid ?b = nextpid s + 1"
    using K by (simp_all add: set_proc_def)
  show ?thesis
  proof (cases "tf = 0")
    case True
    then obtain u where "freeproc p ?b = Ok u" "r = None" "t = u"
      using assms Some n k by (auto simp: allocproc_def allocpid_def)
    moreover have "freed (procs ?b p) = freed (claimed (nextpid s) tf (p_pagetable (procs s p)) (procs s p))"
      by (simp add: b(1) freed_def claimed_def)
    ultimately show ?thesis using freeproc_table[of p ?b u] more_proc_st[of u ?b] b p by auto
  next
    case False
    then obtain pt u where u: "proc_pagetable p ?b = Ok (pt, u)"
      and e: "(let s = set_proc p (\<lambda>x. x\<lparr>p_pagetable := pt\<rparr>) u in
            if pt = 0 then rbind (freeproc p s) (\<lambda>s. Ok (None, s)) else Ok (Some p, s)) = Ok (r, t)"
      using assms Some n k by (auto simp: allocproc_def allocpid_def)
    let ?c = "set_proc p (\<lambda>x. x\<lparr>p_pagetable := pt\<rparr>) u"
    have "mem_only ?b u" using ensuresD[OF proc_pagetable_keeps[OF only_refl(1)] u] by simp
    from mem_onlyD[OF this] mem_proc_st[OF this]
    have c: "procs ?c = (procs s)(p := claimed (nextpid s) tf pt (procs s p))"
      "curproc ?c = curproc s" "initproc ?c = initproc s" "nextpid ?c = nextpid s + 1"
      using b by (simp_all add: set_proc_def claimed_def)
    show ?thesis
    proof (cases "pt = 0")
      case True
      then obtain v where v: "freeproc p ?c = Ok v" "r = None" "t = v" using e by auto
      then show ?thesis using freeproc_table[OF v(1)] more_proc_st[of v ?c] c p by auto
    next
      case False
      then show ?thesis using e c p by auto blast
    qed
  qed
qed

text \<open>What the child inherits of the table of open files.\<close>

definition inherit :: "nat set \<Rightarrow> proc \<Rightarrow> proc \<Rightarrow> proc" where
  "inherit I p x = x\<lparr>p_ofile := (\<lambda>i. if i \<in> I \<and> p_ofile p i \<noteq> None then p_ofile p i else p_ofile x i)\<rparr>"

lemma filedup_table:
  assumes "filedup f s = Ok (g, t)"
  shows "g = f \<and> procs t = procs s \<and> curproc t = curproc s \<and> kmach.more t = kmach.more (s\<lparr>ftable := ftable t\<rparr>)"
  using assms by (auto simp: filedup_def set_file_def split: if_splits)

lemma dup_files_table:
  assumes "dup_files p np s = Ok t" "p \<noteq> np"
  shows "procs t = (procs s)(np := inherit {..<NOFILE} (procs s p) (procs s np)) \<and> file_only (set_proc np (\<lambda>x. procs t np) s) t"
proof -
  have "procs t = (procs s)(np := inherit (set is) (procs s p) (procs s np)) \<and> file_only (set_proc np (\<lambda>x. procs t np) s) t"
    if "foldR (dup_file p np) is s = Ok t" for "is"
    using that
  proof (induction "is" arbitrary: s)
    case Nil
    then show ?case by (simp add: inherit_def set_proc_def)
  next
    case (Cons i "is")
    then obtain u where u: "dup_file p np i s = Ok u" "foldR (dup_file p np) is u = Ok t" by auto
    from Cons.IH[OF u(2)] have IH: "procs t = (procs u)(np := inherit (set is) (procs u p) (procs u np))"
      "file_only (set_proc np (\<lambda>x. procs t np) u) t" by blast+
    note u = u(1)[unfolded dup_file_def]
    show ?case
    proof (cases "p_ofile (procs s p) i")
      case None
      then have "inherit (set is) (procs s p) (procs s np) = inherit (set (i # is)) (procs s p) (procs s np)"
        unfolding inherit_def by (intro arg_cong[where f = "\<lambda>g. (procs s np)\<lparr>p_ofile := g\<rparr>"] ext) auto
      then show ?thesis using None u IH by simp
    next
      case (Some f)
      then obtain v where v: "filedup f s = Ok (f, v)" "u = set_proc np (\<lambda>x. x\<lparr>p_ofile := (p_ofile x)(i := Some f)\<rparr>) v"
        using u by (auto dest: filedup_table)
      note f = ensuresD[OF filedup_keeps[OF only_refl(5)] v(1)]
      have "procs u = (procs s)(np := (procs s np)\<lparr>p_ofile := (p_ofile (procs s np))(i := Some f)\<rparr>)"
        using f by (simp add: v(2) set_proc_def file_only_def)
      moreover from this have "inherit (set is) (procs u p) (procs u np) = inherit (set (i # is)) (procs s p) (procs s np)"
        using assms(2) Some by (simp add: inherit_def) (intro arg_cong[where f = "\<lambda>g. (procs s np)\<lparr>p_ofile := g\<rparr>"] ext; auto)
      moreover have "file_only (set_proc np (\<lambda>x. procs t np) s) t"
        using IH(2) f unfolding v(2) by (simp add: file_only_def set_proc_def)
      ultimately show ?thesis using IH(1) by simp
    qed
  qed
  from this[OF assms(1)[unfolded dup_files_def], unfolded set_upt atLeast0LessThan] show ?thesis .
qed

text \<open>\<open>fork\<close>: the child, and the two ways to fail.\<close>

definition blank :: "proc \<Rightarrow> bool" where
  "blank x \<longleftrightarrow> p_state x = UNUSED \<and> p_pid x = 0 \<and> p_parent x = None \<and> p_chan x = No_chan"

lemma blank_freed [simp]: "blank (freed x)"
  by (simp add: blank_def freed_def)

definition child_of :: "nat \<Rightarrow> proc \<Rightarrow> int \<Rightarrow> proc \<Rightarrow> proc \<Rightarrow> bool" where
  "child_of p par pid old x \<longleftrightarrow> p_state x = RUNNABLE \<and> p_pid x = pid \<and> p_parent x = Some p \<and>
     p_chan x = p_chan old \<and> p_killed x = p_killed old \<and> p_sz x = p_sz par \<and> p_cwd x = p_cwd par \<and>
     p_trapframe x = (p_trapframe par)\<lparr>tf_a := (tf_a (p_trapframe par))(0 := 0)\<rparr> \<and>
     (\<forall>i<NOFILE. p_ofile x i = (if p_ofile par i \<noteq> None then p_ofile par i else p_ofile old i))"

lemma fork_table:
  assumes f: "fork s = Ok (r, t)" and run: "p_state (procs s (curproc s)) \<noteq> UNUSED"
  shows "curproc t = curproc s \<and> initproc t = initproc s \<and>
    ((r = -1 \<and> procs t = procs s \<and> nextpid t = nextpid s) \<or>
     (\<exists>np<NPROC. p_state (procs s np) = UNUSED \<and> nextpid t = nextpid s + 1 \<and>
        (r = -1 \<and> (\<exists>x. blank x \<and> procs t = (procs s)(np := x)) \<or>
         r = nextpid s \<and> (\<exists>x. child_of (curproc s) (procs s (curproc s)) (nextpid s) (procs s np) x \<and> procs t = (procs s)(np := x)))))"
proof -
  let ?p = "curproc s"
  obtain a u where u: "allocproc s = Ok (a, u)" using f by (auto simp: fork_def Let_def)
  note A = allocproc_table[OF u]
  show ?thesis
  proof (cases a)
    case None
    then have "r = -1" "t = u" using f u by (auto simp: fork_def Let_def)
    then show ?thesis using A None by (auto intro: blank_freed)
  next
    case (Some np)
    then obtain tf pt where np: "np < NPROC" "p_state (procs s np) = UNUSED" "nextpid u = nextpid s + 1"
      "procs u = (procs s)(np := claimed (nextpid s) tf pt (procs s np))" "curproc u = ?p" "initproc u = initproc s"
      using A by auto
    have ne: "?p \<noteq> np" using run np(2) by auto
    obtain c v where v: "uvmcopy (p_pagetable (procs u ?p)) (p_pagetable (procs u np)) (p_sz (procs u ?p)) u = Ok (c, v)"
      using f u Some by (auto simp: fork_def Let_def)
    have uv: "mem_only u v" using ensuresD[OF uvmcopy_keeps[OF only_refl(1)] v] by simp
    note V = mem_onlyD[OF uv] mem_proc_st[OF uv]
    show ?thesis
    proof (cases "c < 0")
      case True
      then obtain w where w: "freeproc np v = Ok w" "r = -1" "t = w" using f u Some v by (auto simp: fork_def Let_def)
      then show ?thesis using freeproc_table[OF w(1)] more_proc_st[of w v] V np by (auto intro: blank_freed)
    next
      case False
      let ?w = "set_proc np (\<lambda>x. x\<lparr>p_sz := p_sz (procs v ?p),
                  p_trapframe := (p_trapframe (procs v ?p))\<lparr>tf_a := (tf_a (p_trapframe (procs v ?p)))(0 := 0)\<rparr>\<rparr>) v"
      obtain x d where x: "dup_files ?p np ?w = Ok x" and d: "p_cwd (procs x ?p) = Some d"
        and rt: "r = p_pid (procs x np)" "t = set_proc np (\<lambda>y. y\<lparr>p_cwd := Some d, p_name := safestrcpy (p_name y) 0 (p_name (procs x ?p)) 0 16,
                      p_parent := Some ?p, p_state := RUNNABLE\<rparr>) (snd (idup d x))"
        using f u Some v False by (auto simp: fork_def Let_def idup_def set_inode_def split: option.splits)
      note X = dup_files_table[OF x ne]
      have t: "nextpid x = nextpid s + 1" "initproc x = initproc s" "curproc x = ?p"
        using file_proc_st[OF conjunct2[OF X]] V np by (simp_all add: set_proc_def)
      have "nextpid t = nextpid x" "initproc t = initproc x" "curproc t = curproc x"
        using rt(2) by (simp_all add: idup_def set_inode_def set_proc_def)
      moreover have "procs t = (procs s)(np := procs t np)"
        using rt(2) conjunct1[OF X] V np ne by (simp add: idup_def set_inode_def set_proc_def fun_eq_iff)
      moreover have "child_of ?p (procs s ?p) (nextpid s) (procs s np) (procs t np)" "r = nextpid s"
        using rt conjunct1[OF X] V np ne d
        by (auto simp: child_of_def idup_def set_inode_def set_proc_def inherit_def claimed_def)
      ultimately show ?thesis using np(1,2) t by auto
    qed
  qed
qed

text \<open>Steps that at most wake sleeping processes.\<close>

definition eases :: "'a proc_st_scheme \<Rightarrow> 'a proc_st_scheme \<Rightarrow> bool" where
  "eases s t \<longleftrightarrow> curproc t = curproc s \<and> initproc t = initproc s \<and> nextpid t = nextpid s \<and>
     (\<forall>i. p_pid (procs t i) = p_pid (procs s i) \<and> p_chan (procs t i) = p_chan (procs s i) \<and>
        (p_state (procs t i) = p_state (procs s i) \<or> p_state (procs s i) = SLEEPING \<and> p_state (procs t i) = RUNNABLE))"

definition same_parents :: "'a kmach_scheme \<Rightarrow> 'a kmach_scheme \<Rightarrow> bool" where
  "same_parents s t \<longleftrightarrow> (\<forall>i. p_parent (procs t i) = p_parent (procs s i))"

lemma eases_refl [simp]: "eases s s"
  by (simp add: eases_def)

lemma eases_trans: "eases s t \<Longrightarrow> eases t u \<Longrightarrow> eases s u"
  unfolding eases_def by (metis procstate.distinct)

lemma eases_sleeping: "eases s t \<Longrightarrow> p_state (procs t i) = SLEEPING \<Longrightarrow> p_state (procs s i) = SLEEPING"
  unfolding eases_def by (metis procstate.distinct)

lemma wakeup_by_table:
  "eases s (wakeup_by self ch s)" "same_parents s (wakeup_by self ch s)"
  "i < NPROC \<Longrightarrow> self \<noteq> Some i \<Longrightarrow> p_state (procs (wakeup_by self ch s) i) = SLEEPING \<Longrightarrow> p_chan (procs s i) \<noteq> ch"
  by (auto simp: eases_def same_parents_def wakeup_by_def split: if_splits)

lemma wakeup_table:
  "eases s (wakeup ch s)" "same_parents s (wakeup ch s)"
  "i < NPROC \<Longrightarrow> i \<noteq> curproc s \<Longrightarrow> p_state (procs (wakeup ch s) i) = SLEEPING \<Longrightarrow> p_chan (procs s i) \<noteq> ch"
  unfolding wakeup_def using wakeup_by_table(1,2) wakeup_by_table(3)[of i "Some (curproc s)" ch s] by auto

lemma kill_table:
  assumes "kill pid s = (r, t)"
  shows "eases s t \<and> same_parents s t"
  using assms by (auto simp: kill_def eases_def same_parents_def set_proc_def split: option.splits if_splits)

lemma reparent_one_table:
  assumes "initproc s \<noteq> Some p"
  shows "eases s (reparent_one p pp s)"
    "p_parent (procs (reparent_one p pp s) i) =
      (if i = pp \<and> p_parent (procs s i) = Some p then initproc s else p_parent (procs s i))"
    "p_parent (procs s pp) = Some p \<Longrightarrow> i < NPROC \<Longrightarrow> i \<noteq> curproc s \<Longrightarrow>
      p_state (procs (reparent_one p pp s) i) = SLEEPING \<Longrightarrow> p_chan (procs s i) \<noteq> proc_chan (initproc s)"
  by (auto simp: reparent_one_def wakeup_def wakeup_by_def set_proc_def eases_def split: if_splits)

lemma reparent_table:
  assumes "initproc s \<noteq> Some p"
  shows "eases s (reparent p s)"
    "p_parent (procs (reparent p s) i) =
      (if i < NPROC \<and> p_parent (procs s i) = Some p then initproc s else p_parent (procs s i))"
    "\<exists>pp<NPROC. p_parent (procs s pp) = Some p \<Longrightarrow> i < NPROC \<Longrightarrow> i \<noteq> curproc s \<Longrightarrow>
      p_state (procs (reparent p s) i) = SLEEPING \<Longrightarrow> p_chan (procs s i) \<noteq> proc_chan (initproc s)"
proof -
  have "eases s t \<and>
    (\<forall>i. p_parent (procs t i) = (if i \<in> set xs \<and> p_parent (procs s i) = Some p then initproc s else p_parent (procs s i))) \<and>
    ((\<exists>pp\<in>set xs. p_parent (procs s pp) = Some p) \<longrightarrow>
       (\<forall>i<NPROC. i \<noteq> curproc s \<and> p_state (procs t i) = SLEEPING \<longrightarrow> p_chan (procs s i) \<noteq> proc_chan (initproc s)))"
    if "fold (reparent_one p) xs s = t" "distinct xs" for xs t
    using that assms
  proof (induction xs arbitrary: s)
    case Nil
    then show ?case by simp
  next
    case (Cons x xs)
    let ?u = "reparent_one p x s"
    note R = reparent_one_table[OF Cons.prems(3)]
    have u: "initproc ?u = initproc s" "curproc ?u = curproc s" "\<And>i. p_chan (procs ?u i) = p_chan (procs s i)"
      using R(1)[of x] by (simp_all add: eases_def)
    have IH: "eases ?u t" "\<And>i. p_parent (procs t i) =
        (if i \<in> set xs \<and> p_parent (procs ?u i) = Some p then initproc ?u else p_parent (procs ?u i))"
      "(\<exists>pp\<in>set xs. p_parent (procs ?u pp) = Some p) \<longrightarrow>
       (\<forall>i<NPROC. i \<noteq> curproc ?u \<and> p_state (procs t i) = SLEEPING \<longrightarrow> p_chan (procs ?u i) \<noteq> proc_chan (initproc ?u))"
      using Cons.IH[of ?u] Cons.prems u(1) by auto
    have "p_chan (procs s i) \<noteq> proc_chan (initproc s)"
      if ex: "\<exists>pp\<in>set (x # xs). p_parent (procs s pp) = Some p" and "i < NPROC" "i \<noteq> curproc s" "p_state (procs t i) = SLEEPING" for i
    proof (cases "p_parent (procs s x) = Some p")
      case True
      then show ?thesis using R(3)[OF True] that eases_sleeping[OF IH(1)] by blast
    next
      case False
      then obtain pp where "pp \<in> set xs" "pp \<noteq> x" "p_parent (procs s pp) = Some p" using ex by auto
      then have "\<exists>pp\<in>set xs. p_parent (procs ?u pp) = Some p" using R(2)[of x pp] by (intro bexI[of _ pp]) auto
      then show ?thesis using IH(3) that u by auto
    qed
    moreover have "p_parent (procs t i) = (if i \<in> set (x # xs) \<and> p_parent (procs s i) = Some p then initproc s else p_parent (procs s i))" for i
      using IH(2)[of i] R(2)[of x i] u Cons.prems by auto
    ultimately show ?case using eases_trans[OF R(1) IH(1)] by blast
  qed
  from this[OF reparent_def[symmetric] distinct_upt] show "eases s (reparent p s)"
    "p_parent (procs (reparent p s) i) =
      (if i < NPROC \<and> p_parent (procs s i) = Some p then initproc s else p_parent (procs s i))"
    "\<exists>pp<NPROC. p_parent (procs s pp) = Some p \<Longrightarrow> i < NPROC \<Longrightarrow> i \<noteq> curproc s \<Longrightarrow>
      p_state (procs (reparent p s) i) = SLEEPING \<Longrightarrow> p_chan (procs s i) \<noteq> proc_chan (initproc s)"
    by auto
qed

lemma close_files_table:
  assumes "close_files s = Ok t"
  shows "\<exists>g. file_only (set_proc (curproc s) (\<lambda>x. x\<lparr>p_ofile := g\<rparr>) s) t"
proof -
  let ?P = "\<lambda>t. \<exists>g. file_only (set_proc (curproc s) (\<lambda>x. x\<lparr>p_ofile := g\<rparr>) s) t"
  have "?P s" by (intro exI[of _ "p_ofile (procs s (curproc s))"]) (simp add: file_only_def set_proc_def)
  moreover have "ensures ?P (close_file fd u)" if "?P u" for fd u
  proof (cases "p_ofile (myproc u) fd")
    case None
    then show ?thesis using that by (simp add: close_file_def)
  next
    case (Some f)
    obtain g where g: "file_only (set_proc (curproc s) (\<lambda>x. x\<lparr>p_ofile := g\<rparr>) s) u" using \<open>?P u\<close> by blast
    have "?P (set_ofile fd None v)" if "fileclose f u = Ok v" for v
      using ensuresD[OF fileclose_keeps[OF g] that]
      by (intro exI[of _ "g(fd := None)"]) (simp add: file_only_def set_proc_def set_ofile_def update_myproc_def)
    then show ?thesis using Some by (auto simp: close_file_def ensures_def)
  qed
  ultimately have "ensures ?P (close_files s)" unfolding close_files_def by (rule ensures_foldR)
  then show ?thesis using assms by (rule ensuresD)
qed

lemma exit_table:
  assumes e: "exit st s = Ok t" and p: "p = curproc s"
  shows "initproc s \<noteq> Some p" "curproc t = p" "initproc t = initproc s" "nextpid t = nextpid s"
    "p_pid (procs t i) = p_pid (procs s i)" "p_chan (procs t i) = p_chan (procs s i)"
    "p_state (procs t p) = ZOMBIE" "p_xstate (procs t p) = st"
    "i \<noteq> p \<Longrightarrow> p_state (procs t i) = p_state (procs s i) \<or> p_state (procs s i) = SLEEPING \<and> p_state (procs t i) = RUNNABLE"
    "p_parent (procs t i) = (if i < NPROC \<and> p_parent (procs s i) = Some p then initproc s else p_parent (procs s i))"
    "i < NPROC \<Longrightarrow> i \<noteq> p \<Longrightarrow> p_state (procs t i) = SLEEPING \<Longrightarrow> p_chan (procs s i) \<noteq> proc_chan (p_parent (procs t p))"
    "i < NPROC \<Longrightarrow> i \<noteq> p \<Longrightarrow> p_state (procs t i) = SLEEPING \<Longrightarrow> \<exists>pp<NPROC. p_parent (procs s pp) = Some p \<Longrightarrow>
      p_chan (procs s i) \<noteq> proc_chan (initproc s)"
proof -
  show n: "initproc s \<noteq> Some p" using e p by (auto simp: exit_def)
  obtain a b c d where a: "close_files s = Ok a" and b: "begin_op a = Ok b"
    and c: "(case p_cwd (myproc b) of None \<Rightarrow> Undef | Some ip \<Rightarrow> iput ip b) = Ok c" and d: "end_op c = Ok d"
    and t: "t = update_myproc (\<lambda>p. p\<lparr>p_xstate := st, p_state := ZOMBIE\<rparr>)
       (let s = update_myproc (\<lambda>p. p\<lparr>p_cwd := None\<rparr>) d; s = reparent (curproc s) s
        in wakeup (proc_chan (p_parent (myproc s))) s)"
    using e n p unfolding exit_def Let_def by (auto split: if_splits)
  obtain g where g: "file_only (set_proc p (\<lambda>x. x\<lparr>p_ofile := g\<rparr>) s) a" using close_files_table[OF a] p by blast
  have "file_only b c" using c op_file_keeps(3)[OF only_refl(5)] by (auto simp: ensures_def split: option.splits)
  then have "file_only a d"
    using ensuresD[OF op_file_keeps(1)[OF only_refl(5)] b] ensuresD[OF op_file_keeps(2)[OF only_refl(5)] d] by (blast intro: only_trans)
  then have "file_only (set_proc p (\<lambda>x. x\<lparr>p_ofile := g\<rparr>) s) d" using g only_trans by blast
  note D = file_proc_st[OF this]
  define u where "u = update_myproc (\<lambda>p. p\<lparr>p_cwd := None\<rparr>) d"
  have u: "curproc u = p" "initproc u = initproc s" "nextpid u = nextpid s"
    "procs u = (procs s)(p := (procs s p)\<lparr>p_ofile := g, p_cwd := None\<rparr>)"
    using D p by (simp_all add: u_def update_myproc_def set_proc_def)
  have core: "p_state (procs u i) = p_state (procs s i)" "p_chan (procs u i) = p_chan (procs s i)"
    "p_pid (procs u i) = p_pid (procs s i)" "p_parent (procs u i) = p_parent (procs s i)" for i
    by (simp_all add: u(4))
  define v where "v = reparent p u"
  have nu: "initproc u \<noteq> Some p" using n u by simp
  note R = reparent_table[OF nu, folded v_def]
  define w where "w = wakeup (proc_chan (p_parent (procs v p))) v"
  have cv: "curproc v = p" using R(1) u by (simp add: eases_def)
  note W = wakeup_table[where s = v and ch = "proc_chan (p_parent (procs v p))", folded w_def]
  have vw: "eases u w" using R(1) W(1) by (rule eases_trans)
  have t: "t = update_myproc (\<lambda>p. p\<lparr>p_xstate := st, p_state := ZOMBIE\<rparr>) w"
    using t u(1) cv by (simp add: u_def v_def w_def Let_def myproc_def)
  have cw: "curproc w = p" using vw u by (simp add: eases_def)
  have tp: "procs t i = (if i = p then (procs w p)\<lparr>p_xstate := st, p_state := ZOMBIE\<rparr> else procs w i)" for i
    using cw by (simp add: t update_myproc_def)
  show "curproc t = p" "initproc t = initproc s" "nextpid t = nextpid s"
    using vw u by (simp_all add: t update_myproc_def eases_def)
  show "p_pid (procs t i) = p_pid (procs s i)" "p_chan (procs t i) = p_chan (procs s i)"
    using vw core by (simp_all add: tp eases_def)
  show "p_state (procs t p) = ZOMBIE" "p_xstate (procs t p) = st" by (simp_all add: tp)
  show "p_state (procs t i) = p_state (procs s i) \<or> p_state (procs s i) = SLEEPING \<and> p_state (procs t i) = RUNNABLE" if "i \<noteq> p"
    using vw core that unfolding tp eases_def by simp
  have par: "p_parent (procs t i) = p_parent (procs v i)" for i using W(2) by (simp add: tp same_parents_def)
  show "p_parent (procs t i) = (if i < NPROC \<and> p_parent (procs s i) = Some p then initproc s else p_parent (procs s i))"
    using par R(2)[of i] core(4)[of i] u(2) by simp
  assume i: "i < NPROC" "i \<noteq> p" "p_state (procs t i) = SLEEPING"
  then have w: "p_state (procs w i) = SLEEPING" by (simp add: tp)
  have ch: "p_chan (procs v i) = p_chan (procs s i)" using R(1) core by (simp add: eases_def)
  show "p_chan (procs s i) \<noteq> proc_chan (p_parent (procs t p))"
    using W(3)[OF i(1) _ w] i(2) cv ch par[of p] by simp
  show "p_chan (procs s i) \<noteq> proc_chan (initproc s)" if "\<exists>pp<NPROC. p_parent (procs s pp) = Some p"
    using R(3)[OF _ i(1)] that core u i(2) eases_sleeping[OF W(1) w] by auto
qed

lemma wait_table:
  assumes "wait addr s = Ok (r, t)"
  shows "curproc t = curproc s \<and> nextpid t = nextpid s \<and> initproc t = initproc s \<and>
    (case r of
       Done pid \<Rightarrow> procs t = procs s \<and> pid = -1 \<or>
         (\<exists>np<NPROC. p_parent (procs s np) = Some (curproc s) \<and> p_state (procs s np) = ZOMBIE \<and> pid = p_pid (procs s np) \<and>
            procs t = (procs s)(np := freed (procs s np)))
     | Sleeps \<Rightarrow> (\<forall>np<NPROC. p_parent (procs s np) = Some (curproc s) \<longrightarrow> p_state (procs s np) \<noteq> ZOMBIE) \<and>
         t = sleep (Proc_chan (curproc s)) s)"
proof (cases "find (\<lambda>np. p_parent (procs s np) = Some (curproc s) \<and> p_state (procs s np) = ZOMBIE) [0..<NPROC]")
  case None
  then have "\<forall>np<NPROC. p_parent (procs s np) = Some (curproc s) \<longrightarrow> p_state (procs s np) \<noteq> ZOMBIE"
    by (auto simp: find_None_iff)
  then show ?thesis using assms None by (auto simp: wait_def Let_def sleep_def update_myproc_def split: if_splits)
next
  case (Some np)
  note np = find_upt_Some[OF Some]
  define c where "c = (if addr \<noteq> 0 then copyout (p_pagetable (myproc s)) addr (int_bytes (p_xstate (procs s np))) s else (0, s))"
  have m: "mem_only s (snd c)" unfolding c_def by (simp add: copyout_keeps[OF only_refl(1)])
  note M = mem_onlyD[OF m] mem_proc_st[OF m]
  show ?thesis
  proof (cases "fst c < 0")
    case True
    then have "r = Done (-1)" "t = snd c" using assms Some by (auto simp: wait_def Let_def c_def[symmetric] split_beta)
    then show ?thesis using M by simp
  next
    case False
    then obtain u where u: "freeproc np (snd c) = Ok u" "r = Done (p_pid (procs s np))" "t = u"
      using assms Some by (auto simp: wait_def Let_def c_def[symmetric] split_beta)
    then show ?thesis using freeproc_table[OF u(1)] more_proc_st[of u "snd c"] M np by auto
  qed
qed

end
