(* ===== verification/Sched.thy ===== *)
theory Sched
  imports Ptable
begin

text \<open>
  Processes and the scheduler of \<open>kernel/proc.c\<close> as a step relation on the state and the position
  of the processor, with the invariant of the process table (\<open>table_ok\<close>), the absence of lost
  wakeups between \<open>exit\<close> and \<open>wait\<close>, and the fairness of the scheduler.
\<close>

section \<open>The kernel as a step relation\<close>

text \<open>
  The processor is in the scheduler, at a slot of the table, or runs a process.  A step is one
  slot of the scan of \<open>scheduler\<close>, one of the operations above by the running process, a clock
  interrupt, or other work that leaves the fields below alone.
\<close>

datatype cpu = Sched nat | Run nat

definition same_table :: "'a proc_st_scheme \<Rightarrow> 'a proc_st_scheme \<Rightarrow> bool" where
  "same_table s t \<longleftrightarrow> curproc t = curproc s \<and> initproc t = initproc s \<and> nextpid t = nextpid s \<and>
     (\<forall>i. p_state (procs t i) = p_state (procs s i) \<and> p_chan (procs t i) = p_chan (procs s i) \<and>
        p_pid (procs t i) = p_pid (procs s i) \<and> p_parent (procs t i) = p_parent (procs s i))"

inductive kstep :: "cpu \<times> 'a proc_st_scheme \<Rightarrow> cpu \<times> 'a proc_st_scheme \<Rightarrow> bool" where
  skip: "p < NPROC \<Longrightarrow> p_state (procs s p) \<noteq> RUNNABLE \<Longrightarrow> kstep (Sched p, s) (Sched (Suc p), s)"
| pick: "p < NPROC \<Longrightarrow> p_state (procs s p) = RUNNABLE \<Longrightarrow> kstep (Sched p, s) (Run p, dispatch p s)"
| wrap: "kstep (Sched NPROC, s) (Sched 0, s)"
| interrupt: "kstep (Sched p, s) (Sched p, clockintr None s)"
| tick: "kstep (Run p, s) (Run p, clockintr (Some p) s)"
| work: "same_table s t \<Longrightarrow> kstep (Run p, s) (Run p, t)"
| yield: "kstep (Run p, s) (Sched (Suc p), yield s)"
| sleep: "\<forall>j. ch \<noteq> Proc_chan j \<Longrightarrow> kstep (Run p, s) (Sched (Suc p), sleep ch s)"
| resume: "kstep (Run p, s) (Run p, sleep_end s)"
| wakeup: "kstep (Run p, s) (Run p, wakeup ch s)"
| kill: "kill pid s = (r, t) \<Longrightarrow> kstep (Run p, s) (Run p, t)"
| fork: "fork s = Ok (r, t) \<Longrightarrow> kstep (Run p, s) (Run p, t)"
| exit: "exit st s = Ok t \<Longrightarrow> kstep (Run p, s) (Sched (Suc p), t)"
| wait: "wait addr s = Ok (Done r, t) \<Longrightarrow> kstep (Run p, s) (Run p, t)"
| wait_sleep: "wait addr s = Ok (Sleeps, t) \<Longrightarrow> kstep (Run p, s) (Sched (Suc p), t)"

inductive_cases kstep_Sched: "kstep (Sched p, s) c"
inductive_cases kstep_Run: "kstep (Run p, s) c"

section \<open>The invariant\<close>

definition alive :: "procstate \<Rightarrow> bool" where
  "alive x \<longleftrightarrow> x = SLEEPING \<or> x = RUNNABLE \<or> x = RUNNING"

definition cpu_ok :: "cpu \<Rightarrow> 'a kmach_scheme \<Rightarrow> bool" where
  "cpu_ok c s \<longleftrightarrow> (\<forall>i<NPROC. p_state (procs s i) = RUNNING \<longleftrightarrow> c = Run i) \<and>
     (case c of Run p \<Rightarrow> p < NPROC \<and> curproc s = p | Sched p \<Rightarrow> p \<le> NPROC)"

definition pids_ok :: "'a proc_st_scheme \<Rightarrow> bool" where
  "pids_ok s \<longleftrightarrow> 0 < nextpid s \<and>
     (\<forall>i<NPROC. p_state (procs s i) \<noteq> USED \<and> (p_state (procs s i) = UNUSED \<longleftrightarrow> p_pid (procs s i) = 0) \<and>
        0 \<le> p_pid (procs s i) \<and> p_pid (procs s i) < nextpid s \<and>
        (\<forall>j<NPROC. p_pid (procs s i) = p_pid (procs s j) \<longrightarrow> p_pid (procs s i) = 0 \<or> i = j))"

definition family_ok :: "'a proc_st_scheme \<Rightarrow> bool" where
  "family_ok s \<longleftrightarrow> (\<exists>i0<NPROC. initproc s = Some i0 \<and> alive (p_state (procs s i0))) \<and>
     (\<forall>i<NPROC. (p_parent (procs s i) = None \<longrightarrow> p_state (procs s i) = UNUSED \<or> initproc s = Some i) \<and>
        (\<forall>j. p_parent (procs s i) = Some j \<longrightarrow> p_state (procs s i) \<noteq> UNUSED \<and> j < NPROC \<and> alive (p_state (procs s j))))"

definition wait_ok :: "'a kmach_scheme \<Rightarrow> bool" where
  "wait_ok s \<longleftrightarrow> (\<forall>j<NPROC. \<forall>k. p_state (procs s j) = SLEEPING \<and> p_chan (procs s j) = Proc_chan k \<longrightarrow>
     k = j \<and> (\<forall>i<NPROC. p_parent (procs s i) = Some j \<longrightarrow> p_state (procs s i) \<noteq> ZOMBIE))"

definition table_ok :: "cpu \<Rightarrow> 'a proc_st_scheme \<Rightarrow> bool" where
  "table_ok c s \<longleftrightarrow> cpu_ok c s \<and> pids_ok s \<and> family_ok s \<and> wait_ok s"

lemmas table_defs = table_ok_def cpu_ok_def pids_ok_def family_ok_def wait_ok_def

lemma eases_state:
  assumes "eases s t"
  shows "x \<noteq> SLEEPING \<Longrightarrow> x \<noteq> RUNNABLE \<Longrightarrow> p_state (procs t i) = x \<longleftrightarrow> p_state (procs s i) = x"
    "alive (p_state (procs t i)) \<longleftrightarrow> alive (p_state (procs s i))"
proof -
  have "p_state (procs t i) = p_state (procs s i) \<or> p_state (procs s i) = SLEEPING \<and> p_state (procs t i) = RUNNABLE"
    using assms by (simp add: eases_def)
  then show "x \<noteq> SLEEPING \<Longrightarrow> x \<noteq> RUNNABLE \<Longrightarrow> p_state (procs t i) = x \<longleftrightarrow> p_state (procs s i) = x"
    "alive (p_state (procs t i)) \<longleftrightarrow> alive (p_state (procs s i))"
    by (auto simp: alive_def)
qed

lemma table_eases:
  assumes e: "eases s t" and q: "same_parents s t" and ok: "table_ok c s"
  shows "table_ok c t"
proof -
  have f: "curproc t = curproc s" "initproc t = initproc s" "nextpid t = nextpid s"
    "\<And>i. p_pid (procs t i) = p_pid (procs s i)" "\<And>i. p_chan (procs t i) = p_chan (procs s i)"
    "\<And>i. p_parent (procs t i) = p_parent (procs s i)"
    using e q by (simp_all add: eases_def same_parents_def)
  note st = eases_state[OF e]
  have "cpu_ok c t" using ok f st(1)[of RUNNING] by (simp add: table_ok_def cpu_ok_def split: cpu.splits)
  moreover have "pids_ok t" using ok f st(1)[of USED] st(1)[of UNUSED] by (simp add: table_ok_def pids_ok_def)
  moreover have "family_ok t" using ok f st(1)[of UNUSED] st(2) by (simp add: table_ok_def family_ok_def)
  moreover have "wait_ok t"
    using ok f st(1)[of ZOMBIE] eases_sleeping[OF e] unfolding table_ok_def wait_ok_def by simp
  ultimately show ?thesis by (simp add: table_ok_def)
qed

lemma same_table_eases: "same_table s t \<Longrightarrow> eases s t \<and> same_parents s t"
  by (simp add: same_table_def eases_def same_parents_def)

text \<open>A change of the state of one process between the states of a live process.\<close>

lemma table_turn:
  assumes ok: "table_ok c s" and p: "p < NPROC" "alive (p_state (procs s p))" and al: "alive (p_state x)"
    and x: "p_pid x = p_pid (procs s p)" "p_parent x = p_parent (procs s p)"
    and t: "procs t = (procs s)(p := x)" "initproc t = initproc s" "nextpid t = nextpid s"
    and c: "cpu_ok c' t"
    and w: "\<And>k. p_state x = SLEEPING \<Longrightarrow> p_chan x = Proc_chan k \<Longrightarrow>
      k = p \<and> (\<forall>i<NPROC. p_parent (procs s i) = Some p \<longrightarrow> p_state (procs s i) \<noteq> ZOMBIE)"
  shows "table_ok c' t"
proof -
  have st: "p_state x \<noteq> USED" "p_state x \<noteq> UNUSED" "p_state x \<noteq> ZOMBIE" "p_state (procs s p) \<noteq> UNUSED" "p_state (procs s p) \<noteq> ZOMBIE"
    using p(2) al by (auto simp: alive_def)
  then have q: "p_state (procs t i) = y \<longleftrightarrow> p_state (procs s i) = y" if "y = USED \<or> y = UNUSED \<or> y = ZOMBIE" for i y
    using that p(2) by (auto simp: t(1) alive_def)
  have f: "\<And>i. p_pid (procs t i) = p_pid (procs s i)" "\<And>i. p_parent (procs t i) = p_parent (procs s i)"
    "\<And>i. alive (p_state (procs t i)) = alive (p_state (procs s i))"
    using x p(2) al by (simp_all add: t(1))
  have "pids_ok t" using ok t(2,3) f q[of USED] q[of UNUSED] by (simp add: table_ok_def pids_ok_def)
  moreover have "family_ok t" using ok t(2,3) f q[of UNUSED] by (simp add: table_ok_def family_ok_def)
  moreover have "k = j \<and> (\<forall>i<NPROC. p_parent (procs t i) = Some j \<longrightarrow> p_state (procs t i) \<noteq> ZOMBIE)"
    if "j < NPROC" "p_state (procs t j) = SLEEPING" "p_chan (procs t j) = Proc_chan k" for j k
  proof (cases "j = p")
    case True
    then show ?thesis using that w[of k] f(2) q[of ZOMBIE] by (simp add: t(1))
  next
    case False
    then have "p_state (procs s j) = SLEEPING" "p_chan (procs s j) = Proc_chan k" using that by (simp_all add: t(1))
    then show ?thesis using ok that(1) f(2) q[of ZOMBIE] unfolding table_ok_def wait_ok_def by simp
  qed
  then have "wait_ok t" unfolding wait_ok_def by blast
  ultimately show ?thesis using c by (simp add: table_ok_def)
qed

lemma cpu_ok_Run: "table_ok (Run p) s \<Longrightarrow> p < NPROC \<and> curproc s = p \<and> p_state (procs s p) = RUNNING"
  by (simp add: table_ok_def cpu_ok_def)

text \<open>The running process leaves the processor or changes its channel.\<close>

lemma table_leave:
  assumes ok: "table_ok (Run p) s" and st: "p_state x = RUNNABLE \<or> p_state x = SLEEPING"
    and x: "p_pid x = p_pid (procs s p)" "p_parent x = p_parent (procs s p)"
    and w: "\<And>k. p_state x = SLEEPING \<Longrightarrow> p_chan x = Proc_chan k \<Longrightarrow>
      k = p \<and> (\<forall>i<NPROC. p_parent (procs s i) = Some p \<longrightarrow> p_state (procs s i) \<noteq> ZOMBIE)"
  shows "table_ok (Sched (Suc p)) (s\<lparr>procs := (procs s)(p := x)\<rparr>)"
proof (rule table_turn[OF ok, where p = p and x = x])
  note R = cpu_ok_Run[OF ok]
  show "p < NPROC" "alive (p_state (procs s p))" "alive (p_state x)" using R st by (auto simp: alive_def)
  show "cpu_ok (Sched (Suc p)) (s\<lparr>procs := (procs s)(p := x)\<rparr>)"
    using ok R st unfolding table_ok_def cpu_ok_def by auto
qed (use w x in auto)

lemma table_yield:
  assumes "table_ok (Run p) s"
  shows "table_ok (Sched (Suc p)) (Proc.yield s)"
proof -
  have "Proc.yield s = s\<lparr>procs := (procs s)(p := (procs s p)\<lparr>p_state := RUNNABLE\<rparr>)\<rparr>"
    using cpu_ok_Run[OF assms] by (simp add: Proc.yield_def update_myproc_def)
  then show ?thesis using table_leave[OF assms, of "(procs s p)\<lparr>p_state := RUNNABLE\<rparr>"] by simp
qed

lemma table_sleep:
  assumes "table_ok (Run p) s" "\<And>k. ch = Proc_chan k \<Longrightarrow>
    k = p \<and> (\<forall>i<NPROC. p_parent (procs s i) = Some p \<longrightarrow> p_state (procs s i) \<noteq> ZOMBIE)"
  shows "table_ok (Sched (Suc p)) (Proc.sleep ch s)"
proof -
  have "Proc.sleep ch s = s\<lparr>procs := (procs s)(p := (procs s p)\<lparr>p_chan := ch, p_state := SLEEPING\<rparr>)\<rparr>"
    using cpu_ok_Run[OF assms(1)] by (simp add: Proc.sleep_def update_myproc_def)
  then show ?thesis using table_leave[OF assms(1), of "(procs s p)\<lparr>p_chan := ch, p_state := SLEEPING\<rparr>"] assms(2) by simp
qed

lemma table_resume: "table_ok (Run p) s \<Longrightarrow> table_ok (Run p) (sleep_end s)"
proof (rule table_turn[where p = p and x = "(procs s p)\<lparr>p_chan := No_chan\<rparr>"])
  assume ok: "table_ok (Run p) s"
  note R = cpu_ok_Run[OF ok]
  show "table_ok (Run p) s" by (rule ok)
  show "p < NPROC" "alive (p_state (procs s p))" "alive (p_state ((procs s p)\<lparr>p_chan := No_chan\<rparr>))" using R by (simp_all add: alive_def)
  show "procs (sleep_end s) = (procs s)(p := (procs s p)\<lparr>p_chan := No_chan\<rparr>)"
    "initproc (sleep_end s) = initproc s" "nextpid (sleep_end s) = nextpid s" using R by (simp_all add: sleep_end_def update_myproc_def)
  show "cpu_ok (Run p) (sleep_end s)" using ok R by (simp add: table_ok_def cpu_ok_def sleep_end_def update_myproc_def)
qed simp_all

lemma table_pick:
  assumes ok: "table_ok (Sched q) s" and p: "p < NPROC" "p_state (procs s p) = RUNNABLE"
  shows "table_ok (Run p) (dispatch p s)"
proof (rule table_turn[OF ok p(1), where x = "(procs s p)\<lparr>p_state := RUNNING\<rparr>"])
  show "cpu_ok (Run p) (dispatch p s)"
    using ok p unfolding table_ok_def cpu_ok_def by (auto simp: dispatch_def set_proc_def)
qed (simp_all add: dispatch_def set_proc_def alive_def p)

text \<open>A free slot becomes a new process, a zombie is freed.\<close>

lemma table_fork:
  assumes ok: "table_ok (Run p) s" and f: "Proc.fork s = Ok (r, t)"
  shows "table_ok (Run p) t"
proof -
  note R = cpu_ok_Run[OF ok]
  have F: "curproc t = curproc s" "initproc t = initproc s" using fork_table[OF f] R by simp_all
  consider (none) "procs t = procs s" "nextpid t = nextpid s"
    | (slot) np x where "np < NPROC" "p_state (procs s np) = UNUSED" "nextpid t = nextpid s + 1" "procs t = (procs s)(np := x)"
        "blank x \<or> child_of p (procs s p) (nextpid s) (procs s np) x"
    using fork_table[OF f] R by auto
  then show ?thesis
  proof cases
    case none
    then show ?thesis using ok F by (intro table_eases[of s t]) (simp_all add: eases_def same_parents_def)
  next
    case slot
    have pid: "p_pid (procs s np) = 0" using ok slot(1,2) by (simp add: table_ok_def pids_ok_def)
    have xs: "p_state x = UNUSED \<and> p_pid x = 0 \<and> p_parent x = None \<or>
        p_state x = RUNNABLE \<and> p_pid x = nextpid s \<and> p_parent x = Some p"
      using slot(5) by (auto simp: blank_def child_of_def)
    have run: "p_state (procs t i) = RUNNING \<longleftrightarrow> p_state (procs s i) = RUNNING" for i
      using xs slot(2) by (auto simp: slot(4))
    have "cpu_ok (Run p) t" using ok R F by (simp add: table_ok_def cpu_ok_def run)
    moreover have "pids_ok t"
    proof -
      have n: "0 < nextpid s" and A: "\<And>i. i < NPROC \<Longrightarrow> p_state (procs s i) \<noteq> USED \<and> (p_state (procs s i) = UNUSED \<longleftrightarrow> p_pid (procs s i) = 0) \<and>
          0 \<le> p_pid (procs s i) \<and> p_pid (procs s i) < nextpid s"
        and B: "\<And>i j. i < NPROC \<Longrightarrow> j < NPROC \<Longrightarrow> p_pid (procs s i) = p_pid (procs s j) \<Longrightarrow> p_pid (procs s i) = 0 \<or> i = j"
        using ok unfolding table_ok_def pids_ok_def by blast+
      have "p_pid x = 0 \<or> i = j" if "i < NPROC" "j < NPROC" "i = np" "p_pid x = p_pid (procs s j)" for i j
        using A[OF that(2)] xs that(4) by auto
      then have C: "p_pid (procs t i) = 0 \<or> i = j" if "i < NPROC" "j < NPROC" "p_pid (procs t i) = p_pid (procs t j)" for i j
        using that B[OF that(1,2)] slot(4) by (metis fun_upd_apply)
      have "p_state (procs t i) \<noteq> USED \<and> (p_state (procs t i) = UNUSED \<longleftrightarrow> p_pid (procs t i) = 0) \<and>
          0 \<le> p_pid (procs t i) \<and> p_pid (procs t i) < nextpid t" if "i < NPROC" for i
        using A[OF that] xs n slot(3) by (auto simp: slot(4))
      then show ?thesis using n slot(3) C unfolding pids_ok_def by simp
    qed
    moreover have "family_ok t"
    proof -
      have ne: "initproc s \<noteq> Some np" "p \<noteq> np" using ok slot(2) R by (auto simp: table_ok_def family_ok_def alive_def)
      have al: "alive (p_state (procs s j)) \<Longrightarrow> alive (p_state (procs t j))" for j using slot(2,4) by (auto simp: alive_def)
      have "alive (p_state (procs s p))" using R by (simp add: alive_def)
      then have ap: "alive (p_state (procs t p))" by (rule al)
      have "(p_parent (procs t i) = None \<longrightarrow> p_state (procs t i) = UNUSED \<or> initproc t = Some i) \<and>
        (\<forall>j. p_parent (procs t i) = Some j \<longrightarrow> p_state (procs t i) \<noteq> UNUSED \<and> j < NPROC \<and> alive (p_state (procs t j)))"
        if "i < NPROC" for i
      proof (cases "i = np")
        case True
        then show ?thesis using xs ap R by (auto simp: slot(4))
      next
        case False
        then show ?thesis using ok that al F unfolding table_ok_def family_ok_def by (simp add: slot(4))
      qed
      moreover have "\<exists>i0<NPROC. initproc t = Some i0 \<and> alive (p_state (procs t i0))"
        using ok al F unfolding table_ok_def family_ok_def by auto
      ultimately show ?thesis unfolding family_ok_def by blast
    qed
    moreover have "wait_ok t"
    proof -
      have "p_state (procs s j) = SLEEPING" "procs t j = procs s j" if "p_state (procs t j) = SLEEPING" for j
        using that xs by (auto simp: slot(4) split: if_splits)
      moreover have "p_parent (procs s i) = Some j" "p_state (procs s i) = ZOMBIE"
        if "p_parent (procs t i) = Some j" "p_state (procs t i) = ZOMBIE" for i j
        using that xs by (auto simp: slot(4) split: if_splits)
      ultimately show ?thesis using ok unfolding table_ok_def wait_ok_def by metis
    qed
    ultimately show ?thesis by (simp add: table_ok_def)
  qed
qed

lemma pids_okD:
  assumes "pids_ok s"
  shows "0 < nextpid s" "\<And>i. i < NPROC \<Longrightarrow> p_state (procs s i) \<noteq> USED"
    "\<And>i. i < NPROC \<Longrightarrow> p_state (procs s i) = UNUSED \<longleftrightarrow> p_pid (procs s i) = 0"
    "\<And>i. i < NPROC \<Longrightarrow> 0 \<le> p_pid (procs s i) \<and> p_pid (procs s i) < nextpid s"
    "\<And>i j. i < NPROC \<Longrightarrow> j < NPROC \<Longrightarrow> p_pid (procs s i) = p_pid (procs s j) \<Longrightarrow> p_pid (procs s i) = 0 \<or> i = j"
  using assms unfolding pids_ok_def by blast+

lemma family_okD:
  assumes "family_ok s"
  shows "\<exists>i0<NPROC. initproc s = Some i0 \<and> alive (p_state (procs s i0))"
    "\<And>i. i < NPROC \<Longrightarrow> p_parent (procs s i) = None \<Longrightarrow> p_state (procs s i) = UNUSED \<or> initproc s = Some i"
    "\<And>i j. i < NPROC \<Longrightarrow> p_parent (procs s i) = Some j \<Longrightarrow> p_state (procs s i) \<noteq> UNUSED \<and> j < NPROC \<and> alive (p_state (procs s j))"
  using assms unfolding family_ok_def by blast+

lemma family_okI:
  assumes "i0 < NPROC" "initproc s = Some i0" "alive (p_state (procs s i0))"
    "\<And>i. i < NPROC \<Longrightarrow> p_parent (procs s i) = None \<Longrightarrow> p_state (procs s i) = UNUSED \<or> initproc s = Some i"
    "\<And>i j. i < NPROC \<Longrightarrow> p_parent (procs s i) = Some j \<Longrightarrow> p_state (procs s i) \<noteq> UNUSED \<and> j < NPROC \<and> alive (p_state (procs s j))"
  shows "family_ok s"
  unfolding family_ok_def using assms by blast

lemma wait_okD:
  assumes "wait_ok s" "j < NPROC" "p_state (procs s j) = SLEEPING" "p_chan (procs s j) = Proc_chan k"
  shows "k = j" "\<And>i. i < NPROC \<Longrightarrow> p_parent (procs s i) = Some j \<Longrightarrow> p_state (procs s i) \<noteq> ZOMBIE"
  using assms unfolding wait_ok_def by blast+

lemma table_exit:
  assumes ok: "table_ok (Run p) s" and e: "Proc.exit st s = Ok t"
  shows "table_ok (Sched (Suc p)) t"
proof -
  note R = cpu_ok_Run[OF ok]
  have cur: "p = curproc s" using R by simp
  note E = exit_table[OF e cur]
  from ok have P: "pids_ok s" and F: "family_ok s" and W: "wait_ok s" and C: "cpu_ok (Run p) s" by (simp_all add: table_ok_def)
  have st: "p_state (procs t i) = x \<longleftrightarrow> p_state (procs s i) = x" if "i \<noteq> p" "x \<noteq> SLEEPING" "x \<noteq> RUNNABLE" for i x
    using E(9)[OF that(1)] that(2,3) by auto
  have al: "alive (p_state (procs t i)) \<longleftrightarrow> alive (p_state (procs s i))" if "i \<noteq> p" for i
    using E(9)[OF that] by (auto simp: alive_def)
  have "p_state (procs t i) \<noteq> RUNNING" if "i < NPROC" for i
    using C that st[of i RUNNING] E(7) by (cases "i = p") (auto simp: cpu_ok_def)
  then have "cpu_ok (Sched (Suc p)) t" using R by (simp add: cpu_ok_def)
  moreover have "pids_ok t"
  proof -
    have "p_state (procs t i) \<noteq> USED \<and> (p_state (procs t i) = UNUSED \<longleftrightarrow> p_pid (procs t i) = 0)" if "i < NPROC" for i
      using pids_okD(2,3)[OF P that] st[of i] E(5,7) pids_okD(3)[OF P, of p] R by (cases "i = p") auto
    then show ?thesis using pids_okD(1,4,5)[OF P] E(4,5) unfolding pids_ok_def by simp
  qed
  moreover have "family_ok t"
  proof -
    obtain i0 where i0: "i0 < NPROC" "initproc s = Some i0" "alive (p_state (procs s i0))" using family_okD(1)[OF F] by blast
    have ne: "i0 \<noteq> p" using E(1) i0(2) by auto
    have a0: "alive (p_state (procs t i0))" using al[OF ne] i0(3) by simp
    have un: "p_state (procs t i) = UNUSED \<longleftrightarrow> p_state (procs s i) = UNUSED" for i
      using st[of i UNUSED] E(7) R by (cases "i = p") auto
    have none: "p_state (procs t i) = UNUSED \<or> initproc t = Some i" if "i < NPROC" "p_parent (procs t i) = None" for i
      using family_okD(2)[OF F that(1)] that E(10)[of i] un i0(2) E(3) by (auto split: if_splits)
    have some: "p_state (procs t i) \<noteq> UNUSED \<and> j < NPROC \<and> alive (p_state (procs t j))"
      if i: "i < NPROC" and j: "p_parent (procs t i) = Some j" for i j
    proof (cases "p_parent (procs s i) = Some p")
      case True
      then show ?thesis using family_okD(3)[OF F i True] j i i0 a0 un E(10)[of i] by simp
    next
      case False
      then have "p_parent (procs s i) = Some j" "j \<noteq> p" using j i E(10)[of i] by auto
      then show ?thesis using family_okD(3)[OF F i] al un by simp
    qed
    show ?thesis by (rule family_okI[OF i0(1) _ a0 none some]) (simp add: E(3) i0(2))
  qed
  moreover have "wait_ok t"
  proof -
    have "k = j \<and> (\<forall>i<NPROC. p_parent (procs t i) = Some j \<longrightarrow> p_state (procs t i) \<noteq> ZOMBIE)"
      if j: "j < NPROC" "p_state (procs t j) = SLEEPING" "p_chan (procs t j) = Proc_chan k" for j k
    proof -
      have jp: "j \<noteq> p" using j(2) E(7) by auto
      have s: "p_state (procs s j) = SLEEPING" "p_chan (procs s j) = Proc_chan k" using E(9)[OF jp] j E(6)[of j] by auto
      note W' = wait_okD[OF W j(1) s]
      have "p_state (procs t i) \<noteq> ZOMBIE" if i: "i < NPROC" "p_parent (procs t i) = Some j" for i
      proof (cases "i = p")
        case True
        then show ?thesis using E(11)[OF j(1) jp j(2)] i(2) s(2) W'(1) by (simp add: proc_chan_def)
      next
        case False
        show ?thesis
        proof (cases "p_parent (procs s i) = Some p")
          case True
          then have "\<exists>pp<NPROC. p_parent (procs s pp) = Some p" "initproc s = Some j" using i E(10)[of i] by auto
          then show ?thesis using E(12)[OF j(1) jp j(2)] s(2) W'(1) by (simp add: proc_chan_def)
        next
          case no: False
          then have "p_parent (procs s i) = Some j" using i E(10)[of i] by auto
          then show ?thesis using W'(2)[OF i(1)] st[OF False, of ZOMBIE] by simp
        qed
      qed
      then show ?thesis using W'(1) by blast
    qed
    then show ?thesis unfolding wait_ok_def by blast
  qed
  ultimately show ?thesis by (simp add: table_ok_def)
qed

lemma table_reap:
  assumes ok: "table_ok (Run p) s" and np: "np < NPROC" "p_state (procs s np) = ZOMBIE"
    and t: "procs t = (procs s)(np := freed (procs s np))" "curproc t = curproc s" "nextpid t = nextpid s" "initproc t = initproc s"
  shows "table_ok (Run p) t"
proof -
  note R = cpu_ok_Run[OF ok]
  from ok have P: "pids_ok s" and F: "family_ok s" and W: "wait_ok s" and C: "cpu_ok (Run p) s" by (simp_all add: table_ok_def)
  have x: "p_state (procs t np) = UNUSED" "p_pid (procs t np) = 0" "p_parent (procs t np) = None" by (simp_all add: t(1) freed_def)
  have o: "procs t i = procs s i" if "i \<noteq> np" for i using that by (simp add: t(1))
  have "p_state (procs t i) = RUNNING \<longleftrightarrow> p_state (procs s i) = RUNNING" for i using x o np(2) by (cases "i = np") auto
  then have "cpu_ok (Run p) t" using C t(2) by (simp add: cpu_ok_def)
  moreover have "pids_ok t"
  proof -
    have "p_state (procs t i) \<noteq> USED \<and> (p_state (procs t i) = UNUSED \<longleftrightarrow> p_pid (procs t i) = 0) \<and>
        0 \<le> p_pid (procs t i) \<and> p_pid (procs t i) < nextpid t" if "i < NPROC" for i
      using pids_okD[OF P] that x o[of i] t(3) by (cases "i = np") auto
    moreover have "p_pid (procs t i) = 0 \<or> i = j" if "i < NPROC" "j < NPROC" "p_pid (procs t i) = p_pid (procs t j)" for i j
      using pids_okD(5)[OF P that(1,2)] that(3) x o[of i] o[of j] by (cases "i = np"; cases "j = np") auto
    ultimately show ?thesis using pids_okD(1)[OF P] t(3) unfolding pids_ok_def by simp
  qed
  moreover have "family_ok t"
  proof -
    have al: "alive (p_state (procs t i))" if "alive (p_state (procs s i))" for i
      using that o[of i] np(2) by (cases "i = np") (auto simp: alive_def)
    have "(p_parent (procs t i) = None \<longrightarrow> p_state (procs t i) = UNUSED \<or> initproc t = Some i) \<and>
        (\<forall>j. p_parent (procs t i) = Some j \<longrightarrow> p_state (procs t i) \<noteq> UNUSED \<and> j < NPROC \<and> alive (p_state (procs t j)))"
      if "i < NPROC" for i
      using family_okD(2,3)[OF F that] al x o[of i] t(4) by (cases "i = np") auto
    then show ?thesis using family_okD(1)[OF F] al t(4) unfolding family_ok_def by auto
  qed
  moreover have "wait_ok t"
  proof -
    have "p_state (procs s i) = p_state (procs t i) \<and> p_chan (procs s i) = p_chan (procs t i) \<and> p_parent (procs s i) = p_parent (procs t i)"
      if "p_state (procs t i) = SLEEPING \<or> p_state (procs t i) = ZOMBIE" for i
      using that x o[of i] by (cases "i = np") auto
    then show ?thesis using W unfolding wait_ok_def by metis
  qed
  ultimately show ?thesis by (simp add: table_ok_def)
qed

lemma table_wait:
  assumes ok: "table_ok (Run p) s" and w: "Proc.wait addr s = Ok (Done r, t)"
  shows "table_ok (Run p) t"
proof -
  have f: "curproc t = curproc s" "nextpid t = nextpid s" "initproc t = initproc s" using wait_table[OF w] by simp_all
  consider "procs t = procs s"
    | np where "np < NPROC" "p_state (procs s np) = ZOMBIE" "procs t = (procs s)(np := freed (procs s np))"
    using wait_table[OF w] by auto
  then show ?thesis
  proof cases
    case 1
    then show ?thesis using ok f by (intro table_eases[of s t]) (simp_all add: eases_def same_parents_def)
  next
    case 2
    then show ?thesis using table_reap[OF ok 2(1,2,3) f] by simp
  qed
qed

lemma kstep_table_ok:
  assumes "kstep (c, s) (c', t)" "table_ok c s"
  shows "table_ok c' t"
  using assms
proof (cases rule: kstep.cases)
  case (skip p)
  then show ?thesis using assms(2) by (simp add: table_ok_def cpu_ok_def)
next
  case (pick p)
  then show ?thesis using assms(2) table_pick by simp
next
  case wrap
  then show ?thesis using assms(2) by (simp add: table_ok_def cpu_ok_def)
next
  case (interrupt p)
  have "eases s (clockintr None s)" "same_parents s (clockintr None s)"
    using wakeup_by_table(1,2)[where s = "s\<lparr>ticks := ticks s + 1\<rparr>"] by (simp_all add: clockintr_def eases_def same_parents_def)
  then show ?thesis using assms(2) interrupt table_eases by blast
next
  case (tick p)
  have "eases s (clockintr (Some p) s)" "same_parents s (clockintr (Some p) s)"
    using wakeup_by_table(1,2)[where s = "s\<lparr>ticks := ticks s + 1\<rparr>"] by (simp_all add: clockintr_def eases_def same_parents_def)
  then show ?thesis using assms(2) tick table_eases by blast
next
  case (work p)
  then show ?thesis using assms(2) table_eases same_table_eases by blast
next
  case (wakeup p ch)
  then show ?thesis using assms(2) table_eases wakeup_table(1,2) by blast
next
  case (kill pid r p)
  then show ?thesis using assms(2) table_eases kill_table by blast
next
  case (wait addr r p)
  then show ?thesis using assms(2) table_wait by blast
next
  case (wait_sleep addr p)
  then show ?thesis using assms(2) wait_table[OF wait_sleep(3)] cpu_ok_Run[of p s] table_sleep[of p s "Proc_chan p"] by auto
next
  case (yield p)
  then show ?thesis using assms(2) table_yield by simp
next
  case (sleep ch p)
  then show ?thesis using assms(2) table_sleep[of p s ch] by auto
next
  case (resume p)
  then show ?thesis using assms(2) table_resume by simp
next
  case (fork r p)
  then show ?thesis using assms(2) table_fork by blast
next
  case (exit st p)
  then show ?thesis using assms(2) table_exit by blast
qed

section \<open>From the start of the machine\<close>

text \<open>The state that \<open>userinit\<close> leaves: one process, which is \<open>initproc\<close>, and free slots.\<close>

definition booted :: "'a proc_st_scheme \<Rightarrow> bool" where
  "booted s \<longleftrightarrow> nextpid s = 2 \<and> (\<exists>i0<NPROC. initproc s = Some i0 \<and> p_state (procs s i0) = RUNNABLE \<and>
     p_pid (procs s i0) = 1 \<and> p_parent (procs s i0) = None \<and> (\<forall>i<NPROC. i \<noteq> i0 \<longrightarrow> blank (procs s i)))"

lemma userinit_booted:
  assumes u: "userinit s = Ok t" and b: "\<forall>i<NPROC. blank (procs s i)" and n: "nextpid s = 1"
  shows "booted t"
proof -
  obtain p a where a: "allocproc s = Ok (Some p, a)" using u by (auto simp: userinit_def split: option.splits)
  obtain tf pt where p: "p < NPROC" "nextpid a = 2" "procs a = (procs s)(p := claimed 1 tf pt (procs s p))"
    using allocproc_table[OF a] n by auto
  let ?a = "a\<lparr>initproc := Some p\<rparr>"
  let ?c = "\<lambda>b. set_proc p (\<lambda>x. x\<lparr>p_sz := of_nat PGSIZE, p_trapframe := (p_trapframe x)\<lparr>tf_epc := 0, tf_sp := of_nat PGSIZE\<rparr>,
               p_name := safestrcpy (p_name x) 0 (cstr [105, 110, 105, 116, 99, 111, 100, 101]) 0 16\<rparr>) b"
  obtain b cwd d where b: "uvminit (p_pagetable (procs ?a p)) (cstr initcode) (length initcode) ?a = Ok b"
    and d: "namei [47] (?c b) = Ok (cwd, d)" and t: "t = set_proc p (\<lambda>x. x\<lparr>p_cwd := cwd, p_state := RUNNABLE\<rparr>) d"
    using u a by (auto simp: userinit_def Let_def)
  have "mem_only ?a b" using ensuresD[OF uvminit_keeps[OF only_refl(1)] b] .
  note B = mem_onlyD[OF this] mem_proc_st[OF this]
  have "fs_only (?c b) d" using ensuresD[OF namei_keeps[OF only_refl(4)] d] by simp
  note D = file_proc_st[OF fs_file_only[OF this]]
  have t': "nextpid t = 2" "initproc t = Some p" "\<And>i. i \<noteq> p \<Longrightarrow> procs t i = procs s i"
    "p_state (procs t p) = RUNNABLE" "p_pid (procs t p) = 1" "p_parent (procs t p) = p_parent (procs s p)"
    using B D p by (simp_all add: t set_proc_def claimed_def)
  then show ?thesis using p(1) \<open>\<forall>i<NPROC. blank (procs s i)\<close> unfolding booted_def by (auto simp: blank_def)
qed

lemma booted_table_ok: "booted s \<Longrightarrow> table_ok (Sched 0) s"
proof -
  assume b: "booted s"
  then obtain i0 where n: "nextpid s = 2" and i: "i0 < NPROC" "initproc s = Some i0" "p_state (procs s i0) = RUNNABLE"
    "p_pid (procs s i0) = 1" "p_parent (procs s i0) = None" and o: "\<And>i. i < NPROC \<Longrightarrow> i \<noteq> i0 \<Longrightarrow> blank (procs s i)"
    unfolding booted_def by blast
  have st: "p_state (procs s j) = (if j = i0 then RUNNABLE else UNUSED)" "p_pid (procs s j) = (if j = i0 then 1 else 0)"
    "p_parent (procs s j) = None" if "j < NPROC" for j
    using i o[OF that] by (auto simp: blank_def)
  have "cpu_ok (Sched 0) s" using st by (simp add: cpu_ok_def)
  moreover have "pids_ok s" using st n by (simp add: pids_ok_def)
  moreover have "family_ok s" using st i by (intro family_okI[of i0]) (auto simp: alive_def)
  moreover have "wait_ok s" using st unfolding wait_ok_def by simp
  ultimately show ?thesis by (simp add: table_ok_def)
qed

lemma run_table_ok:
  assumes "kstep\<^sup>*\<^sup>* (c, s) (c', t)" "table_ok c s"
  shows "table_ok c' t"
  using assms by (induction rule: rtranclp_induct2) (auto intro: kstep_table_ok)

section \<open>The scheduler is fair\<close>

text \<open>The number of scheduler steps before slot \<open>j\<close> is looked at.\<close>

definition until :: "nat \<Rightarrow> nat \<Rightarrow> nat" where
  "until j p = (if p \<le> j then j - p else NPROC - p + 1 + j)"

fun remaining :: "nat \<Rightarrow> cpu \<Rightarrow> nat" where
  "remaining j (Sched p) = until j p"
| "remaining j (Run p) = until j (Suc p)"

definition sched_moves :: "cpu \<Rightarrow> cpu \<Rightarrow> bool" where
  "sched_moves c c' \<longleftrightarrow> (\<exists>p. c = Sched p \<and> c' \<noteq> Sched p)"

lemma eases_runnable: "eases s t \<Longrightarrow> p_state (procs s i) = RUNNABLE \<Longrightarrow> p_state (procs t i) = RUNNABLE"
  unfolding eases_def by (metis procstate.distinct)

lemma kstep_runnable:
  assumes k: "kstep (c, s) (c', t)" and ok: "table_ok c s" and j: "j < NPROC" "p_state (procs s j) = RUNNABLE" "c' \<noteq> Run j"
  shows "p_state (procs t j) = RUNNABLE"
proof -
  have run: "j \<noteq> p" if "c = Run p" for p using cpu_ok_Run ok j(2) that by fastforce
  have ck: "eases s (clockintr x s)" for x
    using wakeup_by_table(1)[where s = "s\<lparr>ticks := ticks s + 1\<rparr>"] by (simp add: clockintr_def eases_def)
  show ?thesis
    using k
  proof (cases rule: kstep.cases)
    case (pick p)
    then show ?thesis using j by (auto simp: dispatch_def set_proc_def)
  next
    case (work p)
    then show ?thesis using j by (simp add: same_table_def)
  next
    case (yield p)
    then show ?thesis using j run cpu_ok_Run[of p s] ok by (simp add: Proc.yield_def update_myproc_def)
  next
    case (sleep ch p)
    then show ?thesis using j run cpu_ok_Run[of p s] ok by (simp add: Proc.sleep_def update_myproc_def)
  next
    case (resume p)
    then show ?thesis using j run cpu_ok_Run[of p s] ok by (simp add: sleep_end_def update_myproc_def)
  next
    case (fork r p)
    then show ?thesis using fork_table[OF fork(3)] cpu_ok_Run[of p s] ok j(2) by auto
  next
    case (exit st p)
    then show ?thesis using exit_table(9)[OF exit(3), of p j] cpu_ok_Run[of p s] ok j(2) run by auto
  next
    case (wait addr r p)
    then show ?thesis using wait_table[OF wait(3)] j(2) by auto
  next
    case (wait_sleep addr p)
    then show ?thesis using wait_table[OF wait_sleep(3)] cpu_ok_Run[of p s] ok j(2) run by (auto simp: Proc.sleep_def update_myproc_def)
  next
    case (kill pid r p)
    then show ?thesis using kill_table eases_runnable j by blast
  qed (use j eases_runnable ck wakeup_table(1) in blast)+
qed

lemma kstep_remaining:
  assumes k: "kstep (c, s) (c', t)" and ok: "table_ok c s" and j: "j < NPROC" "p_state (procs s j) = RUNNABLE" "c' \<noteq> Run j"
  shows "remaining j c' \<le> remaining j c \<and> (sched_moves c c' \<longrightarrow> remaining j c' < remaining j c)"
  using k
proof (cases rule: kstep.cases)
  case (skip p)
  then have "p \<noteq> j" using j by auto
  then show ?thesis using skip j by (auto simp: until_def)
qed (use j in \<open>auto simp: until_def sched_moves_def\<close>)

lemma fair_run:
  assumes step: "\<And>n. kstep (f n) (f (Suc n))" and ok: "table_ok (fst (f 0)) (snd (f 0))"
    and moves: "\<And>n. \<exists>m\<ge>n. sched_moves (fst (f m)) (fst (f (Suc m)))"
    and j: "j < NPROC" "p_state (procs (snd (f n)) j) = RUNNABLE"
  shows "\<exists>m>n. fst (f m) = Run j"
  using j(2)
proof (induction "remaining j (fst (f n))" arbitrary: n rule: less_induct)
  case less
  have tok: "table_ok (fst (f n)) (snd (f n))" for n
  proof (induction n)
    case (Suc n)
    then show ?case using kstep_table_ok[of "fst (f n)" "snd (f n)" "fst (f (Suc n))" "snd (f (Suc n))"] step[of n] by simp
  qed (rule ok)
  obtain m where m: "m \<ge> n" "sched_moves (fst (f m)) (fst (f (Suc m)))" using moves by blast
  have one: "fst (f (Suc k)) = Run j \<or> p_state (procs (snd (f (Suc k))) j) = RUNNABLE \<and>
      remaining j (fst (f (Suc k))) \<le> remaining j (fst (f k)) \<and>
      (sched_moves (fst (f k)) (fst (f (Suc k))) \<longrightarrow> remaining j (fst (f (Suc k))) < remaining j (fst (f k)))"
    if "p_state (procs (snd (f k)) j) = RUNNABLE" for k
    using kstep_runnable[of "fst (f k)" "snd (f k)" "fst (f (Suc k))" "snd (f (Suc k))" j]
      kstep_remaining[of "fst (f k)" "snd (f k)" "fst (f (Suc k))" "snd (f (Suc k))" j] step[of k] tok[of k] j(1) that by auto
  have "(\<exists>k>n. fst (f k) = Run j) \<or> p_state (procs (snd (f (n + d))) j) = RUNNABLE \<and>
      remaining j (fst (f (n + d))) \<le> remaining j (fst (f n))" for d
  proof (induction d)
    case 0
    then show ?case using less.prems by simp
  next
    case (Suc d)
    then show ?case using one[of "n + d"] by (auto intro: exI[of _ "Suc (n + d)"])
  qed
  from this[of "m - n"] m(1) have "(\<exists>k>n. fst (f k) = Run j) \<or> p_state (procs (snd (f m)) j) = RUNNABLE \<and>
      remaining j (fst (f m)) \<le> remaining j (fst (f n))" by simp
  then show ?case
  proof
    assume r: "p_state (procs (snd (f m)) j) = RUNNABLE \<and> remaining j (fst (f m)) \<le> remaining j (fst (f n))"
    show ?thesis
    proof (cases "fst (f (Suc m)) = Run j")
      case True
      then show ?thesis using m(1) by (intro exI[of _ "Suc m"]) simp
    next
      case False
      then have "\<exists>k>Suc m. fst (f k) = Run j" using one[of m] r m(2) by (intro less.hyps) auto
      then show ?thesis using m(1) by (meson le_less_trans less_SucI lessI less_trans)
    qed
  qed
qed

section \<open>An example\<close>

text \<open>A machine with the first process; it runs and yields for ever.\<close>

definition some_kernel :: proc_st where
  "some_kernel = (file_st.extend some_open (proc_st.fields 2 (Some 0) 0 False 0 0 0))
     \<lparr>procs := (\<lambda>_. zero_proc)(0 := zero_proc\<lparr>p_state := RUNNABLE, p_pid := 1\<rparr>)\<rparr>"

lemma some_kernel_simps:
  "procs some_kernel = (\<lambda>_. zero_proc)(0 := zero_proc\<lparr>p_state := RUNNABLE, p_pid := 1\<rparr>)"
  "nextpid some_kernel = 2" "initproc some_kernel = Some 0"
  by (simp_all add: some_kernel_def file_st.defs proc_st.defs)

lemma some_booted: "booted some_kernel"
  unfolding booted_def by (intro conjI exI[of _ 0]) (auto simp: some_kernel_simps NPROC_def blank_def zero_proc_def)

text \<open>The first process waits for its child, which runs.\<close>

definition some_family :: proc_st where
  "some_family = some_kernel\<lparr>nextpid := 3, curproc := 1,
     procs := (\<lambda>_. zero_proc)(0 := zero_proc\<lparr>p_state := SLEEPING, p_pid := 1, p_chan := Proc_chan 0\<rparr>,
       1 := zero_proc\<lparr>p_state := RUNNING, p_pid := 2, p_parent := Some 0\<rparr>)\<rparr>"

lemma some_family_simps:
  "procs some_family = (\<lambda>_. zero_proc)(0 := zero_proc\<lparr>p_state := SLEEPING, p_pid := 1, p_chan := Proc_chan 0\<rparr>,
     1 := zero_proc\<lparr>p_state := RUNNING, p_pid := 2, p_parent := Some 0\<rparr>)"
  "nextpid some_family = 3" "initproc some_family = Some 0" "curproc some_family = 1"
  by (simp_all add: some_family_def some_kernel_simps)

lemma some_family_ok: "table_ok (Run 1) some_family"
proof -
  have "cpu_ok (Run 1) some_family" by (simp add: cpu_ok_def some_family_simps zero_proc_def NPROC_def)
  moreover have "pids_ok some_family" by (simp add: pids_ok_def some_family_simps zero_proc_def)
  moreover have "family_ok some_family"
    by (rule family_okI[of 0]) (auto simp: some_family_simps zero_proc_def NPROC_def alive_def split: if_splits)
  moreover have "wait_ok some_family" by (simp add: wait_ok_def some_family_simps zero_proc_def)
  ultimately show ?thesis by (simp add: table_ok_def)
qed

fun sched_next :: "cpu \<times> 'a proc_st_scheme \<Rightarrow> cpu \<times> 'a proc_st_scheme" where
  "sched_next (Sched p, s) =
     (if p < NPROC then if p_state (procs s p) = RUNNABLE then (Run p, dispatch p s) else (Sched (Suc p), s) else (Sched 0, s))"
| "sched_next (Run p, s) = (Sched (Suc p), Proc.yield s)"

lemma sched_next_kstep: "table_ok c s \<Longrightarrow> kstep (c, s) (sched_next (c, s))"
  by (cases c) (auto simp: table_ok_def cpu_ok_def not_less intro: kstep.intros dest: le_antisym)

definition some_run :: "nat \<Rightarrow> cpu \<times> proc_st" where
  "some_run n = (sched_next ^^ n) (Sched 0, some_kernel)"

lemma some_run_ok: "table_ok (fst (some_run n)) (snd (some_run n)) \<and> kstep (some_run n) (some_run (Suc n))"
proof (induction n)
  case 0
  then show ?case using booted_table_ok[OF some_booted] sched_next_kstep[of "Sched 0" some_kernel] by (simp add: some_run_def)
next
  case (Suc n)
  have k: "kstep (fst (some_run n), snd (some_run n)) (fst (some_run (Suc n)), snd (some_run (Suc n)))" using Suc by simp
  have "table_ok (fst (some_run (Suc n))) (snd (some_run (Suc n)))" using kstep_table_ok[OF k] Suc by blast
  then show ?case using sched_next_kstep[of "fst (some_run (Suc n))" "snd (some_run (Suc n))"] by (simp add: some_run_def)
qed

lemma sched_next_moves: "c = Sched p \<Longrightarrow> sched_moves c (fst (sched_next (c, s)))"
  by (auto simp: sched_moves_def NPROC_def)

lemma some_run_moves: "\<exists>m\<ge>n. sched_moves (fst (some_run m)) (fst (some_run (Suc m)))"
proof -
  have s: "some_run (Suc m) = sched_next (fst (some_run m), snd (some_run m))" for m by (simp add: some_run_def)
  show ?thesis
  proof (cases "fst (some_run n)")
    case (Sched p)
    then show ?thesis using sched_next_moves[OF Sched, of "snd (some_run n)"] by (intro exI[of _ n]) (simp add: s)
  next
    case (Run p)
    then have "fst (some_run (Suc n)) = Sched (Suc p)" by (simp add: s)
    then show ?thesis using sched_next_moves[of "fst (some_run (Suc n))" "Suc p" "snd (some_run (Suc n))"] s[of "Suc n"]
      by (intro exI[of _ "Suc n"]) simp
  qed
qed

section \<open>Properties\<close>



text \<open>
  (C17) No wakeup is lost between \<open>exit\<close> and \<open>wait\<close>: whatever steps the kernel takes from a state
  that satisfies the invariant, as the state after \<open>userinit\<close> does, a process that sleeps in \<open>wait\<close>
  has no child that has exited.
\<close>

theorem no_lost_wakeup:
  assumes "table_ok c s" "kstep\<^sup>*\<^sup>* (c, s) (c', t)" "j < NPROC"
    and "p_state (procs t j) = SLEEPING" "p_chan (procs t j) = Proc_chan j" "i < NPROC" "p_parent (procs t i) = Some j"
  shows "p_state (procs t i) \<noteq> ZOMBIE"
  using run_table_ok[OF assms(2,1)] wait_okD(2)[of t j j i] assms by (simp add: table_ok_def)

theorem no_lost_wakeup_witness:
  "p_state (procs (Proc.yield some_family) 0) = SLEEPING \<and> p_state (procs (Proc.yield some_family) 1) \<noteq> ZOMBIE"
proof -
  have r: "kstep\<^sup>*\<^sup>* (Run 1, some_family) (Sched 2, Proc.yield some_family)"
    using kstep.yield[of 1 some_family] by (simp add: r_into_rtranclp numeral_2_eq_2)
  have y: "procs (Proc.yield some_family) 0 = zero_proc\<lparr>p_state := SLEEPING, p_pid := 1, p_chan := Proc_chan 0\<rparr>"
    "p_parent (procs (Proc.yield some_family) 1) = Some 0"
    by (simp_all add: Proc.yield_def update_myproc_def some_family_simps)
  show ?thesis using no_lost_wakeup[OF some_family_ok r, of 0 1] y by (simp add: NPROC_def)
qed

text \<open>
  (C18) The scheduler is fair: in every infinite run in which it moves on again and again, a process
  that is \<open>RUNNABLE\<close> gets the processor later.
\<close>

theorem scheduler_fair:
  assumes "\<And>n. kstep (f n) (f (Suc n))" "booted s" "f 0 = (Sched 0, s)"
    and "\<And>n. \<exists>m\<ge>n. sched_moves (fst (f m)) (fst (f (Suc m)))"
    and "j < NPROC" "p_state (procs (snd (f n)) j) = RUNNABLE"
  shows "\<exists>m>n. fst (f m) = Run j"
  using fair_run[OF assms(1) _ assms(4,5,6)] booted_table_ok[OF assms(2)] assms(3) by simp

theorem scheduler_fair_witness:
  "\<exists>m>0. fst (some_run m) = Run 0"
proof -
  have "some_run 0 = (Sched 0, some_kernel)" by (simp add: some_run_def)
  then show ?thesis
    using scheduler_fair[of some_run some_kernel 0 0] some_run_ok some_booted some_run_moves
    by (simp add: NPROC_def some_kernel_simps)
qed

end
