(* ===== verification/Spec2Isabelle.thy ===== *)
theory Spec2Isabelle
  imports Sched
begin

text \<open>
  A verification of the kernel of an xv6 variant with a reworked file system
  (\<open>src/kernel\<close>): files with direct, singly, doubly and triply indirect blocks and extents,
  hashed directories, an inode bitmap, access modes, a recycle bin, symbolic links.

  \<^bold>\<open>How the program is modelled.\<close>  A C function is a HOL function with the same name.  A
  function that may panic, sleep for ever or run into undefined behaviour returns a \<open>res\<close>:
  \<open>Ok\<close>, \<open>Panic\<close> with the message, \<open>Hang\<close> (the caller has to wait for another process) or
  \<open>Undef\<close> (a null or dangling pointer, an index behind an array).  The state is a record that
  grows along the layers of the kernel, and a function is polymorphic in the layers above its
  own: \<open>kmach\<close> (physical memory, free list, process table), \<open>bio_st\<close> (disk and buffer cache),
  \<open>log_st\<close> (the log), \<open>fs_st\<close> (superblock and inode table), \<open>file_st\<close> (open files, pipes,
  console).  Machine integers are words.  Pointers into a table are indices.  A section that
  the code protects by a spin lock runs without interleaving.

  \<^bold>\<open>Theories, from the bottom up.\<close>
  \<^item> \<open>Prelude\<close>: results, words and little-endian encoding of numbers in byte arrays.
    \<open>Ringbuf\<close>: circular buffers with wrapping indices and the locale \<open>fifo\<close>.
  \<^item> \<open>Cstring\<close>: \<open>kernel/string.c\<close>.
  \<^item> \<open>Kalloc\<close>: the machine state and \<open>kernel/kalloc.c\<close>.  The free list, whose links are stored
    in the free pages, is a list of distinct pages under \<open>kalloc\<close>, \<open>kfree\<close> and \<open>freerange\<close>.
  \<^item> \<open>Vm\<close>: \<open>kernel/vm.c\<close>; \<open>Usermem\<close>: user memory as a partial function from addresses to
    bytes, and \<open>copyin\<close>, \<open>copyout\<close>, \<open>copyinstr\<close> as operations on it.
  \<^item> \<open>Bio\<close>: \<open>kernel/sleeplock.c\<close> and \<open>kernel/bio.c\<close>; \<open>Cache\<close>: the contract of the cache
    (\<open>bio_ok\<close>): a buffer holds what was last written to its block.
  \<^item> \<open>Layout\<close>: the on-disk format of \<open>kernel/fs.h\<close>, with encoders and decoders.
  \<^item> \<open>Log\<close>: \<open>kernel/log.c\<close>; \<open>Txn\<close>: the logical contents of the disk (\<open>lview\<close>) under
    \<open>log_write\<close>; \<open>Crash\<close>: atomicity and durability of \<open>end_op\<close>, idempotent recovery, and the
    space reservation of \<open>begin_op\<close>.
  \<^item> \<open>Alloc\<close>: the superblock and the bitmap allocators of \<open>kernel/fs.c\<close>, as interpretations of
    the locales \<open>bitmap\<close> and \<open>allocator\<close>.
  \<^item> \<open>Inode\<close>: inodes of \<open>kernel/fs.c\<close> up to \<open>readi\<close> and \<open>writei\<close>; \<open>Filemap\<close>: the tree of blocks
    of a file and \<open>bmap\<close>; \<open>Content\<close>: files as sequences of bytes.
  \<^item> \<open>Dir\<close>: directories and path names of \<open>kernel/fs.c\<close>.
  \<^item> \<open>Pipe\<close>: \<open>kernel/pipe.c\<close>; \<open>Console\<close>: \<open>kernel/console.c\<close>; both as interpretations or
    refinements of an abstract buffer.
  \<^item> \<open>File\<close>: \<open>kernel/file.c\<close>; \<open>Fileio\<close>: what \<open>fileread\<close> and \<open>filewrite\<close> do to a file through all
    layers, with crashes.
  \<^item> \<open>Sysfile\<close>: \<open>kernel/sysfile.c\<close> and the argument fetching of \<open>kernel/syscall.c\<close>.

  \<^bold>\<open>Bounds and fuel.\<close>  Loops whose rounds the code bounds are recursive functions with a
  termination proof.  \<open>mappages\<close> has as much fuel as there are pages below \<open>MAXVA\<close>, where \<open>walk\<close>
  panics; \<open>freewalk\<close> has the three levels of a page table; \<open>freemem_size\<close> is partial, because a
  cyclic free list would keep it busy for ever.

  \<^bold>\<open>Not modelled.\<close>  Device drivers and interrupt entry (\<open>virtio_disk.c\<close>, \<open>uart.c\<close>, \<open>plic.c\<close>,
  \<open>trap.c\<close>), boot code (\<open>start.c\<close>, \<open>main.c\<close>, the assembly files), spin locks (\<open>spinlock.c\<close>),
  scheduling and process creation (\<open>proc.c\<close>), program loading (\<open>exec.c\<close>), \<open>printf.c\<close>, the image
  builder \<open>mkfs.c\<close> and the user programs.
\<close>

end
